(* ===== verification/Kern_Prelude.thy ===== *)
theory Kern_Prelude
  imports Main "HOL-Library.Word"
begin

text \<open>
  Shared vocabulary of the development: the error numbers of \<^verbatim>\<open>sys/errno.h\<close> that the
  modelled routines return, the outcome of a kernel routine (a value, a \<^verbatim>\<open>panic\<close>, or a
  memory access outside the object it was meant for), and the generic facts on lists and
  words that the component theories use.

  Integers keep the width they have in the 64-bit (LP64) kernel: \<open>size_t\<close> and
  \<open>ulong_t\<close> are 64 bits wide, \<open>int\<close> and \<open>uint_t\<close> 32 bits, \<open>short\<close> and
  \<open>ushort_t\<close> 16 bits.
\<close>

unbundle bit_operations_syntax

section \<open>Types of the kernel\<close>

type_synonym size_t = "64 word"
type_synonym ulong_t = "64 word"
type_synonym uint_t = "32 word"
type_synonym int32_t = "32 word"
type_synonym ushort_t = "16 word"
type_synonym short_t = "16 word"
type_synonym byte = "8 word"

datatype errno =
    EPERM | ENOENT | ESRCH | EINTR | EIO | ENXIO | E2BIG | EBADF | EAGAIN | ENOMEM
  | EACCES | EFAULT | EBUSY | EEXIST | EINVAL | EFBIG | ENOSPC | ERANGE | ENOMSG | EIDRM
  | EOVERFLOW

primrec errno_num :: "errno \<Rightarrow> int" where
  "errno_num EPERM = 1"
| "errno_num ENOENT = 2"
| "errno_num ESRCH = 3"
| "errno_num EINTR = 4"
| "errno_num EIO = 5"
| "errno_num ENXIO = 6"
| "errno_num E2BIG = 7"
| "errno_num EBADF = 9"
| "errno_num EAGAIN = 11"
| "errno_num ENOMEM = 12"
| "errno_num EACCES = 13"
| "errno_num EFAULT = 14"
| "errno_num EBUSY = 16"
| "errno_num EEXIST = 17"
| "errno_num EINVAL = 22"
| "errno_num EFBIG = 27"
| "errno_num ENOSPC = 28"
| "errno_num ERANGE = 34"
| "errno_num ENOMSG = 35"
| "errno_num EIDRM = 36"
| "errno_num EOVERFLOW = 79"

text \<open>
  What running a kernel routine amounts to: it returns a value, it calls \<^verbatim>\<open>panic\<close> with a
  message, or it reads or writes outside the array or object it works on, which C leaves
  undefined.
\<close>

datatype 'a kres = KRet 'a | KPanic string | KFault

fun kbind :: "'a kres \<Rightarrow> ('a \<Rightarrow> 'b kres) \<Rightarrow> 'b kres" where
  "kbind (KRet x) f = f x"
| "kbind (KPanic s) f = KPanic s"
| "kbind KFault f = KFault"

named_theorems kern_simps \<open>unfolding rules for the kernel routines\<close>

section \<open>Outcomes\<close>

lemma kbind_KRet_iff:
  "kbind m f = KRet y \<longleftrightarrow> (\<exists>x. m = KRet x \<and> f x = KRet y)"
  by (cases m) auto

lemma kbind_assoc: "kbind (kbind m f) g = kbind m (\<lambda>x. kbind (f x) g)"
  by (cases m) auto

lemma kbind_cong [fundef_cong]:
  "m = m' \<Longrightarrow> (\<And>x. m' = KRet x \<Longrightarrow> f x = f' x) \<Longrightarrow> kbind m f = kbind m' f'"
  by (cases m') auto

section \<open>Lists\<close>

lemma list_update_length_Cons [simp]:
  "(xs @ y # ys)[length xs := z] = xs @ z # ys"
  by (induction xs) auto

lemma list_update_length_Suc [simp]:
  "(xs @ y # y' # ys)[Suc (length xs) := z] = xs @ y # z # ys"
  by (induction xs) auto

lemma nth_length_Suc [simp]: "(xs @ y # y' # ys) ! Suc (length xs) = y'"
  by (induction xs) auto

lemma takeWhile_append_stop:
  "\<forall>x \<in> set xs. P x \<Longrightarrow> \<not> P y \<Longrightarrow> takeWhile P (xs @ y # ys) = xs"
  by (induction xs) auto

lemma dropWhile_append_stop:
  "\<forall>x \<in> set xs. P x \<Longrightarrow> \<not> P y \<Longrightarrow> dropWhile P (xs @ y # ys) = y # ys"
  by (induction xs) auto

section \<open>Words\<close>

lemma unat_add_no_wrap:
  fixes a b :: "'a::len word"
  assumes "unat a + unat b < 2 ^ LENGTH('a)"
  shows "unat (a + b) = unat a + unat b"
  using assms by (simp add: unat_word_ariths)

lemma unat_sub_le:
  fixes a b :: "'a::len word"
  assumes "b \<le> a"
  shows "unat (a - b) = unat a - unat b"
  using assms by (simp add: unat_sub)

lemma unat_bound: "unat (w :: 'a::len word) < 2 ^ LENGTH('a)"
  by (rule unsigned_less)

lemma unat_pos_iff: "0 < unat (a :: 'a::len word) \<longleftrightarrow> a \<noteq> 0"
  by (metis neq0_conv unat_eq_zero)

lemma unat_add_nonzero:
  fixes a b :: "'a::len word"
  assumes "unat (a + b) = unat a + unat b" "a \<noteq> 0"
  shows "a + b \<noteq> 0"
  using assms unat_pos_iff [of a] unat_pos_iff [of "a + b"] by linarith

lemma sint_small:
  "unat (w :: 'a::len word) < 2 ^ (LENGTH('a) - 1) \<Longrightarrow> sint w = int (unat w)"
proof -
  assume "unat w < 2 ^ (LENGTH('a) - 1)"
  then have "int (unat w) < 2 ^ (LENGTH('a) - 1)" by (metis of_nat_less_iff of_nat_numeral of_nat_power)
  then have "signed_take_bit (LENGTH('a) - 1) (int (unat w)) = int (unat w)"
    by (intro signed_take_bit_int_eq_self) (auto intro: order_trans [of _ 0])
  then show ?thesis by (simp only: sint_uint uint_nat One_nat_def)
qed

lemma unat_ucast_small:
  "unat (w :: 'a::len word) < 2 ^ LENGTH('b) \<Longrightarrow> unat (ucast w :: 'b::len word) = unat w"
  by (simp add: unsigned_ucast_eq take_bit_nat_eq_self)

lemma sint_of_int_small:
  "- (2 ^ (LENGTH('a) - 1)) \<le> k \<Longrightarrow> k < 2 ^ (LENGTH('a) - 1) \<Longrightarrow> sint (word_of_int k :: 'a::len word) = k"
  by (simp only: sint_sbintrunc' signed_take_bit_int_eq_self)

lemma sint_diff:
  assumes "- (2 ^ (LENGTH('a) - 1)) \<le> sint a - sint b" "sint a - sint b < 2 ^ (LENGTH('a) - 1)"
  shows "sint (a - b :: 'a::len word) = sint a - sint b"
  using sint_of_int_small [OF assms] by simp

lemma sint_inj: "sint (a :: 'a::len word) = sint b \<longleftrightarrow> a = b"
proof
  assume "sint a = sint b"
  then have "(of_int (sint a) :: 'a word) = of_int (sint b)" by simp
  then show "a = b" by simp
qed simp

end
