(* ===== verification/Rmap.thy ===== *)
theory Rmap
  imports Kern_Prelude
begin

text \<open>
  Resource maps, \<^verbatim>\<open>uts/common/os/rmap.c\<close> and \<^verbatim>\<open>uts/common/sys/map.h\<close>.  A map is an
  array of segment descriptors, kept dense, sorted by address and ended by a descriptor of
  size 0.  The definitions below run on that array, index by index, as the C loops do; an
  index outside the array is \<open>KFault\<close>.
\<close>

section \<open>Data\<close>

record map_seg =
  m_size :: size_t
  m_addr :: ulong_t

text \<open>
  \<open>m_nslots\<close> is the field \<^verbatim>\<open>int m_size\<close> of \<^verbatim>\<open>struct map_head\<close>; \<open>m_cv\<close> counts the
  broadcasts sent on the map's condition variable.  The mutex \<^verbatim>\<open>m_lock\<close> has no
  counterpart: each routine holds it from its first access to its last, \<open>rmfree\<close> apart, which
  drops it around the overflow message, where the model takes no step of another thread.
\<close>

record map_head =
  m_free :: uint_t
  m_want :: uint_t
  m_nam :: string
  m_nslots :: int32_t
  m_map :: "map_seg list"
  m_cv :: nat

text \<open>\<^verbatim>\<open>sizeof (struct map)\<close> is 16 and \<^verbatim>\<open>sizeof (struct map_head)\<close> is 56 in the LP64 kernel.\<close>

definition sizeof_map :: nat where
  "sizeof_map = 16"

definition sizeof_map_head :: nat where
  "sizeof_map_head = 56"

definition MAP_OVERHEAD :: nat where
  "MAP_OVERHEAD = (sizeof_map_head + 2 * sizeof_map - 1) div sizeof_map"

section \<open>Operations\<close>

text \<open>
  \<open>mapinit\<close> works on memory the caller provides: \<open>mem\<close> is what the segment array holds
  before the call.
\<close>

definition mapinit ::
  "map_seg list \<Rightarrow> uint_t \<Rightarrow> size_t \<Rightarrow> ulong_t \<Rightarrow> string \<Rightarrow> size_t \<Rightarrow> map_head kres"
where
  "mapinit mem want sz addr name mapsize =
     (if unat mapsize < MAP_OVERHEAD + 1 then KPanic ''mapinit: map too small''
      else if mem = [] then KFault
      else
        let n = mapsize - of_nat MAP_OVERHEAD in
        KRet \<lparr>m_free = (if sz \<noteq> 0 then ucast n - 1 else ucast n),
              m_want = want, m_nam = name, m_nslots = ucast n,
              m_map = mem[0 := \<lparr>m_size = sz, m_addr = addr\<rparr>], m_cv = 0\<rparr>)"

text \<open>
  The segment array inside an allocation of \<open>mapsize\<close> descriptors: everything after the
  header's fixed fields.
\<close>

definition map_slots :: "size_t \<Rightarrow> nat" where
  "map_slots mapsize = (unat (mapsize * of_nat sizeof_map) - (sizeof_map_head - sizeof_map)) div sizeof_map"

definition rmallocmap :: "bool \<Rightarrow> size_t \<Rightarrow> map_head option kres" where
  "rmallocmap mem_ok mapsize =
     (let mapsize = mapsize + of_nat MAP_OVERHEAD in
      if \<not> mem_ok then KRet None
      else kbind (mapinit (replicate (map_slots mapsize) \<lparr>m_size = 0, m_addr = 0\<rparr>) 0 0 0
                    ''rmallocmap'' mapsize)
                 (\<lambda>mp. KRet (Some mp)))"

definition rmallocmap_wait :: "size_t \<Rightarrow> map_head kres" where
  "rmallocmap_wait mapsize =
     (let mapsize = mapsize + of_nat MAP_OVERHEAD in
      mapinit (replicate (map_slots mapsize) \<lparr>m_size = 0, m_addr = 0\<rparr>) 0 0 0
        ''rmallocmap'' mapsize)"

text \<open>The bytes \<open>rmfreemap\<close> gives back to \<^verbatim>\<open>kmem_free\<close>.\<close>

definition rmfreemap :: "map_head \<Rightarrow> nat" where
  "rmfreemap mp =
     unat ((of_nat MAP_OVERHEAD + scast (m_nslots mp)) * of_nat sizeof_map :: size_t)"

text \<open>The first-fit scan of \<open>rmalloc_locked\<close>.\<close>

function rmalloc_scan :: "map_seg list \<Rightarrow> size_t \<Rightarrow> nat \<Rightarrow> nat option kres" where
  "rmalloc_scan arr sz bp =
     (if length arr \<le> bp then KFault
      else if m_size (arr ! bp) = 0 then KRet None
      else if sz \<le> m_size (arr ! bp) then KRet (Some bp)
      else rmalloc_scan arr sz (Suc bp))"
  by pat_completeness auto
termination
  by (relation "measure (\<lambda>(arr, sz, bp). length arr - bp)") auto

text \<open>
  The two compressing loops: \<open>shift_do\<close> is the \<^verbatim>\<open>do ... while\<close> of \<open>rmalloc_locked\<close>,
  \<open>shift_while\<close> the \<^verbatim>\<open>while\<close> of \<open>rmfree\<close> and \<open>rmget\<close>.
\<close>

function shift_do :: "map_seg list \<Rightarrow> nat \<Rightarrow> map_seg list kres" where
  "shift_do arr bp =
     (if length arr \<le> Suc bp then KFault
      else
        let arr' = arr[bp := arr ! Suc bp] in
        if m_size (arr ! Suc bp) \<noteq> 0 then shift_do arr' (Suc bp) else KRet arr')"
  by pat_completeness auto
termination
  by (relation "measure (\<lambda>(arr, bp). length arr - bp)") auto

function shift_while :: "map_seg list \<Rightarrow> nat \<Rightarrow> map_seg list kres" where
  "shift_while arr bp =
     (if length arr \<le> bp then KFault
      else if m_size (arr ! bp) = 0 then KRet arr
      else if length arr \<le> Suc bp then KFault
      else shift_while (arr[bp := arr ! Suc bp]) (Suc bp))"
  by pat_completeness auto
termination
  by (relation "measure (\<lambda>(arr, bp). length arr - bp)") auto

definition rmalloc_locked :: "map_head \<Rightarrow> size_t \<Rightarrow> (ulong_t \<times> map_head) kres" where
  "rmalloc_locked mp sz =
     kbind (rmalloc_scan (m_map mp) sz 0) (\<lambda>r.
       case r of
         None \<Rightarrow> KRet (0, mp)
       | Some bp \<Rightarrow>
           let e = m_map mp ! bp;
               addr = m_addr e;
               e' = e\<lparr>m_addr := m_addr e + sz, m_size := m_size e - sz\<rparr>;
               arr = (m_map mp)[bp := e']
           in if m_size e' = 0
              then kbind (shift_do arr bp) (\<lambda>arr'.
                     KRet (addr, mp\<lparr>m_map := arr', m_free := m_free mp + 1\<rparr>))
              else KRet (addr, mp\<lparr>m_map := arr\<rparr>))"

definition rmalloc :: "map_head \<Rightarrow> size_t \<Rightarrow> (ulong_t \<times> map_head) kres" where
  "rmalloc mp sz = rmalloc_locked mp sz"

text \<open>
  \<open>rmalloc_wait\<close> sleeps on the map until space is found.  Each element of \<open>wakes\<close> is the
  map as the sleeper finds it when \<^verbatim>\<open>cv_wait\<close> returns; when the list is used up the caller
  is still asleep, and the result is \<open>Inl\<close> the map it sleeps on.
\<close>

fun rmalloc_wait ::
  "map_head \<Rightarrow> size_t \<Rightarrow> map_head list \<Rightarrow> (map_head + ulong_t \<times> map_head) kres"
where
  "rmalloc_wait mp sz wakes =
     kbind (rmalloc_locked mp sz) (\<lambda>(addr, mp').
       if addr = 0
       then (case wakes of
               [] \<Rightarrow> KRet (Inl (mp'\<lparr>m_want := 1\<rparr>))
             | w # ws \<Rightarrow> rmalloc_wait w sz ws)
       else KRet (Inr (addr, mp')))"

text \<open>\<open>rmfree\<close>: the segment that starts after the returned space, or the end of the map.\<close>

function rmfree_locate :: "map_seg list \<Rightarrow> ulong_t \<Rightarrow> nat \<Rightarrow> nat kres" where
  "rmfree_locate arr addr bp =
     (if length arr \<le> bp then KFault
      else if m_addr (arr ! bp) \<le> addr \<and> m_size (arr ! bp) \<noteq> 0
      then rmfree_locate arr addr (Suc bp)
      else KRet bp)"
  by pat_completeness auto
termination
  by (relation "measure (\<lambda>(arr, addr, bp). length arr - bp)") auto

text \<open>The scan for the final entry, used when the map overflows and in \<open>rmget\<close>.\<close>

function map_end :: "map_seg list \<Rightarrow> nat \<Rightarrow> nat kres" where
  "map_end arr bp =
     (if length arr \<le> bp then KFault
      else if m_size (arr ! bp) \<noteq> 0 then map_end arr (Suc bp)
      else KRet bp)"
  by pat_completeness auto
termination
  by (relation "measure (\<lambda>(arr, bp). length arr - bp)") auto

text \<open>
  Map overflow: the smaller of the last two segments is discarded.  With fewer than two
  segments \<^verbatim>\<open>bp-1\<close> lies in front of the array.
\<close>

definition rmfree_overflow :: "map_head \<Rightarrow> nat \<Rightarrow> map_head kres" where
  "rmfree_overflow mp bp =
     kbind (map_end (m_map mp) bp) (\<lambda>fin.
       let arr = m_map mp in
       if fin < 2 then KFault
       else
         let bp = (if m_size (arr ! (fin - 2)) < m_size (arr ! (fin - 1))
                   then fin - 2 else fin - 1)
         in if length arr \<le> Suc bp then KFault
            else
              let arr1 = arr[bp := arr ! Suc bp];
                  arr2 = arr1[Suc bp := (arr1 ! Suc bp)\<lparr>m_size := 0\<rparr>]
              in KRet (mp\<lparr>m_map := arr2, m_free := m_free mp + 1\<rparr>))"

text \<open>Make a new entry and push the remaining ones up.\<close>

function push_up :: "map_seg list \<Rightarrow> nat \<Rightarrow> size_t \<Rightarrow> ulong_t \<Rightarrow> map_seg list kres" where
  "push_up arr bp sz addr =
     (if length arr \<le> bp then KFault
      else
        let e = arr ! bp;
            arr' = arr[bp := \<lparr>m_size = sz, m_addr = addr\<rparr>]
        in if m_size e \<noteq> 0 then push_up arr' (Suc bp) (m_size e) (m_addr e)
           else KRet arr')"
  by pat_completeness auto
termination
  by (relation "measure (\<lambda>(arr, bp, sz, addr). length arr - bp)") auto

declare rmalloc_scan.simps [simp del] shift_do.simps [simp del] shift_while.simps [simp del]
  rmfree_locate.simps [simp del] map_end.simps [simp del] push_up.simps [simp del]
  rmalloc_wait.simps [simp del]

text \<open>One pass of \<open>rmfree\<close> from the label \<^verbatim>\<open>retry\<close>.\<close>

datatype rmfree_pass_result = Done map_head | Retry map_head

definition rmfree_pass :: "map_head \<Rightarrow> size_t \<Rightarrow> ulong_t \<Rightarrow> rmfree_pass_result kres" where
  "rmfree_pass mp sz addr =
     kbind (rmfree_locate (m_map mp) addr 0) (\<lambda>bp.
       let arr = m_map mp; e = arr ! bp; l = arr ! (bp - 1) in
       if 0 < bp \<and> addr \<le> m_addr l + m_size l then
         if addr < m_addr l + m_size l then KPanic ''bad rmfree''
         else
           let arr1 = arr[bp - 1 := l\<lparr>m_size := m_size l + sz\<rparr>] in
           if m_size e \<noteq> 0 \<and> m_addr e \<le> addr + sz then
             if m_addr e < addr + sz then KPanic ''bad rmfree''
             else
               let arr2 = arr1[bp - 1 := l\<lparr>m_size := m_size l + sz + m_size e\<rparr>] in
               kbind (shift_while arr2 bp) (\<lambda>arr3.
                 KRet (Done (mp\<lparr>m_map := arr3, m_free := m_free mp + 1\<rparr>)))
           else KRet (Done (mp\<lparr>m_map := arr1\<rparr>))
       else if m_addr e \<le> addr + sz \<and> m_size e \<noteq> 0 then
         if m_addr e < addr + sz then KPanic ''bad rmfree''
         else KRet (Done (mp\<lparr>m_map :=
                arr[bp := e\<lparr>m_addr := m_addr e - sz, m_size := m_size e + sz\<rparr>]\<rparr>))
       else if m_free mp = 0 then
         kbind (rmfree_overflow mp bp) (\<lambda>mp'. KRet (Retry mp'))
       else
         kbind (push_up arr bp sz addr) (\<lambda>arr'.
           KRet (Done (mp\<lparr>m_map := arr', m_free := m_free mp - 1\<rparr>))))"

lemma rmfree_overflow_m_free:
  "rmfree_overflow mp bp = KRet mp' \<Longrightarrow> m_free mp' = m_free mp + 1"
  by (auto simp: rmfree_overflow_def kbind_KRet_iff Let_def split: if_splits)

lemma rmfree_pass_cases:
  assumes "(if a then if b then KPanic s
              else if c then if d then KPanic s else kbind m (\<lambda>x. KRet (Done (f x))) else KRet (Done r1)
            else if a' then if b' then KPanic s else KRet (Done r2)
            else if m_free mp = 0 then kbind (rmfree_overflow mp bp) (\<lambda>mp'. KRet (Retry mp'))
            else kbind m' (\<lambda>x. KRet (Done (g x)))) = KRet (Retry mp')"
  shows "m_free mp = 0 \<and> m_free mp' = 1"
  using assms
  by (simp add: kbind_KRet_iff split: if_split_asm) (metis add_0 rmfree_overflow_m_free)

lemma rmfree_pass_Retry:
  "rmfree_pass mp sz addr = KRet (Retry mp') \<Longrightarrow> m_free mp = 0 \<and> m_free mp' = 1"
  unfolding rmfree_pass_def kbind_KRet_iff Let_def
  by (elim exE conjE, drule rmfree_pass_cases)

text \<open>
  The loop over \<^verbatim>\<open>retry\<close> ends because an overflow frees a slot, so that the next pass does
  not overflow.
\<close>

function rmfree_loop :: "map_head \<Rightarrow> size_t \<Rightarrow> ulong_t \<Rightarrow> map_head kres" where
  "rmfree_loop mp sz addr =
     (case rmfree_pass mp sz addr of
        KRet (Done mp') \<Rightarrow> KRet mp'
      | KRet (Retry mp') \<Rightarrow> rmfree_loop mp' sz addr
      | KPanic s \<Rightarrow> KPanic s
      | KFault \<Rightarrow> KFault)"
  by pat_completeness auto
termination
  by (relation "measure (\<lambda>(mp, sz, addr). if m_free mp = 0 then 1 else 0)")
    (auto dest: rmfree_pass_Retry)

declare rmfree_loop.simps [simp del]

definition rmfree :: "map_head \<Rightarrow> size_t \<Rightarrow> ulong_t \<Rightarrow> map_head kres" where
  "rmfree mp sz addr =
     (if addr = 0 \<or> sint sz \<le> 0 then KPanic ''bad rmfree''
      else kbind (rmfree_loop mp sz addr) (\<lambda>mp'.
             if m_want mp' \<noteq> 0 then KRet (mp'\<lparr>m_want := 0, m_cv := Suc (m_cv mp')\<rparr>)
             else KRet mp'))"

text \<open>
  \<open>rmget\<close>: the segment holding the requested address; the descriptors after it moved up by
  one slot when the request splits it.
\<close>

function rmget_scan :: "map_seg list \<Rightarrow> ulong_t \<Rightarrow> nat \<Rightarrow> nat kres" where
  "rmget_scan arr addr bp =
     (if length arr \<le> bp then KFault
      else if m_size (arr ! bp) = 0 then KRet bp
      else if m_addr (arr ! bp) \<le> addr \<and> addr < m_addr (arr ! bp) + m_size (arr ! bp) then KRet bp
      else rmget_scan arr addr (Suc bp))"
  by pat_completeness auto
termination
  by (relation "measure (\<lambda>(arr, addr, bp). length arr - bp)") auto

fun rmget_open :: "map_seg list \<Rightarrow> nat \<Rightarrow> nat \<Rightarrow> map_seg list" where
  "rmget_open arr bp 0 = arr"
| "rmget_open arr bp (Suc bp2) =
     (if bp < Suc bp2 then rmget_open (arr[Suc (Suc bp2) := arr ! Suc bp2]) bp bp2 else arr)"

declare rmget_scan.simps [simp del] rmget_open.simps [simp del]

definition rmget :: "map_head \<Rightarrow> size_t \<Rightarrow> ulong_t \<Rightarrow> (ulong_t \<times> map_head) kres" where
  "rmget mp sz addr =
     (if sint sz \<le> 0 then KPanic ''rmget''
      else kbind (rmget_scan (m_map mp) addr 0) (\<lambda>bp.
        let arr = m_map mp; e = arr ! bp in
        if m_size e = 0 then KRet (0, mp)
        else if m_addr e + m_size e < addr + sz then KRet (0, mp)
        else if m_addr e = addr then
          if m_size e = sz then
            kbind (shift_while arr bp) (\<lambda>arr'.
              KRet (addr, mp\<lparr>m_map := arr', m_free := m_free mp + 1\<rparr>))
          else KRet (addr, mp\<lparr>m_map :=
                 arr[bp := e\<lparr>m_addr := m_addr e + sz, m_size := m_size e - sz\<rparr>]\<rparr>)
        else if m_addr e + m_size e = addr + sz then
          KRet (addr, mp\<lparr>m_map := arr[bp := e\<lparr>m_size := m_size e - sz\<rparr>]\<rparr>)
        else if m_free mp = 0 then KRet (0, mp)
        else
          kbind (map_end arr bp) (\<lambda>bp2.
            if length arr \<le> Suc bp2 then KFault
            else
              let arr1 = arr[Suc bp2 := (arr ! Suc bp2)\<lparr>m_size := 0\<rparr>];
                  arr2 = rmget_open arr1 bp (bp2 - 1);
                  arr3 = arr2[Suc bp := \<lparr>m_size = m_addr e + m_size e - (addr + sz),
                                         m_addr = addr + sz\<rparr>];
                  arr4 = arr3[bp := e\<lparr>m_size := addr - m_addr e\<rparr>]
              in KRet (addr, mp\<lparr>m_map := arr4, m_free := m_free mp - 1\<rparr>))))"

section \<open>The abstract map\<close>

definition map_segs :: "map_head \<Rightarrow> map_seg list" where
  "map_segs mp = takeWhile (\<lambda>e. m_size e \<noteq> 0) (m_map mp)"

definition seg_end :: "map_seg \<Rightarrow> nat" where
  "seg_end e = unat (m_addr e) + unat (m_size e)"

definition seg_ok :: "map_seg \<Rightarrow> bool" where
  "seg_ok e \<longleftrightarrow> m_size e \<noteq> 0 \<and> m_addr e \<noteq> 0 \<and> seg_end e < 2 ^ 64"

definition segs_wf :: "map_seg list \<Rightarrow> bool" where
  "segs_wf xs \<longleftrightarrow> list_all seg_ok xs \<and> sorted_wrt (\<lambda>a b. seg_end a < unat (m_addr b)) xs"

definition seg_units :: "map_seg list \<Rightarrow> nat set" where
  "seg_units xs = (\<Union>e \<in> set xs. {unat (m_addr e) ..< seg_end e})"

definition map_wf :: "map_head \<Rightarrow> bool" where
  "map_wf mp \<longleftrightarrow>
     list_all (\<lambda>e. m_size e = 0) (dropWhile (\<lambda>e. m_size e \<noteq> 0) (m_map mp)) \<and>
     segs_wf (map_segs mp) \<and>
     unat (m_free mp) + length (map_segs mp) = unat (m_nslots mp) \<and>
     unat (m_nslots mp) < length (m_map mp)"

definition map_units :: "map_head \<Rightarrow> nat set" where
  "map_units mp = seg_units (map_segs mp)"

section \<open>The array represents a list of segments\<close>

definition arr_segs :: "map_seg list \<Rightarrow> map_seg list \<Rightarrow> map_seg list \<Rightarrow> bool" where
  "arr_segs arr xs zs \<longleftrightarrow> arr = xs @ zs \<and> zs \<noteq> [] \<and>
     (\<forall>e \<in> set xs. m_size e \<noteq> 0) \<and> (\<forall>e \<in> set zs. m_size e = 0)"

lemma arr_segs_takeWhile:
  assumes "arr_segs arr xs zs"
  shows "takeWhile (\<lambda>e. m_size e \<noteq> 0) arr = xs" "dropWhile (\<lambda>e. m_size e \<noteq> 0) arr = zs"
proof -
  from assms obtain z zs' where zs: "zs = z # zs'" "arr = xs @ z # zs'" "m_size z = 0"
      "\<forall>e \<in> set xs. m_size e \<noteq> 0"
    unfolding arr_segs_def by (cases zs) auto
  then show "takeWhile (\<lambda>e. m_size e \<noteq> 0) arr = xs" "dropWhile (\<lambda>e. m_size e \<noteq> 0) arr = zs"
    by (simp_all add: takeWhile_append_stop dropWhile_append_stop)
qed

lemma map_wf_arr:
  assumes "map_wf mp"
  obtains zs where "arr_segs (m_map mp) (map_segs mp) zs"
    and "length (map_segs mp) + length zs = length (m_map mp)"
proof
  let ?zs = "dropWhile (\<lambda>e. m_size e \<noteq> 0) (m_map mp)"
  have app: "m_map mp = map_segs mp @ ?zs"
    unfolding map_segs_def by simp
  have len: "length (map_segs mp) < length (m_map mp)"
    using assms unfolding map_wf_def by linarith
  then have "?zs \<noteq> []" using app by (metis append_Nil2 less_irrefl)
  moreover have "\<forall>e \<in> set (map_segs mp). m_size e \<noteq> 0"
    unfolding map_segs_def by (auto dest: set_takeWhileD)
  moreover have "\<forall>e \<in> set ?zs. m_size e = 0"
    using assms unfolding map_wf_def list_all_iff by blast
  ultimately show "arr_segs (m_map mp) (map_segs mp) ?zs"
    unfolding arr_segs_def using app by blast
  show "length (map_segs mp) + length ?zs = length (m_map mp)"
    using app by (metis length_append)
qed

lemma map_wfI:
  assumes "arr_segs (m_map mp) xs zs" "segs_wf xs"
    and "unat (m_free mp) + length xs = unat (m_nslots mp)"
    and "unat (m_nslots mp) < length (m_map mp)"
  shows "map_wf mp" "map_segs mp = xs"
proof -
  show xs: "map_segs mp = xs"
    using arr_segs_takeWhile(1)[OF assms(1)] by (simp add: map_segs_def)
  have "\<forall>e \<in> set zs. m_size e = 0" using assms(1) by (simp add: arr_segs_def)
  then show "map_wf mp"
    using arr_segs_takeWhile(2)[OF assms(1)] assms(2-4) xs
    by (simp add: map_wf_def list_all_iff)
qed

section \<open>What the loops compute\<close>

lemma rmalloc_scan_skip:
  "\<forall>e \<in> set ys. m_size e \<noteq> 0 \<and> \<not> sz \<le> m_size e \<Longrightarrow>
   rmalloc_scan (xs @ ys @ rest) sz (length xs) = rmalloc_scan (xs @ ys @ rest) sz (length xs + length ys)"
proof (induction ys arbitrary: xs)
  case (Cons y ys)
  have "rmalloc_scan (xs @ (y # ys) @ rest) sz (length xs)
      = rmalloc_scan ((xs @ [y]) @ ys @ rest) sz (length (xs @ [y]))"
    using Cons.prems by (simp add: rmalloc_scan.simps [of _ _ "length xs"])
  then show ?case using Cons.IH [of "xs @ [y]"] Cons.prems by simp
qed simp

lemma rmalloc_scan_hit:
  assumes "\<forall>e \<in> set xs. m_size e \<noteq> 0 \<and> \<not> sz \<le> m_size e" and "m_size e \<noteq> 0" and "sz \<le> m_size e"
  shows "rmalloc_scan (xs @ e # rest) sz 0 = KRet (Some (length xs))"
  using rmalloc_scan_skip [of xs sz "[]" "e # rest"] assms
  by (simp add: rmalloc_scan.simps [of _ _ "length xs"])

lemma rmalloc_scan_miss:
  assumes "\<forall>e \<in> set xs. m_size e \<noteq> 0 \<and> \<not> sz \<le> m_size e" and "m_size z = 0"
  shows "rmalloc_scan (xs @ z # rest) sz 0 = KRet None"
  using rmalloc_scan_skip [of xs sz "[]" "z # rest"] assms
  by (simp add: rmalloc_scan.simps [of _ _ "length xs"])

lemma shift_do_eq:
  "\<forall>y \<in> set ys. m_size y \<noteq> 0 \<Longrightarrow> m_size z = 0 \<Longrightarrow>
   shift_do (xs @ e # ys @ z # zs) (length xs) = KRet (xs @ ys @ z # z # zs)"
proof (induction ys arbitrary: xs e)
  case Nil
  then show ?case by (simp add: shift_do.simps Let_def)
next
  case (Cons y ys)
  have "shift_do (xs @ e # (y # ys) @ z # zs) (length xs)
      = shift_do ((xs @ [y]) @ y # ys @ z # zs) (length (xs @ [y]))"
    using Cons.prems by (simp add: shift_do.simps [of _ "length xs"] Let_def)
  also have "\<dots> = KRet ((xs @ [y]) @ ys @ z # z # zs)"
    using Cons.prems by (intro Cons.IH) auto
  finally show ?case by simp
qed

lemma shift_while_eq:
  "m_size e \<noteq> 0 \<Longrightarrow> \<forall>y \<in> set ys. m_size y \<noteq> 0 \<Longrightarrow> m_size z = 0 \<Longrightarrow>
   shift_while (xs @ e # ys @ z # zs) (length xs) = KRet (xs @ ys @ z # z # zs)"
proof (induction ys arbitrary: xs e)
  case Nil
  then show ?case
    by (simp add: shift_while.simps [of _ "length xs"] shift_while.simps [of _ "Suc (length xs)"])
next
  case (Cons y ys)
  have "shift_while (xs @ e # (y # ys) @ z # zs) (length xs)
      = shift_while ((xs @ [y]) @ y # ys @ z # zs) (length (xs @ [y]))"
    using Cons.prems by (simp add: shift_while.simps [of _ "length xs"])
  also have "\<dots> = KRet ((xs @ [y]) @ ys @ z # z # zs)"
    using Cons.prems by (intro Cons.IH) auto
  finally show ?case by simp
qed

lemma rmfree_locate_skip:
  "\<forall>e \<in> set ys. m_addr e \<le> addr \<and> m_size e \<noteq> 0 \<Longrightarrow>
   rmfree_locate (xs @ ys @ rest) addr (length xs)
     = rmfree_locate (xs @ ys @ rest) addr (length xs + length ys)"
proof (induction ys arbitrary: xs)
  case (Cons y ys)
  have "rmfree_locate (xs @ (y # ys) @ rest) addr (length xs)
      = rmfree_locate ((xs @ [y]) @ ys @ rest) addr (length (xs @ [y]))"
    using Cons.prems by (simp add: rmfree_locate.simps [of _ _ "length xs"])
  then show ?case using Cons.IH [of "xs @ [y]"] Cons.prems by simp
qed simp

lemma rmfree_locate_eq:
  assumes "\<forall>e \<in> set xs. m_addr e \<le> addr \<and> m_size e \<noteq> 0" and "\<not> (m_addr y \<le> addr \<and> m_size y \<noteq> 0)"
  shows "rmfree_locate (xs @ y # rest) addr 0 = KRet (length xs)"
  using rmfree_locate_skip [of xs addr "[]" "y # rest"] assms
  by (simp add: rmfree_locate.simps [of _ _ "length xs"])

lemma map_end_eq:
  "\<forall>y \<in> set ys. m_size y \<noteq> 0 \<Longrightarrow> m_size z = 0 \<Longrightarrow>
   map_end (xs @ ys @ z # zs) (length xs) = KRet (length xs + length ys)"
proof (induction ys arbitrary: xs)
  case Nil
  then show ?case by (simp add: map_end.simps)
next
  case (Cons y ys)
  have "map_end (xs @ (y # ys) @ z # zs) (length xs)
      = map_end ((xs @ [y]) @ ys @ z # zs) (length (xs @ [y]))"
    using Cons.prems by (simp add: map_end.simps [of _ "length xs"])
  also have "\<dots> = KRet (length (xs @ [y]) + length ys)"
    using Cons.prems by (intro Cons.IH) auto
  finally show ?case by simp
qed

lemma push_up_eq:
  "\<forall>y \<in> set ys. m_size y \<noteq> 0 \<Longrightarrow> m_size z = 0 \<Longrightarrow>
   push_up (xs @ ys @ z # zs) (length xs) sz addr
     = KRet (xs @ \<lparr>m_size = sz, m_addr = addr\<rparr> # ys @ zs)"
proof (induction ys arbitrary: xs sz addr)
  case Nil
  then show ?case by (simp add: push_up.simps Let_def)
next
  case (Cons y ys)
  have "push_up (xs @ (y # ys) @ z # zs) (length xs) sz addr
      = push_up ((xs @ [\<lparr>m_size = sz, m_addr = addr\<rparr>]) @ ys @ z # zs)
          (length (xs @ [\<lparr>m_size = sz, m_addr = addr\<rparr>])) (m_size y) (m_addr y)"
    using Cons.prems by (simp add: push_up.simps [of _ "length xs"] Let_def)
  also have "\<dots> = KRet ((xs @ [\<lparr>m_size = sz, m_addr = addr\<rparr>])
                        @ \<lparr>m_size = m_size y, m_addr = m_addr y\<rparr> # ys @ zs)"
    using Cons.prems by (intro Cons.IH) auto
  finally show ?case by simp
qed

fun first_fit :: "size_t \<Rightarrow> map_seg list \<Rightarrow> (ulong_t \<times> map_seg list) option" where
  "first_fit sz [] = None"
| "first_fit sz (e # es) =
     (if sz \<le> m_size e
      then Some (m_addr e,
             if m_size e = sz then es
             else e\<lparr>m_addr := m_addr e + sz, m_size := m_size e - sz\<rparr> # es)
      else map_option (\<lambda>(a, es'). (a, e # es')) (first_fit sz es))"

definition seg_range :: "ulong_t \<Rightarrow> size_t \<Rightarrow> nat set" where
  "seg_range a sz = {unat a ..< unat a + unat sz}"

section \<open>Segments and the units they cover\<close>

lemma seg_units_simps [simp]:
  "seg_units [] = {}"
  "seg_units (e # xs) = {unat (m_addr e) ..< seg_end e} \<union> seg_units xs"
  "seg_units (xs @ ys) = seg_units xs \<union> seg_units ys"
  by (auto simp: seg_units_def)

lemma segs_wf_simps [simp]:
  "segs_wf []"
  "segs_wf (e # xs) \<longleftrightarrow> seg_ok e \<and> (\<forall>b \<in> set xs. seg_end e < unat (m_addr b)) \<and> segs_wf xs"
  "segs_wf (xs @ ys) \<longleftrightarrow> segs_wf xs \<and> segs_wf ys \<and>
     (\<forall>a \<in> set xs. \<forall>b \<in> set ys. seg_end a < unat (m_addr b))"
  by (auto simp: segs_wf_def sorted_wrt_append)

lemma segs_wf_ok: "segs_wf xs \<Longrightarrow> e \<in> set xs \<Longrightarrow> seg_ok e"
  by (simp add: segs_wf_def list_all_iff)

lemma seg_ok_bounds:
  assumes "seg_ok e"
  shows "0 < unat (m_addr e)" "unat (m_addr e) < seg_end e" "seg_end e < 2 ^ 64"
  using assms by (auto simp: seg_ok_def seg_end_def unat_pos_iff)

lemma segs_wf_separated:
  assumes "segs_wf xs" "a \<in> set xs" "b \<in> set xs"
  shows "a = b \<or> seg_end a < unat (m_addr b) \<or> seg_end b < unat (m_addr a)"
proof -
  obtain i j where "i < length xs" "j < length xs" "a = xs ! i" "b = xs ! j"
    using assms by (auto simp: in_set_conv_nth)
  then show ?thesis
    using assms(1) by (cases i j rule: linorder_cases) (auto simp: segs_wf_def sorted_wrt_iff_nth_less)
qed

lemma seg_units_iff: "u \<in> seg_units xs \<longleftrightarrow> (\<exists>e \<in> set xs. unat (m_addr e) \<le> u \<and> u < seg_end e)"
  by (auto simp: seg_units_def)

text \<open>A run of free units lies inside one segment, since segments never touch.\<close>

lemma seg_units_run:
  assumes "segs_wf xs" and "0 < n" and "{b ..< b + n} \<subseteq> seg_units xs"
  shows "\<exists>e \<in> set xs. unat (m_addr e) \<le> b \<and> b + n \<le> seg_end e"
  using assms(2,3)
proof (induction n)
  case (Suc n)
  show ?case
  proof (cases "n = 0")
    case True
    then show ?thesis using Suc.prems by (fastforce simp: seg_units_iff)
  next
    case False
    moreover have "{b ..< b + n} \<subseteq> seg_units xs" using Suc.prems by auto
    ultimately obtain e where e: "e \<in> set xs" "unat (m_addr e) \<le> b" "b + n \<le> seg_end e"
      using Suc.IH by auto
    obtain f where f: "f \<in> set xs" "unat (m_addr f) \<le> b + n" "b + n < seg_end f"
      using Suc.prems seg_units_iff [of "b + n" xs] by (auto simp: subset_eq)
    from segs_wf_separated [OF assms(1) e(1) f(1)] e f
    have "e = f" by auto
    with e f show ?thesis by (intro bexI [of _ f]) auto
  qed
qed simp

text \<open>The segment list is the only one that covers its units.\<close>

lemma segs_wf_set_unique:
  "segs_wf xs \<Longrightarrow> segs_wf ys \<Longrightarrow> set xs = set ys \<Longrightarrow> xs = ys"
proof (induction xs arbitrary: ys)
  case (Cons x xs)
  then obtain y ys' where ys: "ys = y # ys'" by (cases ys) auto
  have "x = y"
  proof (rule ccontr)
    assume "x \<noteq> y"
    with Cons.prems(3) ys have "y \<in> set xs" "x \<in> set ys'" by auto
    with Cons.prems(1,2) ys have "seg_end x < unat (m_addr y)" "seg_end y < unat (m_addr x)"
      and "seg_ok x" "seg_ok y" by auto
    then show False using seg_ok_bounds(2) [of x] seg_ok_bounds(2) [of y] by linarith
  qed
  moreover have "x \<notin> set xs" "y \<notin> set ys'"
    using Cons.prems(1,2) ys seg_ok_bounds(2) [of x] seg_ok_bounds(2) [of y] by fastforce+
  ultimately have "set xs = set ys'" using Cons.prems(3) ys by auto
  with Cons.IH Cons.prems(1,2) ys \<open>x = y\<close> show ?case by auto
qed simp

lemma seg_eqI:
  assumes "m_addr a = m_addr b" "seg_end a = seg_end b"
  shows "a = (b :: map_seg)"
  using assms by (cases a; cases b) (auto simp: seg_end_def word_unat_eq_iff)

lemma segs_units_subset:
  assumes "segs_wf xs" "segs_wf ys" "seg_units xs = seg_units ys" "e \<in> set xs"
  shows "e \<in> set ys"
proof -
  have run: "\<exists>g \<in> set us. unat (m_addr g) \<le> unat (m_addr f) \<and> seg_end f \<le> seg_end g"
    if "segs_wf us" "segs_wf vs" "seg_units us = seg_units vs" "f \<in> set vs" for us vs f
  proof -
    have f: "unat (m_addr f) < seg_end f"
      using segs_wf_ok [OF that(2,4)] seg_ok_bounds by blast
    then have "{unat (m_addr f) ..< unat (m_addr f) + (seg_end f - unat (m_addr f))} \<subseteq> seg_units us"
      using that by (auto simp: seg_units_def)
    from seg_units_run [OF that(1) _ this] f show ?thesis by auto
  qed
  obtain f where f: "f \<in> set ys" "unat (m_addr f) \<le> unat (m_addr e)" "seg_end e \<le> seg_end f"
    using run [OF assms(2,1) assms(3)[symmetric] assms(4)] by blast
  obtain g where g: "g \<in> set xs" "unat (m_addr g) \<le> unat (m_addr f)" "seg_end f \<le> seg_end g"
    using run [OF assms(1,2,3) f(1)] by blast
  have "unat (m_addr e) < seg_end e" using segs_wf_ok [OF assms(1,4)] seg_ok_bounds by blast
  with segs_wf_separated [OF assms(1,4) g(1)] f g have "e = g" by auto
  with f g have "unat (m_addr e) = unat (m_addr f)" "seg_end e = seg_end f" by auto
  then have "e = f" by (intro seg_eqI) (simp_all add: word_unat_eq_iff)
  with f show ?thesis by simp
qed

lemma seg_units_inj:
  assumes "segs_wf xs" "segs_wf ys" "seg_units xs = seg_units ys"
  shows "xs = ys"
  using assms segs_units_subset [OF assms] segs_units_subset [OF assms(2,1) assms(3)[symmetric]]
  by (intro segs_wf_set_unique) auto

section \<open>Allocation\<close>

lemma seg_trim:
  assumes "seg_ok e" "sz < m_size e" "sz \<noteq> 0"
  defines "e' \<equiv> e\<lparr>m_addr := m_addr e + sz, m_size := m_size e - sz\<rparr>"
  shows "seg_ok e'" "unat (m_addr e') = unat (m_addr e) + unat sz" "seg_end e' = seg_end e"
    "m_size e' \<noteq> 0"
proof -
  have lt: "unat sz < unat (m_size e)" using assms(2) by (simp add: word_less_nat_alt)
  have bnd: "unat (m_addr e) + unat (m_size e) < 2 ^ 64"
    using assms(1) by (simp add: seg_ok_def seg_end_def)
  have a: "unat (m_addr e + sz) = unat (m_addr e) + unat sz"
    using lt bnd by (intro unat_add_no_wrap) simp
  have s: "unat (m_size e - sz) = unat (m_size e) - unat sz"
    using assms(2) by (intro unat_sub_le) simp
  show "unat (m_addr e') = unat (m_addr e) + unat sz" using a by (simp add: e'_def)
  show "m_size e' \<noteq> 0" using lt s by (simp add: e'_def) (metis diff_is_0_eq' less_le_not_le unat_0)
  show "seg_end e' = seg_end e" using a s lt by (simp add: e'_def seg_end_def)
  show "seg_ok e'"
    using a s lt bnd by (simp add: e'_def seg_ok_def seg_end_def) (metis add_is_0 assms(3) diff_is_0_eq' less_le_not_le unat_0 unat_eq_zero)
qed

lemma first_fit_None: "first_fit sz xs = None \<longleftrightarrow> (\<forall>e \<in> set xs. \<not> sz \<le> m_size e)"
  by (induction xs) auto

lemma first_fit_Some:
  "first_fit sz xs = Some (a, ys) \<Longrightarrow>
   \<exists>us e vs. xs = us @ e # vs \<and> (\<forall>x \<in> set us. \<not> sz \<le> m_size x) \<and> sz \<le> m_size e \<and> a = m_addr e \<and>
     ys = us @ (if m_size e = sz then vs
                else e\<lparr>m_addr := m_addr e + sz, m_size := m_size e - sz\<rparr> # vs)"
proof (induction xs arbitrary: ys)
  case (Cons x xs)
  show ?case
  proof (cases "sz \<le> m_size x")
    case True
    with Cons.prems show ?thesis by (intro exI [of _ "[]"] exI [of _ x] exI [of _ xs]) auto
  next
    case False
    with Cons.prems obtain ys' where ys': "first_fit sz xs = Some (a, ys')" "ys = x # ys'"
      by auto
    from Cons.IH [OF ys'(1)] obtain us e vs where
      "xs = us @ e # vs \<and> (\<forall>x \<in> set us. \<not> sz \<le> m_size x) \<and> sz \<le> m_size e \<and> a = m_addr e \<and>
       ys' = us @ (if m_size e = sz then vs
                else e\<lparr>m_addr := m_addr e + sz, m_size := m_size e - sz\<rparr> # vs)" by blast
    with False ys'(2) show ?thesis
      by (intro exI [of _ "x # us"] exI [of _ e] exI [of _ vs]) auto
  qed
qed simp

definition same_head :: "map_head \<Rightarrow> map_head \<Rightarrow> bool" where
  "same_head mp mp' \<longleftrightarrow> m_want mp' = m_want mp \<and> m_nam mp' = m_nam mp \<and>
     m_nslots mp' = m_nslots mp \<and> m_cv mp' = m_cv mp"

lemma first_fit_units:
  assumes wf: "segs_wf xs" and ff: "first_fit sz xs = Some (a, ys)" and sz: "sz \<noteq> 0"
  shows "segs_wf ys" "a \<noteq> 0" "unat a + unat sz < 2 ^ 64" "seg_range a sz \<subseteq> seg_units xs"
    "seg_units ys = seg_units xs - seg_range a sz"
    "\<forall>b. {b ..< b + unat sz} \<subseteq> seg_units xs \<longrightarrow> unat a \<le> b"
proof -
  obtain us e vs where xs: "xs = us @ e # vs" and us: "\<forall>x \<in> set us. \<not> sz \<le> m_size x"
    and e: "sz \<le> m_size e" and a: "a = m_addr e"
    and ys: "ys = us @ (if m_size e = sz then vs
                else e\<lparr>m_addr := m_addr e + sz, m_size := m_size e - sz\<rparr> # vs)"
    using first_fit_Some [OF ff] by blast
  have ok: "seg_ok e" using wf xs by simp
  note b = seg_ok_bounds [OF ok]
  have le: "unat a + unat sz \<le> seg_end e" using e a by (simp add: seg_end_def word_le_nat_alt)
  show "a \<noteq> 0" using ok a by (simp add: seg_ok_def)
  show "unat a + unat sz < 2 ^ 64" using le b by linarith
  show "seg_range a sz \<subseteq> seg_units xs" using le a xs by (auto simp: seg_range_def)
  have sep: "\<forall>x \<in> set us. seg_end x < unat a" "\<forall>x \<in> set vs. seg_end e < unat (m_addr x)"
    using wf xs a by auto
  have disj: "seg_units us \<inter> seg_range a sz = {}" "seg_units vs \<inter> seg_range a sz = {}"
    using sep le by (fastforce simp: seg_units_iff seg_range_def)+
  have new: "segs_wf (if m_size e = sz then vs
                else e\<lparr>m_addr := m_addr e + sz, m_size := m_size e - sz\<rparr> # vs) \<and>
     seg_units (if m_size e = sz then vs
                else e\<lparr>m_addr := m_addr e + sz, m_size := m_size e - sz\<rparr> # vs)
       = {unat a + unat sz ..< seg_end e} \<union> seg_units vs \<and>
     (\<forall>x \<in> set us. \<forall>y \<in> set (if m_size e = sz then vs
                else e\<lparr>m_addr := m_addr e + sz, m_size := m_size e - sz\<rparr> # vs).
         seg_end x < unat (m_addr y))"
  proof (cases "m_size e = sz")
    case True
    then show ?thesis using wf xs a by (auto simp: seg_end_def)
  next
    case False
    then have "sz < m_size e" using e by simp
    note t = seg_trim [OF ok this sz]
    show ?thesis using False t wf xs a sep b by (auto simp: trans_less_add1)
  qed
  show "segs_wf ys" using new wf xs ys by auto
  show "seg_units ys = seg_units xs - seg_range a sz"
    using new disj le a unfolding xs ys seg_units_simps by (auto simp: seg_range_def)
  show "\<forall>b. {b ..< b + unat sz} \<subseteq> seg_units xs \<longrightarrow> unat a \<le> b"
  proof (intro allI impI)
    fix b assume "{b ..< b + unat sz} \<subseteq> seg_units xs"
    moreover have "0 < unat sz" using sz by (simp add: unat_pos_iff)
    ultimately obtain f where f: "f \<in> set xs" "unat (m_addr f) \<le> b" "b + unat sz \<le> seg_end f"
      using seg_units_run [OF wf] by blast
    then have "sz \<le> m_size f" by (simp add: seg_end_def word_le_nat_alt)
    then have "f = e \<or> f \<in> set vs" using f us xs by auto
    then show "unat a \<le> b" using f sep b a by fastforce
  qed
qed

lemma first_fit_None_units:
  assumes wf: "segs_wf xs" and sz: "sz \<noteq> 0"
  shows "first_fit sz xs = None \<longleftrightarrow> (\<forall>b. \<not> {b ..< b + unat sz} \<subseteq> seg_units xs)"
proof (cases "first_fit sz xs")
  case (Some p)
  then obtain a ys where "first_fit sz xs = Some (a, ys)" by (cases p) auto
  with first_fit_units(4) [OF wf this sz] show ?thesis by (auto simp: seg_range_def)
next
  case None
  have "\<not> {b ..< b + unat sz} \<subseteq> seg_units xs" for b
  proof
    assume "{b ..< b + unat sz} \<subseteq> seg_units xs"
    moreover have "0 < unat sz" using sz by (simp add: unat_pos_iff)
    ultimately obtain f where "f \<in> set xs" "unat (m_addr f) \<le> b" "b + unat sz \<le> seg_end f"
      using seg_units_run [OF wf] by blast
    then show False using None by (auto simp: first_fit_None seg_end_def word_le_nat_alt)
  qed
  with None show ?thesis by simp
qed

lemma rmalloc_locked_refines:
  assumes wf: "map_wf mp" and sz: "sz \<noteq> 0"
  shows "case first_fit sz (map_segs mp) of
           None \<Rightarrow> rmalloc_locked mp sz = KRet (0, mp)
         | Some (a, xs') \<Rightarrow> \<exists>mp'. rmalloc_locked mp sz = KRet (a, mp') \<and>
             map_wf mp' \<and> map_segs mp' = xs' \<and> same_head mp mp'"
proof (cases "first_fit sz (map_segs mp)")
  case None
  obtain zs where arr: "arr_segs (m_map mp) (map_segs mp) zs" using map_wf_arr [OF wf] by blast
  then obtain z zs' where m: "m_map mp = map_segs mp @ z # zs'" "m_size z = 0"
    and nz: "\<forall>e \<in> set (map_segs mp). m_size e \<noteq> 0"
    by (cases zs) (auto simp: arr_segs_def)
  have "rmalloc_scan (m_map mp) sz 0 = KRet None"
    unfolding m(1) using None m(2) nz by (intro rmalloc_scan_miss) (auto simp: first_fit_None)
  with None show ?thesis by (simp add: rmalloc_locked_def)
next
  case (Some p)
  then obtain a ys where ff: "first_fit sz (map_segs mp) = Some (a, ys)" by (cases p) auto
  obtain us e vs where xs: "map_segs mp = us @ e # vs" and us: "\<forall>x \<in> set us. \<not> sz \<le> m_size x"
    and e: "sz \<le> m_size e" and a: "a = m_addr e"
    and ys: "ys = us @ (if m_size e = sz then vs
                else e\<lparr>m_addr := m_addr e + sz, m_size := m_size e - sz\<rparr> # vs)"
    using first_fit_Some [OF ff] by blast
  obtain zs where arr: "arr_segs (m_map mp) (map_segs mp) zs"
    and len: "length (map_segs mp) + length zs = length (m_map mp)"
    using map_wf_arr [OF wf] by blast
  then obtain z zs' where zs: "zs = z # zs'" and m: "m_map mp = us @ e # vs @ z # zs'" "m_size z = 0"
      "\<forall>e \<in> set zs'. m_size e = 0" and nz: "\<forall>e \<in> set (us @ e # vs). m_size e \<noteq> 0"
    using xs by (cases zs) (auto simp: arr_segs_def)
  have swf: "segs_wf (map_segs mp)" using wf by (simp add: map_wf_def)
  note ffu = first_fit_units [OF swf ff sz]
  have cnt: "unat (m_free mp) + length (map_segs mp) = unat (m_nslots mp)"
    "unat (m_nslots mp) < length (m_map mp)" using wf by (auto simp: map_wf_def)
  have scan: "rmalloc_scan (m_map mp) sz 0 = KRet (Some (length us))"
    unfolding m(1) using us e nz by (intro rmalloc_scan_hit) auto
  show ?thesis
  proof (cases "m_size e = sz")
    case True
    define mp' where "mp' = mp\<lparr>m_map := us @ vs @ z # z # zs', m_free := m_free mp + 1\<rparr>"
    have "shift_do (us @ e\<lparr>m_addr := m_addr e + sz, m_size := 0\<rparr> # vs @ z # zs') (length us)
        = KRet (us @ vs @ z # z # zs')"
      using nz m by (intro shift_do_eq) auto
    then have run: "rmalloc_locked mp sz = KRet (a, mp')"
      using scan True a m by (simp add: rmalloc_locked_def Let_def mp'_def)
    have "unat (m_free mp + 1) = unat (m_free mp) + 1"
      using cnt(1) xs unat_bound [of "m_nslots mp"] by (simp add: unat_word_ariths)
    then have "unat (m_free mp') + length ys = unat (m_nslots mp')"
      using cnt xs ys True by (simp add: mp'_def)
    moreover have "arr_segs (m_map mp') ys (z # z # zs')"
      using nz m ys True by (auto simp: arr_segs_def mp'_def)
    moreover have "unat (m_nslots mp') < length (m_map mp')"
      using cnt(2) m by (simp add: mp'_def)
    ultimately have "map_wf mp'" "map_segs mp' = ys" using map_wfI ffu(1) by blast+
    with run ff show ?thesis by (auto simp: same_head_def mp'_def)
  next
    case False
    then have lt: "sz < m_size e" using e by simp
    have ok: "seg_ok e" using swf xs by simp
    let ?e = "e\<lparr>m_addr := m_addr e + sz, m_size := m_size e - sz\<rparr>"
    note t = seg_trim [OF ok lt sz]
    define mp' where "mp' = mp\<lparr>m_map := us @ ?e # vs @ z # zs'\<rparr>"
    have run: "rmalloc_locked mp sz = KRet (a, mp')"
      using scan t(4) a m by (simp add: rmalloc_locked_def Let_def mp'_def)
    have "arr_segs (m_map mp') ys (z # zs')"
      using nz m ys False t(4) by (auto simp: arr_segs_def mp'_def)
    moreover have "unat (m_free mp') + length ys = unat (m_nslots mp')"
      using cnt xs ys False by (simp add: mp'_def)
    moreover have "unat (m_nslots mp') < length (m_map mp')"
      using cnt(2) m by (simp add: mp'_def)
    ultimately have "map_wf mp'" "map_segs mp' = ys" using map_wfI ffu(1) by blast+
    with run ff show ?thesis by (auto simp: same_head_def mp'_def)
  qed
qed

section \<open>Returning space\<close>

text \<open>The map split at the returned address, as \<open>rmfree_locate\<close> splits it.\<close>

definition split_at ::
  "map_head \<Rightarrow> ulong_t \<Rightarrow> map_seg list \<Rightarrow> map_seg list \<Rightarrow> map_seg list \<Rightarrow> bool"
where
  "split_at mp addr ls rs zs \<longleftrightarrow>
     map_segs mp = ls @ rs \<and> arr_segs (m_map mp) (ls @ rs) zs \<and>
     (\<forall>e \<in> set ls. m_addr e \<le> addr) \<and> (\<forall>e \<in> set rs. addr < m_addr e)"

lemma split_at_exists:
  assumes "map_wf mp"
  shows "\<exists>ls rs zs. split_at mp addr ls rs zs"
proof -
  let ?P = "\<lambda>e. m_addr e \<le> addr"
  let ?ls = "takeWhile ?P (map_segs mp)" and ?rs = "dropWhile ?P (map_segs mp)"
  obtain zs where arr: "arr_segs (m_map mp) (map_segs mp) zs" using map_wf_arr [OF assms] by blast
  have app: "map_segs mp = ?ls @ ?rs" by simp
  have wf: "segs_wf (?ls @ ?rs)" using assms by (simp add: map_wf_def)
  have "\<forall>e \<in> set ?rs. addr < m_addr e"
  proof (cases ?rs)
    case (Cons r rs')
    then have "\<not> m_addr r \<le> addr" by (metis dropWhile_eq_Cons_conv)
    moreover have "unat (m_addr r) < unat (m_addr e)" if "e \<in> set rs'" for e
      using wf Cons that seg_ok_bounds(2) [of r] by (fastforce simp del: takeWhile_dropWhile_id)
    ultimately show ?thesis
      unfolding Cons by (auto simp: word_less_nat_alt word_le_nat_alt not_le intro: less_trans)
  next
    case Nil
    show ?thesis unfolding Nil by simp
  qed
  moreover have "\<forall>e \<in> set ?ls. m_addr e \<le> addr" by (auto dest: set_takeWhileD)
  ultimately show ?thesis using arr app unfolding split_at_def by metis
qed

lemma split_at_locate:
  assumes "split_at mp addr ls rs zs"
  shows "rmfree_locate (m_map mp) addr 0 = KRet (length ls)"
proof -
  have m: "m_map mp = ls @ (rs @ zs)" and zs: "zs \<noteq> []"
    and nz: "\<forall>e \<in> set ls. m_addr e \<le> addr \<and> m_size e \<noteq> 0" "\<forall>e \<in> set zs. m_size e = 0"
    and rs: "\<forall>e \<in> set rs. addr < m_addr e"
    using assms by (auto simp: split_at_def arr_segs_def)
  obtain y ys where y: "rs @ zs = y # ys" using zs by (cases "rs @ zs") auto
  have "\<not> (m_addr y \<le> addr \<and> m_size y \<noteq> 0)"
    using y rs nz(2) zs by (cases rs; cases zs) auto
  then show ?thesis unfolding m y using nz(1) by (rule rmfree_locate_eq [rotated])
qed

lemma split_at_range:
  assumes "split_at mp addr ls rs zs" "seg_range addr sz \<inter> map_units mp = {}" "sz \<noteq> 0" "map_wf mp"
  shows "\<forall>e \<in> set ls. seg_end e \<le> unat addr" "\<forall>e \<in> set rs. unat addr + unat sz \<le> unat (m_addr e)"
proof -
  have wf: "segs_wf (ls @ rs)" and u: "map_units mp = seg_units (ls @ rs)"
    using assms by (auto simp: split_at_def map_wf_def map_units_def)
  have "unat addr \<in> seg_range addr sz" using assms(3) by (simp add: seg_range_def unat_pos_iff)
  then have "unat addr \<notin> seg_units (ls @ rs)" using assms(2) u by auto
  moreover have "\<forall>e \<in> set ls. unat (m_addr e) \<le> unat addr"
    using assms(1) by (auto simp: split_at_def word_le_nat_alt)
  ultimately show "\<forall>e \<in> set ls. seg_end e \<le> unat addr"
    by (auto simp: seg_units_iff not_less simp del: seg_units_simps)
  show "\<forall>e \<in> set rs. unat addr + unat sz \<le> unat (m_addr e)"
  proof (rule ballI, rule ccontr)
    fix e assume e: "e \<in> set rs" "\<not> unat addr + unat sz \<le> unat (m_addr e)"
    then have "unat addr < unat (m_addr e)"
      using assms(1) by (auto simp: split_at_def word_less_nat_alt)
    then have "unat (m_addr e) \<in> seg_range addr sz" using e by (simp add: seg_range_def)
    moreover have "unat (m_addr e) \<in> seg_units (ls @ rs)"
      using e wf seg_ok_bounds(2) segs_wf_ok [of rs e] by (auto simp: seg_units_iff simp del: seg_units_simps)
    ultimately show False using assms(2) u by blast
  qed
qed

lemma seg_end_word:
  assumes "seg_ok e"
  shows "unat (m_addr e + m_size e) = seg_end e"
  using assms by (simp add: seg_ok_def seg_end_def unat_add_no_wrap)

lemma seg_grow:
  assumes "seg_ok l" "seg_end l + unat n < 2 ^ 64"
  shows "seg_ok (l\<lparr>m_size := m_size l + n\<rparr>)" "seg_end (l\<lparr>m_size := m_size l + n\<rparr>) = seg_end l + unat n"
proof -
  have u: "unat (m_size l + n) = unat (m_size l) + unat n"
    using assms by (intro unat_add_no_wrap) (simp add: seg_end_def)
  show e: "seg_end (l\<lparr>m_size := m_size l + n\<rparr>) = seg_end l + unat n" using u by (simp add: seg_end_def)
  have "m_size l + n \<noteq> 0" using u assms(1) by (intro unat_add_nonzero) (simp_all add: seg_ok_def)
  then show "seg_ok (l\<lparr>m_size := m_size l + n\<rparr>)" using assms e by (simp add: seg_ok_def)
qed

lemma seg_grow_down:
  assumes "seg_ok r" "unat addr + unat n = unat (m_addr r)" "addr \<noteq> 0"
  defines "r' \<equiv> r\<lparr>m_addr := m_addr r - n, m_size := m_size r + n\<rparr>"
  shows "seg_ok r'" "seg_end r' = seg_end r" "unat (m_addr r') = unat addr"
proof -
  have le: "n \<le> m_addr r" using assms(2) by (simp add: word_le_nat_alt)
  have a: "unat (m_addr r - n) = unat addr" using unat_sub_le [OF le] assms(2) by linarith
  have s: "unat (m_size r + n) = unat (m_size r) + unat n"
    using assms(1,2) by (intro unat_add_no_wrap) (simp add: seg_ok_def seg_end_def)
  show "unat (m_addr r') = unat addr" using a by (simp add: r'_def)
  show e: "seg_end r' = seg_end r" using a s assms(2) by (simp add: r'_def seg_end_def)
  have "m_size r + n \<noteq> 0" using s assms(1) by (intro unat_add_nonzero) (simp_all add: seg_ok_def)
  moreover have "m_addr r - n \<noteq> 0" using a assms(3) unat_pos_iff [of addr] unat_pos_iff [of "m_addr r - n"] by linarith
  ultimately show "seg_ok r'" using assms(1) e by (simp add: seg_ok_def r'_def)
qed

lemma map_wf_done:
  assumes wf: "map_wf mp" and arr: "arr_segs arr xs zs" and xs: "segs_wf xs"
    and len: "length arr = length (m_map mp)"
    and cnt: "unat f + length xs = unat (m_nslots mp)"
  shows "map_wf (mp\<lparr>m_map := arr, m_free := f\<rparr>)"
    and "map_segs (mp\<lparr>m_map := arr, m_free := f\<rparr>) = xs"
proof -
  let ?mp = "mp\<lparr>m_map := arr, m_free := f\<rparr>"
  have "unat (m_nslots ?mp) < length (m_map ?mp)" using wf len by (simp add: map_wf_def)
  with arr cnt show "map_wf ?mp" "map_segs ?mp = xs"
    using map_wfI [of ?mp xs zs] xs by simp_all
qed

text \<open>The free slot count after one slot is gained or taken.\<close>

lemma map_wf_free_up:
  assumes "map_wf mp" "map_segs mp \<noteq> []"
  shows "unat (m_free mp + 1) = unat (m_free mp) + 1"
  using assms unat_bound [of "m_nslots mp"]
  by (cases "map_segs mp") (auto simp: map_wf_def unat_word_ariths)

lemma map_wf_free_down:
  fixes f :: uint_t
  assumes "f \<noteq> 0"
  shows "unat (f - 1) + 1 = unat f"
  using assms unat_pos_iff [of f] by (simp add: unat_minus_one)


lemma map_wf_segs: "map_wf mp \<Longrightarrow> segs_wf (map_segs mp)"
  by (simp add: map_wf_def)

lemma split_at_arr: "split_at mp addr ls rs zs \<Longrightarrow> arr_segs (m_map mp) (ls @ rs) zs"
  by (simp add: split_at_def)

lemma arr_segs_obtain:
  assumes "arr_segs arr xs zs"
  obtains z zs' where "arr = xs @ z # zs'" "\<forall>e \<in> set xs. m_size e \<noteq> 0" "\<forall>e \<in> set (z # zs'). m_size e = 0"
  using assms by (cases zs) (auto simp: arr_segs_def)

text \<open>One pass over a map split at the returned address.\<close>

lemma rmfree_pass_at:
  assumes sp: "split_at mp addr ls rs zs"
  shows "rmfree_pass mp sz addr =
    (let e = hd (rs @ zs); l = last ls in
     if ls \<noteq> [] \<and> addr \<le> m_addr l + m_size l then
       if addr < m_addr l + m_size l then KPanic ''bad rmfree''
       else if m_size e \<noteq> 0 \<and> m_addr e \<le> addr + sz then
         if m_addr e < addr + sz then KPanic ''bad rmfree''
         else kbind (shift_while (butlast ls @ l\<lparr>m_size := m_size l + sz + m_size e\<rparr> # rs @ zs) (length ls))
                (\<lambda>arr. KRet (Done (mp\<lparr>m_map := arr, m_free := m_free mp + 1\<rparr>)))
       else KRet (Done (mp\<lparr>m_map := butlast ls @ l\<lparr>m_size := m_size l + sz\<rparr> # rs @ zs\<rparr>))
     else if m_addr e \<le> addr + sz \<and> m_size e \<noteq> 0 then
       if m_addr e < addr + sz then KPanic ''bad rmfree''
       else KRet (Done (mp\<lparr>m_map :=
              ls @ e\<lparr>m_addr := m_addr e - sz, m_size := m_size e + sz\<rparr> # tl (rs @ zs)\<rparr>))
     else if m_free mp = 0 then kbind (rmfree_overflow mp (length ls)) (\<lambda>mp'. KRet (Retry mp'))
     else kbind (push_up (ls @ rs @ zs) (length ls) sz addr)
            (\<lambda>arr. KRet (Done (mp\<lparr>m_map := arr, m_free := m_free mp - 1\<rparr>))))"
proof -
  obtain y ys where y: "rs @ zs = y # ys"
    using split_at_arr [OF sp] by (cases "rs @ zs") (auto simp: arr_segs_def)
  have m: "m_map mp = ls @ y # ys" using split_at_arr [OF sp] y by (simp add: arr_segs_def)
  have nth: "m_map mp ! length ls = y" unfolding m by simp
  have upd: "(m_map mp)[length ls := v] = ls @ v # ys" for v unfolding m by simp
  note loc = split_at_locate [OF sp]
  show ?thesis
  proof (cases ls rule: rev_cases)
    case Nil
    show ?thesis
      unfolding rmfree_pass_def loc kbind.simps Let_def nth upd unfolding y m Nil by simp
  next
    case (snoc ls0 l)
    have lst: "m_map mp ! (length ls - 1) = l" unfolding m snoc by simp
    have upd1: "(m_map mp)[length ls - 1 := v] = ls0 @ v # y # ys" for v
      unfolding m snoc by simp
    have upd2: "(ls0 @ w # y # ys)[length ls - 1 := v] = ls0 @ v # y # ys" for v w
      unfolding snoc by simp
    have facts: "0 < length ls \<longleftrightarrow> True" "ls \<noteq> [] \<longleftrightarrow> True" "last ls = l" "butlast ls = ls0"
      unfolding snoc by simp_all
    show ?thesis
      unfolding rmfree_pass_def loc kbind.simps Let_def nth upd lst upd1 upd2 facts
      unfolding y m list.sel ..
  qed
qed

text \<open>What a pass that returns the space has to establish.\<close>

definition freed_ok :: "map_head \<Rightarrow> size_t \<Rightarrow> ulong_t \<Rightarrow> map_head \<Rightarrow> bool" where
  "freed_ok mp sz addr mp' \<longleftrightarrow> map_wf mp' \<and>
     map_units mp' = map_units mp \<union> seg_range addr sz \<and> same_head mp mp'"

lemma freed_okI:
  assumes wf: "map_wf mp" and arr: "arr_segs arr xs zs" and xs: "segs_wf xs"
    and len: "length arr = length (m_map mp)"
    and cnt: "unat f + length xs = unat (m_nslots mp)"
    and units: "seg_units xs = map_units mp \<union> seg_range addr sz"
  shows "freed_ok mp sz addr (mp\<lparr>m_map := arr, m_free := f\<rparr>)"
  using map_wf_done [OF wf arr xs len cnt] units
  by (simp add: freed_ok_def map_units_def same_head_def)

text \<open>A returned range that overlaps no free unit, and what the split says of it.\<close>

definition returnable :: "map_head \<Rightarrow> size_t \<Rightarrow> ulong_t \<Rightarrow> bool" where
  "returnable mp sz addr \<longleftrightarrow> addr \<noteq> 0 \<and> sz \<noteq> 0 \<and> unat addr + unat sz < 2 ^ 64 \<and>
     seg_range addr sz \<inter> map_units mp = {}"

lemma returnable_word:
  assumes "returnable mp sz addr"
  shows "unat (addr + sz) = unat addr + unat sz"
  using assms by (intro unat_add_no_wrap) (simp add: returnable_def)

lemma split_at_wf:
  assumes "map_wf mp" "split_at mp addr ls rs zs"
  shows "segs_wf (ls @ rs)" "map_units mp = seg_units (ls @ rs)"
    "unat (m_free mp) + length (ls @ rs) = unat (m_nslots mp)"
  using assms map_wf_segs [OF assms(1)] by (simp_all add: split_at_def map_units_def map_wf_def)

lemma last_apart:
  assumes "\<forall>l \<in> set ls. seg_end l < unat addr" "segs_wf ls"
  shows "\<not> (ls \<noteq> [] \<and> addr \<le> m_addr (last ls) + m_size (last ls))"
proof (cases "ls = []")
  case False
  then have "last ls \<in> set ls" by simp
  with assms have "seg_end (last ls) < unat addr" "seg_ok (last ls)" using segs_wf_ok by auto
  then show ?thesis by (simp add: word_le_nat_alt seg_end_word)
qed simp

lemma rmfree_pass_left_right:
  assumes wf: "map_wf mp" and sp: "split_at mp addr (ls @ [l]) (r # rs) zs"
    and ret: "returnable mp sz addr"
    and l: "seg_end l = unat addr" and r: "unat addr + unat sz = unat (m_addr r)"
  shows "\<exists>mp'. rmfree_pass mp sz addr = KRet (Done mp') \<and> freed_ok mp sz addr mp'"
proof -
  note swf = split_at_wf [OF wf sp]
  obtain z zs' where zs: "zs = z # zs'" and m: "m_map mp = ls @ l # r # rs @ z # zs'"
    and nz: "\<forall>e \<in> set (ls @ l # r # rs). m_size e \<noteq> 0" "\<forall>e \<in> set (z # zs'). m_size e = 0"
    using arr_segs_obtain [OF split_at_arr [OF sp]] split_at_arr [OF sp] by (auto simp: arr_segs_def)
  have okl: "seg_ok l" and okr: "seg_ok r" using swf(1) by auto
  note bl = seg_ok_bounds [OF okl] and br = seg_ok_bounds [OF okr]
  have wl: "m_addr l + m_size l = addr" using seg_end_word [OF okl] l by (simp add: word_unat_eq_iff)
  have wr: "addr + sz = m_addr r" using r returnable_word [OF ret] by (simp add: word_unat_eq_iff)
  let ?l1 = "l\<lparr>m_size := m_size l + sz\<rparr>" and ?l2 = "l\<lparr>m_size := m_size l + sz + m_size r\<rparr>"
  have g1: "seg_ok ?l1" "seg_end ?l1 = unat (m_addr r)"
    using seg_grow [OF okl, of sz] l r br by auto
  have g2: "seg_ok ?l2" "seg_end ?l2 = seg_end r"
    using seg_grow [OF g1(1), of "m_size r"] g1(2) br(3) by (auto simp: seg_end_def)
  have "shift_while ((ls @ [?l2]) @ r # rs @ z # zs') (length (ls @ [?l2]))
      = KRet ((ls @ [?l2]) @ rs @ z # z # zs')"
    using nz by (intro shift_while_eq) auto
  then have run: "rmfree_pass mp sz addr
      = KRet (Done (mp\<lparr>m_map := ls @ ?l2 # rs @ z # z # zs', m_free := m_free mp + 1\<rparr>))"
    unfolding rmfree_pass_at [OF sp] Let_def zs last_snoc butlast_snoc append_Cons list.sel wl wr
    using okr by (simp add: seg_ok_def)
  have arr: "arr_segs (ls @ ?l2 # rs @ z # z # zs') (ls @ ?l2 # rs) (z # z # zs')"
    using nz g2(1) by (auto simp: arr_segs_def seg_ok_def)
  have w: "segs_wf (ls @ ?l2 # rs)" using swf(1) g2 by auto
  have cnt: "unat (m_free mp + 1) + length (ls @ ?l2 # rs) = unat (m_nslots mp)"
    using swf(3) map_wf_free_up [OF wf] sp by (simp add: split_at_def)
  have un: "seg_units (ls @ ?l2 # rs) = map_units mp \<union> seg_range addr sz"
    unfolding swf(2) using g2 l r bl br by (auto simp: seg_range_def)
  have len: "length (ls @ ?l2 # rs @ z # z # zs') = length (m_map mp)" by (simp add: m)
  from run freed_okI [OF wf arr w len cnt un] show ?thesis by blast
qed

lemma rmfree_pass_left:
  assumes wf: "map_wf mp" and sp: "split_at mp addr (ls @ [l]) rs zs"
    and ret: "returnable mp sz addr"
    and l: "seg_end l = unat addr" and r: "\<forall>r \<in> set rs. unat addr + unat sz < unat (m_addr r)"
  shows "\<exists>mp'. rmfree_pass mp sz addr = KRet (Done mp') \<and> freed_ok mp sz addr mp'"
proof -
  note swf = split_at_wf [OF wf sp]
  have arr0: "arr_segs (m_map mp) (ls @ l # rs) zs" using split_at_arr [OF sp] by simp
  have okl: "seg_ok l" using swf(1) by auto
  note bl = seg_ok_bounds [OF okl]
  have wl: "m_addr l + m_size l = addr" using seg_end_word [OF okl] l by (simp add: word_unat_eq_iff)
  let ?l1 = "l\<lparr>m_size := m_size l + sz\<rparr>"
  have g1: "seg_ok ?l1" "seg_end ?l1 = unat addr + unat sz"
    using seg_grow [OF okl, of sz] l ret by (auto simp: returnable_def)
  have "\<not> (m_size (hd (rs @ zs)) \<noteq> 0 \<and> m_addr (hd (rs @ zs)) \<le> addr + sz)"
    using r arr0 returnable_word [OF ret]
    by (cases rs; cases zs) (auto simp: arr_segs_def word_le_nat_alt)
  then have run: "rmfree_pass mp sz addr
      = KRet (Done (mp\<lparr>m_map := ls @ ?l1 # rs @ zs, m_free := m_free mp\<rparr>))"
    unfolding rmfree_pass_at [OF sp] Let_def using wl by (simp only: last_snoc butlast_snoc) simp
  have arr: "arr_segs (ls @ ?l1 # rs @ zs) (ls @ ?l1 # rs) zs"
    using arr0 g1(1) by (auto simp: arr_segs_def seg_ok_def)
  have w: "segs_wf (ls @ ?l1 # rs)" using swf(1) g1 r by auto
  have cnt: "unat (m_free mp) + length (ls @ ?l1 # rs) = unat (m_nslots mp)" using swf(3) by simp
  have un: "seg_units (ls @ ?l1 # rs) = map_units mp \<union> seg_range addr sz"
    unfolding swf(2) using g1 l bl by (auto simp: seg_range_def)
  have len: "length (ls @ ?l1 # rs @ zs) = length (m_map mp)" using arr0 by (simp add: arr_segs_def)
  from run freed_okI [OF wf arr w len cnt un] show ?thesis by blast
qed

lemma rmfree_pass_right:
  assumes wf: "map_wf mp" and sp: "split_at mp addr ls (r # rs) zs"
    and ret: "returnable mp sz addr"
    and l: "\<forall>l \<in> set ls. seg_end l < unat addr" and r: "unat addr + unat sz = unat (m_addr r)"
  shows "\<exists>mp'. rmfree_pass mp sz addr = KRet (Done mp') \<and> freed_ok mp sz addr mp'"
proof -
  note swf = split_at_wf [OF wf sp]
  have arr0: "arr_segs (m_map mp) (ls @ r # rs) zs" using split_at_arr [OF sp] by simp
  have okr: "seg_ok r" using swf(1) by auto
  note br = seg_ok_bounds [OF okr]
  have wr: "addr + sz = m_addr r" using r returnable_word [OF ret] by (simp add: word_unat_eq_iff)
  have wl: "\<not> (ls \<noteq> [] \<and> addr \<le> m_addr (last ls) + m_size (last ls))"
    using last_apart [OF l] swf(1) by simp
  let ?r = "r\<lparr>m_addr := m_addr r - sz, m_size := m_size r + sz\<rparr>"
  have "addr \<noteq> 0" using ret by (simp add: returnable_def)
  note g = seg_grow_down [OF okr r this]
  have run: "rmfree_pass mp sz addr
      = KRet (Done (mp\<lparr>m_map := ls @ ?r # rs @ zs, m_free := m_free mp\<rparr>))"
    unfolding rmfree_pass_at [OF sp] using wl wr okr by (auto simp: seg_ok_def)
  have arr: "arr_segs (ls @ ?r # rs @ zs) (ls @ ?r # rs) zs"
    using arr0 g(1) by (auto simp: arr_segs_def seg_ok_def)
  have w: "segs_wf (ls @ ?r # rs)" using swf(1) g l by auto
  have cnt: "unat (m_free mp) + length (ls @ ?r # rs) = unat (m_nslots mp)" using swf(3) by simp
  have un: "seg_units (ls @ ?r # rs) = map_units mp \<union> seg_range addr sz"
    unfolding swf(2) using g r br by (auto simp: seg_range_def)
  have len: "length (ls @ ?r # rs @ zs) = length (m_map mp)" using arr0 by (simp add: arr_segs_def)
  from run freed_okI [OF wf arr w len cnt un] show ?thesis by blast
qed

lemma rmfree_pass_alone:
  assumes wf: "map_wf mp" and sp: "split_at mp addr ls rs zs"
    and ret: "returnable mp sz addr"
    and l: "\<forall>l \<in> set ls. seg_end l < unat addr"
    and r: "\<forall>r \<in> set rs. unat addr + unat sz < unat (m_addr r)"
  shows "if m_free mp = 0
         then rmfree_pass mp sz addr = kbind (rmfree_overflow mp (length ls)) (\<lambda>mp'. KRet (Retry mp'))
         else \<exists>mp'. rmfree_pass mp sz addr = KRet (Done mp') \<and> freed_ok mp sz addr mp'"
proof -
  note swf = split_at_wf [OF wf sp]
  note arr0 = split_at_arr [OF sp]
  obtain z zs' where zs: "zs = z # zs'" and nz: "\<forall>e \<in> set (ls @ rs). m_size e \<noteq> 0"
      "\<forall>e \<in> set (z # zs'). m_size e = 0"
    using arr0 by (cases zs) (auto simp: arr_segs_def)
  have wl: "\<not> (ls \<noteq> [] \<and> addr \<le> m_addr (last ls) + m_size (last ls))"
    using last_apart [OF l] swf(1) by simp
  have wr: "\<not> (m_addr (hd (rs @ zs)) \<le> addr + sz \<and> m_size (hd (rs @ zs)) \<noteq> 0)"
    using r arr0 returnable_word [OF ret]
    by (cases rs; cases zs) (auto simp: arr_segs_def word_le_nat_alt)
  let ?s = "\<lparr>m_size = sz, m_addr = addr\<rparr>"
  have ok: "seg_ok ?s" "seg_end ?s = unat addr + unat sz"
    using ret by (auto simp: returnable_def seg_ok_def seg_end_def)
  have pass: "rmfree_pass mp sz addr =
     (if m_free mp = 0 then kbind (rmfree_overflow mp (length ls)) (\<lambda>mp'. KRet (Retry mp'))
      else kbind (push_up (ls @ rs @ zs) (length ls) sz addr)
            (\<lambda>arr. KRet (Done (mp\<lparr>m_map := arr, m_free := m_free mp - 1\<rparr>))))"
    unfolding rmfree_pass_at [OF sp] Let_def using wl wr by (simp only: if_False)
  show ?thesis
  proof (cases "m_free mp = 0")
    case False
    have "push_up (ls @ rs @ z # zs') (length ls) sz addr = KRet (ls @ ?s # rs @ zs')"
      using nz by (intro push_up_eq) auto
    with pass False zs have run: "rmfree_pass mp sz addr
      = KRet (Done (mp\<lparr>m_map := ls @ ?s # rs @ zs', m_free := m_free mp - 1\<rparr>))" by simp
    have cnt: "unat (m_free mp - 1) + length (ls @ ?s # rs) = unat (m_nslots mp)"
      using swf(3) map_wf_free_down [OF False] by simp
    have len: "length (ls @ ?s # rs @ zs') = length (m_map mp)"
      using arr0 zs by (simp add: arr_segs_def)
    have "unat (m_nslots mp) < length (m_map mp)" using wf by (simp add: map_wf_def)
    with cnt len have "zs' \<noteq> []" by auto
    then have arr: "arr_segs (ls @ ?s # rs @ zs') (ls @ ?s # rs) zs'"
      using nz ok by (auto simp: arr_segs_def seg_ok_def)
    have w: "segs_wf (ls @ ?s # rs)" using swf(1) ok l r by auto
    have un: "seg_units (ls @ ?s # rs) = map_units mp \<union> seg_range addr sz"
      unfolding swf(2) using ok by (auto simp: seg_range_def)
    from run False freed_okI [OF wf arr w len cnt un] show ?thesis by auto
  qed (simp add: pass)
qed

text \<open>The returned space touches a free segment on its left or on its right.\<close>

definition abuts :: "map_head \<Rightarrow> size_t \<Rightarrow> ulong_t \<Rightarrow> bool" where
  "abuts mp sz addr \<longleftrightarrow>
     (\<exists>e \<in> set (map_segs mp). seg_end e = unat addr \<or> unat addr + unat sz = unat (m_addr e))"

lemma rmfree_pass_returnable:
  assumes wf: "map_wf mp" and ret: "returnable mp sz addr" and sp: "split_at mp addr ls rs zs"
  shows "if m_free mp = 0 \<and> \<not> abuts mp sz addr
         then rmfree_pass mp sz addr = kbind (rmfree_overflow mp (length ls)) (\<lambda>mp'. KRet (Retry mp'))
         else \<exists>mp'. rmfree_pass mp sz addr = KRet (Done mp') \<and> freed_ok mp sz addr mp'"
proof -
  note swf = split_at_wf [OF wf sp]
  have segs: "map_segs mp = ls @ rs" using sp by (simp add: split_at_def)
  have nz: "sz \<noteq> 0" and dis: "seg_range addr sz \<inter> map_units mp = {}"
    using ret by (auto simp: returnable_def)
  note rng = split_at_range [OF sp dis nz wf]
  consider (left) l ls0 where "ls = ls0 @ [l]" "seg_end l = unat addr"
    | (noleft) "\<forall>l \<in> set ls. seg_end l < unat addr"
  proof (cases ls rule: rev_cases)
    case (snoc ls0 l)
    have "seg_end l \<le> unat addr" "\<forall>x \<in> set ls0. seg_end x < unat addr"
      using rng(1) swf(1) snoc seg_ok_bounds(2) [of l] by fastforce+
    then show ?thesis using that snoc by (cases "seg_end l = unat addr") auto
  qed (use that in auto)
  note lcases = this
  consider (right) r rs0 where "rs = r # rs0" "unat addr + unat sz = unat (m_addr r)"
    | (noright) "\<forall>r \<in> set rs. unat addr + unat sz < unat (m_addr r)"
  proof (cases rs)
    case (Cons r rs0)
    have "unat addr + unat sz \<le> unat (m_addr r)" "\<forall>x \<in> set rs0. unat (m_addr r) < unat (m_addr x)"
      using rng(2) swf(1) Cons seg_ok_bounds(2) [of r] by fastforce+
    then show ?thesis using that Cons by (cases "unat addr + unat sz = unat (m_addr r)") fastforce+
  qed (use that in auto)
  note rcases = this
  show ?thesis
  proof (cases rule: lcases)
    case left
    then have ab: "abuts mp sz addr" using segs by (auto simp: abuts_def)
    show ?thesis
    proof (cases rule: rcases)
      case right
      show ?thesis
        using rmfree_pass_left_right [OF wf _ ret left(2) right(2)] sp left right ab by auto
    next
      case noright
      show ?thesis
        using rmfree_pass_left [OF wf _ ret left(2) noright] sp left ab by auto
    qed
  next
    case noleft
    show ?thesis
    proof (cases rule: rcases)
      case right
      then have ab: "abuts mp sz addr" using segs by (auto simp: abuts_def)
      show ?thesis
        using rmfree_pass_right [OF wf _ ret noleft right(2)] sp right ab by auto
    next
      case noright
      have "seg_end e \<noteq> unat addr \<and> unat addr + unat sz \<noteq> unat (m_addr e)" if e: "e \<in> set (ls @ rs)" for e
      proof -
        have "seg_end e < unat addr \<or> unat addr + unat sz < unat (m_addr e)"
          using e noleft noright by auto
        with seg_ok_bounds(2) [OF segs_wf_ok [OF swf(1) e]] show ?thesis by linarith
      qed
      then have "\<not> abuts mp sz addr" unfolding abuts_def segs by blast
      then show ?thesis using rmfree_pass_alone [OF wf sp ret noleft noright] by simp
    qed
  qed
qed

section \<open>Map overflow\<close>

definition overflow_victim :: "map_seg list \<Rightarrow> map_seg" where
  "overflow_victim xs =
     (let n = length xs in
      if m_size (xs ! (n - 2)) < m_size (xs ! (n - 1)) then xs ! (n - 2) else xs ! (n - 1))"

lemma overflow_victim_append:
  "overflow_victim (us @ [a, b]) = (if m_size a < m_size b then a else b)"
  by (simp add: overflow_victim_def nth_append)

lemma overflow_units:
  assumes "segs_wf (us @ v # ws)"
  shows "seg_units (us @ ws) = seg_units (us @ v # ws) - {unat (m_addr v) ..< seg_end v}"
proof -
  have "{unat (m_addr v) ..< seg_end v} \<inter> seg_units us = {}"
    "{unat (m_addr v) ..< seg_end v} \<inter> seg_units ws = {}"
    using assms by (fastforce simp: seg_units_iff)+
  then show ?thesis by auto
qed

lemma rmfree_overflow_spec:
  assumes wf: "map_wf mp" and sp: "split_at mp addr ls rs zs" and two: "2 \<le> length (map_segs mp)"
  shows "\<exists>mp'. rmfree_overflow mp (length ls) = KRet mp' \<and> map_wf mp' \<and> same_head mp mp' \<and>
     m_free mp' = m_free mp + 1 \<and>
     (let v = overflow_victim (map_segs mp) in
      v \<in> set (map_segs mp) \<and> map_units mp' = map_units mp - {unat (m_addr v) ..< seg_end v})"
proof -
  have segs: "map_segs mp = ls @ rs" using sp by (simp add: split_at_def)
  obtain us a b where ab: "map_segs mp = us @ [a, b]"
  proof -
    obtain ys b where "map_segs mp = ys @ [b]" using two by (cases "map_segs mp" rule: rev_cases) auto
    moreover then obtain us a where "ys = us @ [a]" using two by (cases ys rule: rev_cases) auto
    ultimately show ?thesis using that by simp
  qed
  have app: "ls @ rs = us @ [a, b]" using segs ab by simp
  obtain z zs' where m0: "m_map mp = (ls @ rs) @ z # zs'"
    and nz: "\<forall>e \<in> set (ls @ rs). m_size e \<noteq> 0" "\<forall>e \<in> set (z # zs'). m_size e = 0"
    using arr_segs_obtain [OF split_at_arr [OF sp]] by blast
  have m: "m_map mp = us @ a # b # z # zs'" unfolding m0 app by simp
  have len: "length ls + length rs = length us + 2" using arg_cong [OF app, of length] by simp
  have fin: "map_end (m_map mp) (length ls) = KRet (length us + 2)"
    using map_end_eq [of rs z ls zs'] nz by (simp add: m0 len)
  have nth: "m_map mp ! (length us + 2 - 2) = a" "m_map mp ! (length us + 2 - 1) = b"
    unfolding m by (simp_all add: nth_append)
  have long: "\<not> length (m_map mp) \<le> Suc (length us + 2 - 2)"
    "\<not> length (m_map mp) \<le> Suc (length us + 2 - 1)" unfolding m by simp_all
  define v where "v = (if m_size a < m_size b then a else b)"
  define w where "w = (if m_size a < m_size b then b else a)"
  obtain rest where run: "rmfree_overflow mp (length ls) =
        KRet (mp\<lparr>m_map := us @ w # rest, m_free := m_free mp + 1\<rparr>)"
    and rest: "\<forall>e \<in> set rest. m_size e = 0" "length rest = length zs' + 2"
  proof (cases "m_size a < m_size b")
    case True
    have u: "(m_map mp)[length us + 2 - 2 := m_map mp ! Suc (length us + 2 - 2)] = us @ b # b # z # zs'"
      unfolding m by simp
    have "rmfree_overflow mp (length ls) =
        KRet (mp\<lparr>m_map := us @ w # b\<lparr>m_size := 0\<rparr> # z # zs', m_free := m_free mp + 1\<rparr>)"
      unfolding rmfree_overflow_def fin kbind.simps Let_def nth using True long
      by (simp add: u w_def del: diff_add_inverse2) (simp add: m)
    then show ?thesis using that [of "b\<lparr>m_size := 0\<rparr> # z # zs'"] nz(2) by auto
  next
    case False
    have "rmfree_overflow mp (length ls) =
        KRet (mp\<lparr>m_map := us @ w # z # z\<lparr>m_size := 0\<rparr> # zs', m_free := m_free mp + 1\<rparr>)"
      unfolding rmfree_overflow_def fin kbind.simps Let_def nth using False long
      by (simp add: w_def) (simp add: m nth_append list_update_append)
    then show ?thesis using that [of "z # z\<lparr>m_size := 0\<rparr> # zs'"] nz(2) by auto
  qed
  let ?mp = "mp\<lparr>m_map := us @ w # rest, m_free := m_free mp + 1\<rparr>"
  have swf: "segs_wf (us @ [a, b])" using map_wf_segs [OF wf] ab by simp
  have segs': "segs_wf (us @ [w])" using swf by (auto simp: w_def)
  have arr: "arr_segs (us @ w # rest) (us @ [w]) rest"
    using rest nz(1) unfolding app by (auto simp: arr_segs_def w_def)
  have cnt: "unat (m_free mp + 1) + length (us @ [w]) = unat (m_nslots mp)"
    using map_wf_free_up [OF wf] wf ab by (simp add: map_wf_def)
  have len': "length (us @ w # rest) = length (m_map mp)" using rest(2) by (simp add: m)
  note dn = map_wf_done [OF wf arr segs' len' cnt]
  have "seg_units (us @ [w]) = seg_units (us @ [a, b]) - {unat (m_addr v) ..< seg_end v}"
    using overflow_units [of us a "[b]"] overflow_units [of "us @ [a]" b "[]"] swf
    by (simp add: v_def w_def)
  moreover have "overflow_victim (map_segs mp) = v" unfolding ab overflow_victim_append v_def ..
  moreover have "v \<in> set (map_segs mp)" unfolding ab v_def by simp
  ultimately show ?thesis using run dn
    by (intro exI [of _ ?mp]) (simp add: map_units_def ab same_head_def)
qed

section \<open>The whole of rmfree\<close>

lemma returnable_mono:
  assumes "returnable mp sz addr" "map_units mp' \<subseteq> map_units mp"
  shows "returnable mp' sz addr"
  using assms by (auto simp: returnable_def)

lemma rmfree_loop_done:
  assumes wf: "map_wf mp" and ret: "returnable mp sz addr" and ab: "m_free mp \<noteq> 0 \<or> abuts mp sz addr"
  shows "\<exists>mp'. rmfree_loop mp sz addr = KRet mp' \<and> freed_ok mp sz addr mp'"
proof -
  obtain ls rs zs where sp: "split_at mp addr ls rs zs" using split_at_exists [OF wf] by blast
  from rmfree_pass_returnable [OF wf ret sp] ab obtain mp' where
    "rmfree_pass mp sz addr = KRet (Done mp')" "freed_ok mp sz addr mp'" by auto
  then show ?thesis by (simp add: rmfree_loop.simps [of mp])
qed

lemma rmfree_loop_overflow:
  assumes wf: "map_wf mp" and ret: "returnable mp sz addr"
    and full: "m_free mp = 0" "\<not> abuts mp sz addr" and two: "2 \<le> length (map_segs mp)"
  defines "v \<equiv> overflow_victim (map_segs mp)"
  shows "v \<in> set (map_segs mp)"
    "\<exists>mp'. rmfree_loop mp sz addr = KRet mp' \<and> map_wf mp' \<and> same_head mp mp' \<and>
       map_units mp' = (map_units mp - {unat (m_addr v) ..< seg_end v}) \<union> seg_range addr sz"
proof -
  obtain ls rs zs where sp: "split_at mp addr ls rs zs" using split_at_exists [OF wf] by blast
  obtain mp1 where o: "rmfree_overflow mp (length ls) = KRet mp1" "map_wf mp1" "same_head mp mp1"
    "m_free mp1 = m_free mp + 1" "v \<in> set (map_segs mp)"
    "map_units mp1 = map_units mp - {unat (m_addr v) ..< seg_end v}"
    using rmfree_overflow_spec [OF wf sp two] by (auto simp: Let_def v_def)
  show "v \<in> set (map_segs mp)" by (rule o)
  have "rmfree_pass mp sz addr = KRet (Retry mp1)"
    using rmfree_pass_returnable [OF wf ret sp] full o(1) by simp
  then have loop: "rmfree_loop mp sz addr = rmfree_loop mp1 sz addr"
    by (simp add: rmfree_loop.simps [of mp])
  have "returnable mp1 sz addr" using ret by (rule returnable_mono) (use o(6) in auto)
  moreover have "m_free mp1 \<noteq> 0" using full o(4) by simp
  ultimately obtain mp2 where "rmfree_loop mp1 sz addr = KRet mp2" "freed_ok mp1 sz addr mp2"
    using rmfree_loop_done [OF o(2)] by blast
  then show "\<exists>mp'. rmfree_loop mp sz addr = KRet mp' \<and> map_wf mp' \<and> same_head mp mp' \<and>
       map_units mp' = (map_units mp - {unat (m_addr v) ..< seg_end v}) \<union> seg_range addr sz"
    using loop o by (intro exI [of _ mp2]) (auto simp: freed_ok_def same_head_def)
qed

definition woken :: "map_head \<Rightarrow> map_head" where
  "woken mp = (if m_want mp \<noteq> 0 then mp\<lparr>m_want := 0, m_cv := Suc (m_cv mp)\<rparr> else mp)"

lemma woken_simps [simp]:
  "map_segs (woken mp) = map_segs mp" "map_wf (woken mp) = map_wf mp"
  "map_units (woken mp) = map_units mp" "m_want (woken mp) = 0"
  "m_nslots (woken mp) = m_nslots mp" "m_free (woken mp) = m_free mp"
  by (auto simp: woken_def map_segs_def map_wf_def map_units_def)

lemma rmfree_woken:
  assumes "addr \<noteq> 0" "0 < sint sz" "rmfree_loop mp sz addr = KRet mp'"
  shows "rmfree mp sz addr = KRet (woken mp')"
  using assms by (simp add: rmfree_def woken_def)

lemma sint_pos_nonzero: "0 < sint (w :: 'a::len word) \<Longrightarrow> w \<noteq> 0"
  by auto

section \<open>Taking a given range\<close>

lemma rmget_scan_skip:
  "\<forall>e \<in> set ys. m_size e \<noteq> 0 \<and> \<not> (m_addr e \<le> addr \<and> addr < m_addr e + m_size e) \<Longrightarrow>
   rmget_scan (xs @ ys @ rest) addr (length xs) = rmget_scan (xs @ ys @ rest) addr (length xs + length ys)"
proof (induction ys arbitrary: xs)
  case (Cons y ys)
  have "rmget_scan (xs @ (y # ys) @ rest) addr (length xs)
      = rmget_scan ((xs @ [y]) @ ys @ rest) addr (length (xs @ [y]))"
    using Cons.prems by (auto simp: rmget_scan.simps [of _ _ "length xs"])
  then show ?case using Cons.IH [of "xs @ [y]"] Cons.prems by simp
qed simp

lemma rmget_scan_eq:
  assumes "\<forall>e \<in> set xs. m_size e \<noteq> 0 \<and> \<not> (m_addr e \<le> addr \<and> addr < m_addr e + m_size e)"
    and "m_size y = 0 \<or> m_addr y \<le> addr \<and> addr < m_addr y + m_size y"
  shows "rmget_scan (xs @ y # rest) addr 0 = KRet (length xs)"
  using rmget_scan_skip [of xs addr "[]" "y # rest"] assms
  by (auto simp: rmget_scan.simps [of _ _ "length xs"])

lemma rmget_open_eq:
  "rmget_open (us @ e # vs @ z # rest) (length us) (length us + length vs)
     = us @ e # hd (vs @ [z]) # vs @ rest"
proof (induction vs arbitrary: z rest rule: rev_induct)
  case Nil
  show ?case by (cases "length us") (simp_all add: rmget_open.simps)
next
  case (snoc v vs)
  have upd: "(us @ e # (vs @ [v]) @ z # rest)
        [Suc (Suc (length us + length vs)) := (us @ e # (vs @ [v]) @ z # rest) ! Suc (length us + length vs)]
      = us @ e # vs @ v # v # rest"
    by (simp add: nth_append list_update_append)
  have "rmget_open (us @ e # (vs @ [v]) @ z # rest) (length us) (length us + length (vs @ [v]))
      = rmget_open (us @ e # vs @ v # v # rest) (length us) (length us + length vs)"
    using upd by (simp add: rmget_open.simps)
  also have "\<dots> = us @ e # hd (vs @ [v]) # vs @ v # rest" by (rule snoc.IH)
  finally show ?case by (cases vs) simp_all
qed

lemma seg_holds_iff:
  assumes "seg_ok e"
  shows "(m_addr e \<le> addr \<and> addr < m_addr e + m_size e) \<longleftrightarrow> unat addr \<in> {unat (m_addr e) ..< seg_end e}"
  using assms by (auto simp: word_le_nat_alt word_less_nat_alt seg_end_word)

lemma rmget_miss:
  assumes wf: "map_wf mp" and sz: "0 < sint sz" and no: "unat addr \<notin> map_units mp"
  shows "rmget mp sz addr = KRet (0, mp)"
proof -
  obtain zs where "arr_segs (m_map mp) (map_segs mp) zs" using map_wf_arr [OF wf] by blast
  then obtain z zs' where m: "m_map mp = map_segs mp @ z # zs'" "m_size z = 0"
    "\<forall>e \<in> set (map_segs mp). m_size e \<noteq> 0" using arr_segs_obtain by (metis list.set_intros(1))
  have "\<not> (m_addr e \<le> addr \<and> addr < m_addr e + m_size e)" if "e \<in> set (map_segs mp)" for e
    using no that segs_wf_ok [OF map_wf_segs [OF wf] that] seg_holds_iff
    by (auto simp: map_units_def seg_units_iff)
  then have "rmget_scan (m_map mp) addr 0 = KRet (length (map_segs mp))"
    unfolding m(1) using m(2,3) by (intro rmget_scan_eq) auto
  moreover have "m_map mp ! length (map_segs mp) = z" unfolding m(1) by simp
  ultimately show ?thesis using sz m(2) by (simp add: rmget_def Let_def)
qed

text \<open>The map split at the segment that holds the requested address.\<close>

definition held_at ::
  "map_head \<Rightarrow> ulong_t \<Rightarrow> map_seg list \<Rightarrow> map_seg \<Rightarrow> map_seg list \<Rightarrow> map_seg list \<Rightarrow> bool"
where
  "held_at mp addr us e vs zs \<longleftrightarrow>
     map_segs mp = us @ e # vs \<and> arr_segs (m_map mp) (us @ e # vs) zs \<and>
     unat (m_addr e) \<le> unat addr \<and> unat addr < seg_end e"

lemma held_at_exists:
  assumes wf: "map_wf mp" and u: "unat addr \<in> map_units mp"
  shows "\<exists>us e vs zs. held_at mp addr us e vs zs"
proof -
  obtain zs where arr: "arr_segs (m_map mp) (map_segs mp) zs" using map_wf_arr [OF wf] by blast
  obtain e where e: "e \<in> set (map_segs mp)" "unat (m_addr e) \<le> unat addr" "unat addr < seg_end e"
    using u by (auto simp: map_units_def seg_units_iff)
  obtain us vs where "map_segs mp = us @ e # vs" using split_list [OF e(1)] by blast
  with arr e show ?thesis unfolding held_at_def by auto
qed

lemma rmget_at:
  assumes wf: "map_wf mp" and sz: "0 < sint sz" and h: "held_at mp addr us e vs zs"
  shows "rmget mp sz addr =
    (if m_addr e + m_size e < addr + sz then KRet (0, mp)
     else if m_addr e = addr then
       if m_size e = sz then
         kbind (shift_while (us @ e # vs @ zs) (length us)) (\<lambda>arr'.
              KRet (addr, mp\<lparr>m_map := arr', m_free := m_free mp + 1\<rparr>))
       else KRet (addr, mp\<lparr>m_map := us @ e\<lparr>m_addr := m_addr e + sz, m_size := m_size e - sz\<rparr> # vs @ zs\<rparr>)
     else if m_addr e + m_size e = addr + sz then
       KRet (addr, mp\<lparr>m_map := us @ e\<lparr>m_size := m_size e - sz\<rparr> # vs @ zs\<rparr>)
     else if m_free mp = 0 then KRet (0, mp)
     else if length zs \<le> 1 then KFault
     else KRet (addr, mp\<lparr>m_map := us @ e\<lparr>m_size := addr - m_addr e\<rparr> #
                 \<lparr>m_size = m_addr e + m_size e - (addr + sz), m_addr = addr + sz\<rparr> #
                 vs @ (zs ! 1)\<lparr>m_size := 0\<rparr> # drop 2 zs,
               m_free := m_free mp - 1\<rparr>))"
proof -
  have segs: "map_segs mp = us @ e # vs" and arr: "arr_segs (m_map mp) (us @ e # vs) zs"
    and in_e: "unat addr \<in> {unat (m_addr e) ..< seg_end e}" using h by (auto simp: held_at_def)
  have swf: "segs_wf (us @ e # vs)" using map_wf_segs [OF wf] segs by simp
  have ok: "seg_ok e" using swf by simp
  have m: "m_map mp = us @ e # vs @ zs" and nz: "\<forall>e \<in> set (us @ e # vs). m_size e \<noteq> 0"
    and zz: "zs \<noteq> []" "\<forall>e \<in> set zs. m_size e = 0"
    using arr by (auto simp: arr_segs_def)
  have "\<not> (m_addr x \<le> addr \<and> addr < m_addr x + m_size x)" if x: "x \<in> set us" for x
  proof -
    have "seg_ok x" "seg_end x < unat (m_addr e)" using swf x segs_wf_ok by auto
    then show ?thesis using in_e by (subst seg_holds_iff) auto
  qed
  moreover have "m_addr e \<le> addr \<and> addr < m_addr e + m_size e"
    using seg_holds_iff [OF ok] in_e by simp
  ultimately have scan: "rmget_scan (m_map mp) addr 0 = KRet (length us)"
    unfolding m using nz by (intro rmget_scan_eq) auto
  have nth: "m_map mp ! length us = e" unfolding m by simp
  have upd: "(m_map mp)[length us := x] = us @ x # vs @ zs" for x unfolding m by simp
  have e0: "m_size e \<noteq> 0" using nz by simp
  obtain z zs' where zs: "zs = z # zs'" using zz(1) by (meson list.exhaust)
  have fin: "map_end (m_map mp) (length us) = KRet (Suc (length us + length vs))"
  proof -
    have "\<forall>y \<in> set (e # vs). m_size y \<noteq> 0" "m_size z = 0" using nz zz(2) unfolding zs by simp_all
    from map_end_eq [OF this, of us zs'] show ?thesis unfolding m zs by simp
  qed
  have mid: "(if length (m_map mp) \<le> Suc (Suc (length us + length vs)) then KFault
     else KRet (addr, mp\<lparr>m_map :=
        (rmget_open ((m_map mp)[Suc (Suc (length us + length vs)) :=
             (m_map mp ! Suc (Suc (length us + length vs)))\<lparr>m_size := 0\<rparr>]) (length us)
               (Suc (length us + length vs) - 1))
          [Suc (length us) := x, length us := y], m_free := m_free mp - 1\<rparr>))
    = (if length zs \<le> 1 then KFault
       else KRet (addr, mp\<lparr>m_map := us @ y # x # vs @ (zs ! 1)\<lparr>m_size := 0\<rparr> # drop 2 zs,
               m_free := m_free mp - 1\<rparr>))" for x y
  proof (cases zs')
    case Nil
    then show ?thesis unfolding m zs by simp
  next
    case (Cons z1 zs1)
    have "(m_map mp)[Suc (Suc (length us + length vs)) :=
             (m_map mp ! Suc (Suc (length us + length vs)))\<lparr>m_size := 0\<rparr>]
        = us @ e # vs @ z # z1\<lparr>m_size := 0\<rparr> # zs1"
      unfolding m zs Cons by (simp add: nth_append list_update_append)
    then show ?thesis unfolding m zs Cons by (simp add: rmget_open_eq)
  qed
  have pos: "\<not> sint sz \<le> 0" using sz by simp
  show ?thesis
    unfolding rmget_def scan kbind.simps Let_def nth upd fin mid if_not_P [OF pos] if_not_P [OF e0]
    unfolding m ..
qed

text \<open>What a call that takes the range has to establish.\<close>

definition taken_ok :: "map_head \<Rightarrow> size_t \<Rightarrow> ulong_t \<Rightarrow> map_head \<Rightarrow> bool" where
  "taken_ok mp sz addr mp' \<longleftrightarrow> map_wf mp' \<and>
     map_units mp' = map_units mp - seg_range addr sz \<and> same_head mp mp'"

lemma taken_okI:
  assumes wf: "map_wf mp" and arr: "arr_segs arr xs zs" and xs: "segs_wf xs"
    and len: "length arr = length (m_map mp)"
    and cnt: "unat f + length xs = unat (m_nslots mp)"
    and units: "seg_units xs = map_units mp - seg_range addr sz"
  shows "taken_ok mp sz addr (mp\<lparr>m_map := arr, m_free := f\<rparr>)"
  using map_wf_done [OF wf arr xs len cnt] units
  by (simp add: taken_ok_def map_units_def same_head_def)

text \<open>
  A segment \<open>e\<close> of the map replaced by the pieces \<open>ps\<close> left of it once the range is taken out.
\<close>

lemma pieces_units:
  assumes swf: "segs_wf (us @ e # vs)" and ps: "segs_wf ps"
    and bnd: "\<forall>p \<in> set ps. unat (m_addr e) \<le> unat (m_addr p) \<and> seg_end p \<le> seg_end e"
    and pu: "seg_units ps = {unat (m_addr e) ..< seg_end e} - seg_range addr sz"
    and in_e: "unat (m_addr e) \<le> unat addr" "unat addr + unat sz \<le> seg_end e"
  shows "segs_wf (us @ ps @ vs)"
    "seg_units (us @ ps @ vs) = seg_units (us @ e # vs) - seg_range addr sz"
proof -
  have u: "\<forall>x \<in> set us. seg_end x < unat (m_addr e)" and v: "\<forall>x \<in> set vs. seg_end e < unat (m_addr x)"
    using swf by auto
  show "segs_wf (us @ ps @ vs)" using swf ps bnd u v by fastforce
  have "seg_units us \<inter> seg_range addr sz = {}" "seg_units vs \<inter> seg_range addr sz = {}"
    using u v in_e by (fastforce simp: seg_units_iff seg_range_def)+
  then show "seg_units (us @ ps @ vs) = seg_units (us @ e # vs) - seg_range addr sz"
    using pu by auto
qed

lemma held_at_fits:
  assumes wf: "map_wf mp" and sz: "sz \<noteq> 0" and sub: "seg_range addr sz \<subseteq> map_units mp"
    and h: "held_at mp addr us e vs zs"
  shows "unat addr + unat sz \<le> seg_end e"
proof -
  have segs: "map_segs mp = us @ e # vs" and in_e: "unat (m_addr e) \<le> unat addr" "unat addr < seg_end e"
    using h by (auto simp: held_at_def)
  have swf: "segs_wf (us @ e # vs)" using map_wf_segs [OF wf] segs by simp
  have "0 < unat sz" using sz by (simp add: unat_pos_iff)
  then obtain f where f: "f \<in> set (us @ e # vs)" "unat (m_addr f) \<le> unat addr"
      "unat addr + unat sz \<le> seg_end f"
    using seg_units_run [OF swf, of "unat sz" "unat addr"] sub segs
    by (auto simp: seg_range_def map_units_def)
  have "e \<in> set (us @ e # vs)" by simp
  from segs_wf_separated [OF swf this f(1)] f in_e have "f = e" by auto
  with f show ?thesis by simp
qed

lemma rmget_pieces:
  assumes wf: "map_wf mp" and h: "held_at mp addr us e vs zs" and fits: "unat addr + unat sz \<le> seg_end e"
    and arr: "arr_segs arr (us @ ps @ vs) zs'" and len: "length arr = length (m_map mp)"
    and cnt: "unat f + length ps = unat (m_free mp) + 1" and ps: "segs_wf ps"
    and bnd: "\<forall>p \<in> set ps. unat (m_addr e) \<le> unat (m_addr p) \<and> seg_end p \<le> seg_end e"
    and pu: "seg_units ps = {unat (m_addr e) ..< seg_end e} - seg_range addr sz"
  shows "taken_ok mp sz addr (mp\<lparr>m_map := arr, m_free := f\<rparr>)"
proof -
  have segs: "map_segs mp = us @ e # vs" and in_e: "unat (m_addr e) \<le> unat addr"
    using h by (auto simp: held_at_def)
  have swf: "segs_wf (us @ e # vs)" using map_wf_segs [OF wf] segs by simp
  note pc = pieces_units [OF swf ps bnd pu in_e fits]
  have "unat f + length (us @ ps @ vs) = unat (m_nslots mp)"
    using wf segs cnt by (simp add: map_wf_def)
  then show ?thesis
    using taken_okI [OF wf arr pc(1) len] pc(2) segs by (simp add: map_units_def)
qed

text \<open>What the four ways of taking the range have in common.\<close>

lemma held_at_facts:
  assumes wf: "map_wf mp" and h: "held_at mp addr us e vs zs"
    and fits: "unat addr + unat sz \<le> seg_end e"
  shows "seg_ok e" "m_map mp = us @ e # vs @ zs" "zs \<noteq> []"
    "\<forall>x \<in> set (us @ e # vs). m_size x \<noteq> 0" "\<forall>x \<in> set zs. m_size x = 0"
    "\<not> m_addr e + m_size e < addr + sz"
    "m_addr e + m_size e = addr + sz \<longleftrightarrow> seg_end e = unat addr + unat sz"
    "length (us @ e # vs) + unat (m_free mp) < length (m_map mp)"
proof -
  have segs: "map_segs mp = us @ e # vs" and arr: "arr_segs (m_map mp) (us @ e # vs) zs"
    using h by (auto simp: held_at_def)
  have swf: "segs_wf (us @ e # vs)" using map_wf_segs [OF wf] segs by simp
  then show ok: "seg_ok e" by simp
  show "m_map mp = us @ e # vs @ zs" "zs \<noteq> []"
    "\<forall>x \<in> set (us @ e # vs). m_size x \<noteq> 0" "\<forall>x \<in> set zs. m_size x = 0"
    using arr by (auto simp: arr_segs_def)
  have w: "unat (m_addr e + m_size e) = seg_end e" by (rule seg_end_word [OF ok])
  have s: "unat (addr + sz) = unat addr + unat sz"
    using fits seg_ok_bounds(3) [OF ok] by (intro unat_add_no_wrap) simp
  show "\<not> m_addr e + m_size e < addr + sz" using w s fits by (simp add: word_less_nat_alt)
  show "m_addr e + m_size e = addr + sz \<longleftrightarrow> seg_end e = unat addr + unat sz"
    using w s by (simp add: word_unat_eq_iff)
  show "length (us @ e # vs) + unat (m_free mp) < length (m_map mp)"
    using wf segs by (simp add: map_wf_def)
qed

lemma rmget_whole:
  assumes wf: "map_wf mp" and sz: "0 < sint sz" and h: "held_at mp addr us e vs zs"
    and fits: "unat addr + unat sz \<le> seg_end e" and e: "m_addr e = addr" "m_size e = sz"
  shows "\<exists>mp'. rmget mp sz addr = KRet (addr, mp') \<and> taken_ok mp sz addr mp'"
proof -
  note f = held_at_facts [OF wf h fits]
  obtain z zs' where zs: "zs = z # zs'" using f(3) by (meson list.exhaust)
  have "shift_while (us @ e # vs @ z # zs') (length us) = KRet (us @ vs @ z # z # zs')"
    using f(4,5) unfolding zs by (intro shift_while_eq) auto
  then have run: "rmget mp sz addr = KRet (addr, mp\<lparr>m_map := us @ vs @ z # z # zs', m_free := m_free mp + 1\<rparr>)"
    unfolding rmget_at [OF wf sz h] zs if_not_P [OF f(6)] using e by simp
  have ne: "map_segs mp \<noteq> []" using h by (simp add: held_at_def)
  have "taken_ok mp sz addr (mp\<lparr>m_map := us @ vs @ z # z # zs', m_free := m_free mp + 1\<rparr>)"
  proof (rule rmget_pieces [OF wf h fits, where ps = "[]" and zs' = "z # z # zs'"])
    show "arr_segs (us @ vs @ z # z # zs') (us @ [] @ vs) (z # z # zs')"
      using f(4,5) by (auto simp: arr_segs_def zs)
    show "unat (m_free mp + 1) + length [] = unat (m_free mp) + 1"
      using map_wf_free_up [OF wf ne] by simp
  qed (use e in \<open>auto simp: f(2) zs seg_end_def seg_range_def\<close>)
  with run show ?thesis by blast
qed

lemma rmget_front:
  assumes wf: "map_wf mp" and sz: "0 < sint sz" and h: "held_at mp addr us e vs zs"
    and fits: "unat addr + unat sz \<le> seg_end e" and e: "m_addr e = addr" "m_size e \<noteq> sz"
  shows "\<exists>mp'. rmget mp sz addr = KRet (addr, mp') \<and> taken_ok mp sz addr mp'"
proof -
  note f = held_at_facts [OF wf h fits]
  have "unat sz \<le> unat (m_size e)" using fits e by (simp add: seg_end_def)
  then have lt: "sz < m_size e" using e(2) by (simp add: word_unat_eq_iff word_less_nat_alt)
  let ?p = "e\<lparr>m_addr := m_addr e + sz, m_size := m_size e - sz\<rparr>"
  note t = seg_trim [OF f(1) lt sint_pos_nonzero [OF sz]]
  have run: "rmget mp sz addr = KRet (addr, mp\<lparr>m_map := us @ ?p # vs @ zs, m_free := m_free mp\<rparr>)"
    unfolding rmget_at [OF wf sz h] if_not_P [OF f(6)] using e by simp
  have "taken_ok mp sz addr (mp\<lparr>m_map := us @ ?p # vs @ zs, m_free := m_free mp\<rparr>)"
  proof (rule rmget_pieces [OF wf h fits, where ps = "[?p]" and zs' = zs])
    show "arr_segs (us @ ?p # vs @ zs) (us @ [?p] @ vs) zs"
      using f(3-5) t(4) by (auto simp: arr_segs_def)
  qed (use e t in \<open>auto simp: f(2) seg_range_def\<close>)
  with run show ?thesis by blast
qed

lemma rmget_back:
  assumes wf: "map_wf mp" and sz: "0 < sint sz" and h: "held_at mp addr us e vs zs"
    and fits: "seg_end e = unat addr + unat sz" and e: "m_addr e \<noteq> addr"
  shows "\<exists>mp'. rmget mp sz addr = KRet (addr, mp') \<and> taken_ok mp sz addr mp'"
proof -
  have le: "unat addr + unat sz \<le> seg_end e" using fits by simp
  note f = held_at_facts [OF wf h le]
  have lo: "unat (m_addr e) < unat addr"
    using h e by (auto simp: held_at_def word_unat_eq_iff)
  then have sub: "unat (m_size e - sz) = unat (m_size e) - unat sz"
    using fits by (intro unat_sub_le) (simp add: seg_end_def word_le_nat_alt)
  let ?p = "e\<lparr>m_size := m_size e - sz\<rparr>"
  have end_p: "seg_end ?p = unat addr" using sub fits lo by (simp add: seg_end_def)
  have "0 < unat (m_size ?p)" using sub fits lo by (simp add: seg_end_def)
  then have nz: "m_size ?p \<noteq> 0" by (simp add: unat_pos_iff)
  have okp: "seg_ok ?p" using f(1) end_p nz unat_bound [of addr] by (simp add: seg_ok_def)
  have run: "rmget mp sz addr = KRet (addr, mp\<lparr>m_map := us @ ?p # vs @ zs, m_free := m_free mp\<rparr>)"
    unfolding rmget_at [OF wf sz h] if_not_P [OF f(6)] f(7) using e fits by simp
  have "taken_ok mp sz addr (mp\<lparr>m_map := us @ ?p # vs @ zs, m_free := m_free mp\<rparr>)"
  proof (rule rmget_pieces [OF wf h le, where ps = "[?p]" and zs' = zs])
    show "arr_segs (us @ ?p # vs @ zs) (us @ [?p] @ vs) zs"
      using f(3-5) nz by (auto simp: arr_segs_def)
  qed (use e okp fits lo end_p in \<open>auto simp: f(2) seg_range_def\<close>)
  with run show ?thesis by blast
qed

lemma seg_cut:
  assumes ok: "seg_ok e" and lo: "unat (m_addr e) < unat addr"
    and hi: "unat addr + unat sz < seg_end e" and sz: "0 < unat sz"
  defines "p \<equiv> e\<lparr>m_size := addr - m_addr e\<rparr>"
    and "q \<equiv> \<lparr>m_size = m_addr e + m_size e - (addr + sz), m_addr = addr + sz\<rparr>"
  shows "segs_wf [p, q]" "seg_end p = unat addr" "unat (m_addr q) = unat addr + unat sz"
    "seg_end q = seg_end e" "m_size p \<noteq> 0" "m_size q \<noteq> 0"
proof -
  have bnd: "seg_end e < 2 ^ 64" by (rule seg_ok_bounds(3) [OF ok])
  have s: "unat (addr + sz) = unat addr + unat sz" using hi bnd by (intro unat_add_no_wrap) simp
  have w: "unat (m_addr e + m_size e) = seg_end e" by (rule seg_end_word [OF ok])
  have a: "unat (addr - m_addr e) = unat addr - unat (m_addr e)"
    using lo by (intro unat_sub_le) (simp add: word_le_nat_alt)
  have b: "unat (m_addr e + m_size e - (addr + sz)) = seg_end e - (unat addr + unat sz)"
    using hi s w by (subst unat_sub_le) (simp_all add: word_le_nat_alt)
  show p: "seg_end p = unat addr" using a lo by (simp add: p_def seg_end_def)
  show q: "unat (m_addr q) = unat addr + unat sz" using s by (simp add: q_def)
  show r: "seg_end q = seg_end e" using b s hi unfolding seg_end_def [of q] by (simp add: q_def)
  show pn: "m_size p \<noteq> 0" using a lo unat_pos_iff [of "m_size p"] by (simp add: p_def)
  show qn: "m_size q \<noteq> 0" using b hi unat_pos_iff [of "m_size q"] by (simp add: q_def)
  have "m_addr q \<noteq> 0" using q sz unat_pos_iff [of "m_addr q"] by simp
  then have "seg_ok p" "seg_ok q" using pn qn p r bnd ok unat_bound [of addr]
    by (auto simp: seg_ok_def p_def)
  then show "segs_wf [p, q]" using p q sz by simp
qed

lemma rmget_middle:
  assumes wf: "map_wf mp" and sz: "0 < sint sz" and h: "held_at mp addr us e vs zs"
    and fits: "unat addr + unat sz < seg_end e" and e: "m_addr e \<noteq> addr" and room: "m_free mp \<noteq> 0"
  shows "\<exists>mp'. rmget mp sz addr = KRet (addr, mp') \<and> taken_ok mp sz addr mp'"
proof -
  have le: "unat addr + unat sz \<le> seg_end e" using fits by simp
  note f = held_at_facts [OF wf h le]
  have lo: "unat (m_addr e) < unat addr"
    using h e by (auto simp: held_at_def word_unat_eq_iff)
  have sz0: "0 < unat sz" using sint_pos_nonzero [OF sz] by (simp add: unat_pos_iff)
  note c = seg_cut [OF f(1) lo fits sz0]
  have fr: "0 < unat (m_free mp)" using room by (simp add: unat_pos_iff)
  then have z2: "\<not> length zs \<le> 1" using f(8) unfolding f(2) by simp
  let ?p = "e\<lparr>m_size := addr - m_addr e\<rparr>"
  let ?q = "\<lparr>m_size = m_addr e + m_size e - (addr + sz), m_addr = addr + sz\<rparr>"
  let ?z = "(zs ! 1)\<lparr>m_size := 0\<rparr> # drop 2 zs"
  let ?arr = "us @ ?p # ?q # vs @ ?z"
  have run: "rmget mp sz addr = KRet (addr, mp\<lparr>m_map := ?arr, m_free := m_free mp - 1\<rparr>)"
    unfolding rmget_at [OF wf sz h] if_not_P [OF f(6)] f(7) using e fits room z2 by simp
  have "taken_ok mp sz addr (mp\<lparr>m_map := ?arr, m_free := m_free mp - 1\<rparr>)"
  proof (rule rmget_pieces [OF wf h le, where ps = "[?p, ?q]" and zs' = ?z])
    have "\<forall>x \<in> set (drop 2 zs). m_size x = 0" using f(5) set_drop_subset by fast
    then show "arr_segs ?arr (us @ [?p, ?q] @ vs) ?z"
      using f(4) c(5,6) by (auto simp: arr_segs_def)
    show "length ?arr = length (m_map mp)" using z2 by (simp add: f(2))
    show "unat (m_free mp - 1) + length [?p, ?q] = unat (m_free mp) + 1"
      using unat_minus_one [OF room] fr by simp
    show "segs_wf [?p, ?q]" by (rule c(1))
    show "\<forall>p \<in> set [?p, ?q]. unat (m_addr e) \<le> unat (m_addr p) \<and> seg_end p \<le> seg_end e"
      using c(2-4) lo fits by auto
    show "seg_units [?p, ?q] = {unat (m_addr e) ..< seg_end e} - seg_range addr sz"
      using c(2-4) lo fits sz0 by (auto simp: seg_range_def)
  qed
  with run show ?thesis by blast
qed

text \<open>A range that lies strictly inside a segment splits it in two.\<close>

definition splits_segment :: "map_head \<Rightarrow> size_t \<Rightarrow> ulong_t \<Rightarrow> bool" where
  "splits_segment mp sz addr \<longleftrightarrow>
     (\<exists>e \<in> set (map_segs mp). unat (m_addr e) < unat addr \<and> unat addr + unat sz < seg_end e)"

lemma rmget_free_range:
  assumes wf: "map_wf mp" and sz: "0 < sint sz" and sub: "seg_range addr sz \<subseteq> map_units mp"
  obtains us e vs zs where "held_at mp addr us e vs zs" "unat addr + unat sz \<le> seg_end e"
    "splits_segment mp sz addr \<longleftrightarrow> m_addr e \<noteq> addr \<and> unat addr + unat sz < seg_end e"
proof -
  have sz0: "sz \<noteq> 0" by (rule sint_pos_nonzero [OF sz])
  then have "unat addr \<in> map_units mp" using sub unat_pos_iff [of sz] by (auto simp: seg_range_def)
  then obtain us e vs zs where h: "held_at mp addr us e vs zs" using held_at_exists [OF wf] by blast
  have in_e: "unat (m_addr e) \<le> unat addr" "unat addr < seg_end e" and e: "e \<in> set (map_segs mp)"
    using h by (auto simp: held_at_def)
  have "f = e" if "f \<in> set (map_segs mp)" "unat (m_addr f) < unat addr" "unat addr + unat sz < seg_end f" for f
    using segs_wf_separated [OF map_wf_segs [OF wf] e that(1)] that in_e by auto
  then have "splits_segment mp sz addr \<longleftrightarrow> m_addr e \<noteq> addr \<and> unat addr + unat sz < seg_end e"
    using e in_e unfolding splits_segment_def by (metis le_neq_implies_less less_irrefl word_unat_eq_iff)
  with that h held_at_fits [OF wf sz0 sub h] show thesis by blast
qed

lemma rmget_found:
  assumes wf: "map_wf mp" and sz: "0 < sint sz" and sub: "seg_range addr sz \<subseteq> map_units mp"
    and room: "m_free mp \<noteq> 0 \<or> \<not> splits_segment mp sz addr"
  shows "\<exists>mp'. rmget mp sz addr = KRet (addr, mp') \<and> taken_ok mp sz addr mp'"
proof -
  obtain us e vs zs where h: "held_at mp addr us e vs zs" and fits: "unat addr + unat sz \<le> seg_end e"
    and s: "splits_segment mp sz addr \<longleftrightarrow> m_addr e \<noteq> addr \<and> unat addr + unat sz < seg_end e"
    using rmget_free_range [OF wf sz sub] .
  show ?thesis
    using rmget_whole [OF wf sz h fits] rmget_front [OF wf sz h fits] rmget_back [OF wf sz h]
      rmget_middle [OF wf sz h] fits room s by (metis le_neq_implies_less)
qed

lemma rmget_no_slot:
  assumes wf: "map_wf mp" and sz: "0 < sint sz" and sub: "seg_range addr sz \<subseteq> map_units mp"
    and room: "m_free mp = 0" "splits_segment mp sz addr"
  shows "rmget mp sz addr = KRet (0, mp)"
proof -
  obtain us e vs zs where h: "held_at mp addr us e vs zs" and fits: "unat addr + unat sz \<le> seg_end e"
    and s: "splits_segment mp sz addr \<longleftrightarrow> m_addr e \<noteq> addr \<and> unat addr + unat sz < seg_end e"
    using rmget_free_range [OF wf sz sub] .
  note f = held_at_facts [OF wf h fits]
  have "m_addr e \<noteq> addr" "m_addr e + m_size e \<noteq> addr + sz" using room s f(7) by auto
  then show ?thesis unfolding rmget_at [OF wf sz h] using room(1) by simp
qed

lemma rmget_refused:
  assumes wf: "map_wf mp" and sz: "0 < sint sz" and nw: "unat addr + unat sz < 2 ^ 64"
    and sub: "\<not> seg_range addr sz \<subseteq> map_units mp"
  shows "rmget mp sz addr = KRet (0, mp)"
proof (cases "unat addr \<in> map_units mp")
  case False
  then show ?thesis using rmget_miss [OF wf sz] by simp
next
  case True
  then obtain us e vs zs where h: "held_at mp addr us e vs zs" using held_at_exists [OF wf] by blast
  have segs: "map_segs mp = us @ e # vs" and in_e: "unat (m_addr e) \<le> unat addr" using h by (auto simp: held_at_def)
  have ok: "seg_ok e" using map_wf_segs [OF wf] segs by simp
  have "seg_end e < unat addr + unat sz"
  proof (rule ccontr)
    assume "\<not> ?thesis"
    then have "seg_range addr sz \<subseteq> map_units mp" using in_e segs
      by (auto simp: seg_range_def map_units_def)
    with sub show False by simp
  qed
  then have "m_addr e + m_size e < addr + sz"
    using seg_end_word [OF ok] unat_add_no_wrap [of addr sz] nw by (simp add: word_less_nat_alt)
  then show ?thesis unfolding rmget_at [OF wf sz h] by simp
qed

section \<open>The whole of \<open>rmfree\<close> on a range that is not free\<close>

lemma rmfree_overflow_single:
  assumes wf: "map_wf mp" and sp: "split_at mp addr ls rs zs" and one: "length (map_segs mp) < 2"
  shows "rmfree_overflow mp (length ls) = KFault"
proof -
  have arr: "arr_segs (m_map mp) (ls @ rs) zs" and segs: "map_segs mp = ls @ rs"
    using sp by (auto simp: split_at_def)
  obtain z zs' where "m_map mp = ls @ rs @ z # zs'" "m_size z = 0" "\<forall>e \<in> set rs. m_size e \<noteq> 0"
    using arr by (cases zs) (auto simp: arr_segs_def)
  then have "map_end (m_map mp) (length ls) = KRet (length (ls @ rs))"
    by (simp add: map_end_eq)
  then show ?thesis using one segs by (simp add: rmfree_overflow_def)
qed

lemma rmfree_loop_single:
  assumes wf: "map_wf mp" and ret: "returnable mp sz addr"
    and full: "m_free mp = 0" "\<not> abuts mp sz addr" and one: "length (map_segs mp) < 2"
  shows "rmfree_loop mp sz addr = KFault"
proof -
  obtain ls rs zs where sp: "split_at mp addr ls rs zs" using split_at_exists [OF wf] by blast
  have "rmfree_pass mp sz addr = KFault"
    using rmfree_pass_returnable [OF wf ret sp] full rmfree_overflow_single [OF wf sp one] by simp
  then show ?thesis by (simp add: rmfree_loop.simps [of mp])
qed

lemma rmfree_loop_cases:
  assumes wf: "map_wf mp" and ret: "returnable mp sz addr"
  shows "(\<exists>mp'. rmfree_loop mp sz addr = KRet mp' \<and> map_wf mp' \<and> same_head mp mp' \<and>
            map_units mp' \<subseteq> map_units mp \<union> seg_range addr sz) \<or>
         rmfree_loop mp sz addr = KFault \<and> unat (m_nslots mp) < 2"
proof (cases "m_free mp \<noteq> 0 \<or> abuts mp sz addr")
  case True
  then show ?thesis using rmfree_loop_done [OF wf ret] by (auto simp: freed_ok_def)
next
  case False
  show ?thesis
  proof (cases "2 \<le> length (map_segs mp)")
    case True
    then show ?thesis using rmfree_loop_overflow(2) [OF wf ret _ _ True] False by blast
  next
    case few: False
    moreover have "unat (m_nslots mp) < 2" using few False wf by (simp add: map_wf_def)
    ultimately show ?thesis using rmfree_loop_single [OF wf ret] False by simp
  qed
qed

lemma rmfree_pass_overlap:
  assumes wf: "map_wf mp" and nw: "unat addr + unat sz < 2 ^ 64"
    and ov: "seg_range addr sz \<inter> map_units mp \<noteq> {}"
  shows "rmfree_pass mp sz addr = KPanic ''bad rmfree''"
proof -
  obtain ls rs zs where sp: "split_at mp addr ls rs zs" using split_at_exists [OF wf] by blast
  have segs: "map_segs mp = ls @ rs" and zs: "zs \<noteq> []"
    and ls: "\<forall>e \<in> set ls. m_addr e \<le> addr" and rs: "\<forall>e \<in> set rs. addr < m_addr e"
    using sp by (auto simp: split_at_def arr_segs_def)
  have swf: "segs_wf (ls @ rs)" using map_wf_segs [OF wf] segs by simp
  have sum: "unat (addr + sz) = unat addr + unat sz" using nw by (intro unat_add_no_wrap) simp
  obtain u where "u \<in> seg_range addr sz" "u \<in> seg_units (ls @ rs)"
    using ov segs unfolding map_units_def by auto
  then obtain e where e: "e \<in> set (ls @ rs)" "unat (m_addr e) < unat addr + unat sz" "unat addr < seg_end e"
    unfolding seg_units_iff seg_range_def using that by (metis atLeastLessThan_iff le_less_trans)
  show ?thesis
  proof (cases "e \<in> set ls")
    case True
    then have ne: "ls \<noteq> []" by auto
    have l: "seg_ok (last ls)" using swf ne by (intro segs_wf_ok [of ls]) simp_all
    have "seg_end e \<le> seg_end (last ls)"
      using swf True ne seg_ok_bounds [OF l] by (cases ls rule: rev_cases) (auto dest!: less_imp_le_nat)
    then have lt: "addr < m_addr (last ls) + m_size (last ls)"
      using e(3) seg_end_word [OF l] by (simp add: word_less_nat_alt)
    then have "addr \<le> m_addr (last ls) + m_size (last ls)" by simp
    then show ?thesis using ne lt unfolding rmfree_pass_at [OF sp] Let_def by simp
  next
    case False
    then have er: "e \<in> set rs" using e(1) by simp
    then obtain r rs' where r: "rs = r # rs'" by (cases rs) auto
    have ok: "seg_ok r" using swf r by simp
    have "unat (m_addr r) \<le> unat (m_addr e)"
      using swf er seg_ok_bounds [OF ok] unfolding r by (auto simp: seg_end_def)
    then have lt: "m_addr r < addr + sz" using e(2) sum by (simp add: word_less_nat_alt)
    have "m_addr r \<le> addr + sz" "m_size r \<noteq> 0" using ok lt by (auto simp: seg_ok_def)
    then show ?thesis unfolding rmfree_pass_at [OF sp] Let_def r
      by (simp only: append_Cons list.sel lt simp_thms if_True if_cancel)
  qed
qed

section \<open>Allocation, and what it gives back\<close>

lemma rmalloc_spec:
  assumes wf: "map_wf mp" and sz: "sz \<noteq> 0"
  shows "\<exists>a mp'. rmalloc mp sz = KRet (a, mp') \<and> map_wf mp' \<and> same_head mp mp' \<and>
     (if a = 0 then mp' = mp \<and> (\<forall>b. \<not> {b ..< b + unat sz} \<subseteq> map_units mp)
      else first_fit sz (map_segs mp) = Some (a, map_segs mp') \<and>
        unat a + unat sz < 2 ^ 64 \<and> seg_range a sz \<subseteq> map_units mp \<and>
        map_units mp' = map_units mp - seg_range a sz \<and>
        (\<forall>b. {b ..< b + unat sz} \<subseteq> map_units mp \<longrightarrow> unat a \<le> b))"
proof (cases "first_fit sz (map_segs mp)")
  case None
  then show ?thesis
    using rmalloc_locked_refines [OF wf sz] first_fit_None_units [OF map_wf_segs [OF wf] sz] wf
    by (auto simp: rmalloc_def same_head_def map_units_def)
next
  case (Some p)
  obtain a xs where p: "first_fit sz (map_segs mp) = Some (a, xs)" using Some by (cases p) auto
  then show ?thesis
    using rmalloc_locked_refines [OF wf sz] first_fit_units [OF map_wf_segs [OF wf] p sz]
    by (auto simp: rmalloc_def map_units_def)
qed

lemma map_wf_same_segs:
  assumes "map_wf a" "map_wf b" "m_nslots a = m_nslots b" "map_units a = map_units b"
  shows "map_segs a = map_segs b" "m_free a = m_free b"
proof -
  show s: "map_segs a = map_segs b"
    using assms by (intro seg_units_inj) (simp_all add: map_wf_segs map_units_def)
  show "m_free a = m_free b" using assms s by (simp add: map_wf_def word_unat_eq_iff)
qed

text \<open>A segment just taken by first fit fits back: a slot is free, or the rest of it abuts.\<close>

lemma first_fit_room:
  assumes wf: "map_wf mp" "map_wf mp'" "m_nslots mp' = m_nslots mp"
    and ff: "first_fit sz (map_segs mp) = Some (a, map_segs mp')" and sz: "sz \<noteq> 0"
  shows "m_free mp' \<noteq> 0 \<or> abuts mp' sz a"
proof -
  from first_fit_Some [OF ff] obtain us e vs where
    e: "map_segs mp = us @ e # vs" "a = m_addr e" "sz \<le> m_size e"
    and s': "map_segs mp' = us @ (if m_size e = sz then vs
                else e\<lparr>m_addr := m_addr e + sz, m_size := m_size e - sz\<rparr> # vs)" by blast
  have ok: "seg_ok e" using map_wf_segs [OF wf(1)] e(1) by simp
  show ?thesis
  proof (cases "m_size e = sz")
    case True
    then have "length (map_segs mp') < length (map_segs mp)" using e(1) s' by simp
    then have "0 < unat (m_free mp')" using wf by (simp add: map_wf_def)
    then show ?thesis by (simp add: unat_pos_iff)
  next
    case False
    then have "sz < m_size e" using e(3) by simp
    from seg_trim(2) [OF ok this sz] False e(2) s' show ?thesis by (auto simp: abuts_def)
  qed
qed

lemma rmalloc_rmfree:
  assumes wf: "map_wf mp" and sz: "0 < sint sz" and al: "rmalloc mp sz = KRet (a, mp1)" and a: "a \<noteq> 0"
  shows "\<exists>mp2. rmfree mp1 sz a = KRet mp2 \<and> map_segs mp2 = map_segs mp \<and> m_free mp2 = m_free mp"
proof -
  have sz0: "sz \<noteq> 0" by (rule sint_pos_nonzero [OF sz])
  have wf1: "map_wf mp1" and hd1: "same_head mp mp1"
    and ff: "first_fit sz (map_segs mp) = Some (a, map_segs mp1)"
    and nw: "unat a + unat sz < 2 ^ 64" and sub: "seg_range a sz \<subseteq> map_units mp"
    and un: "map_units mp1 = map_units mp - seg_range a sz"
    using rmalloc_spec [OF wf sz0] al a by auto
  have ret: "returnable mp1 sz a" using a sz0 nw un by (auto simp: returnable_def)
  have ns: "m_nslots mp1 = m_nslots mp" using hd1 by (simp add: same_head_def)
  obtain mp2 where mp2: "rmfree_loop mp1 sz a = KRet mp2" "freed_ok mp1 sz a mp2"
    using rmfree_loop_done [OF wf1 ret first_fit_room [OF wf wf1 ns ff sz0]] by blast
  then have "map_wf mp2" "m_nslots mp2 = m_nslots mp" "map_units mp2 = map_units mp"
    using ns un sub by (auto simp: freed_ok_def same_head_def)
  then show ?thesis
    using rmfree_woken [OF a sz mp2(1)] map_wf_same_segs [OF _ wf] by auto
qed

section \<open>New maps\<close>

lemma MAP_OVERHEAD_eq: "MAP_OVERHEAD = 5"
  by (simp add: MAP_OVERHEAD_def sizeof_map_def sizeof_map_head_def)

lemma map_slots_eq:
  assumes "unat n < 2 ^ 31"
  shows "map_slots (n + of_nat MAP_OVERHEAD) = unat n + 2"
proof -
  have "unat (n + 5) = unat n + unat (5 :: size_t)"
    using assms by (intro unat_add_no_wrap) simp
  then have a: "unat (n + 5) = unat n + 5" by simp
  have "unat ((n + 5) * 16) = unat (n + 5) * unat (16 :: size_t)"
    using assms a by (subst unat_mult_lem [symmetric]) simp
  then show ?thesis using a
    by (simp add: map_slots_def MAP_OVERHEAD_eq sizeof_map_def sizeof_map_head_def)
qed

text \<open>A new map is empty, has the slots asked for, and is freed with the size it was allocated with.\<close>

lemma mapinit_new:
  assumes n: "0 < unat n" "unat n < 2 ^ 31"
  defines "m \<equiv> n + of_nat MAP_OVERHEAD"
  shows "\<exists>mp. mapinit (replicate (map_slots m) \<lparr>m_size = 0, m_addr = 0\<rparr>) 0 0 0 ''rmallocmap'' m = KRet mp \<and>
     map_wf mp \<and> map_segs mp = [] \<and> unat (m_nslots mp) = unat n \<and>
     rmfreemap mp = unat (m * of_nat sizeof_map)"
proof -
  have "unat (n + 5) = unat n + unat (5 :: size_t)" using n by (intro unat_add_no_wrap) simp
  then have a: "unat m = unat n + 5" by (simp add: m_def MAP_OVERHEAD_eq)
  have sub: "m - of_nat MAP_OVERHEAD = n" by (simp add: m_def)
  have u: "unat (ucast n :: int32_t) = unat n" using n(2) by (intro unat_ucast_small) simp
  have sc: "(scast (ucast n :: int32_t) :: size_t) = n"
    using sint_small [of "ucast n :: int32_t"] n(2) u by (simp add: scast_eq word_unat_eq_iff)
  obtain zs where zs: "replicate (map_slots m) \<lparr>m_size = 0, m_addr = 0\<rparr> = \<lparr>m_size = 0, m_addr = 0\<rparr> # zs"
      "\<forall>e \<in> set zs. m_size e = 0" "length zs = unat n + 1"
    using map_slots_eq [OF n(2)] by (simp add: m_def)
  let ?mp = "\<lparr>m_free = ucast n, m_want = 0, m_nam = ''rmallocmap'', m_nslots = ucast n,
              m_map = \<lparr>m_size = 0, m_addr = 0\<rparr> # zs, m_cv = 0\<rparr>"
  have "\<not> unat m < MAP_OVERHEAD + 1" using n a by (simp add: MAP_OVERHEAD_eq)
  then have run: "mapinit (\<lparr>m_size = 0, m_addr = 0\<rparr> # zs) 0 0 0 ''rmallocmap'' m = KRet ?mp"
    unfolding mapinit_def sub Let_def by (simp only: if_False list.distinct list_update_code simp_thms)
  have segs: "map_segs ?mp = []" by (simp add: map_segs_def)
  have "map_wf ?mp" unfolding map_wf_def segs using u zs(2,3) by (simp add: segs_wf_def list_all_iff)
  moreover have "rmfreemap ?mp = unat (m * of_nat sizeof_map)"
    unfolding rmfreemap_def m_def map_head.select_convs sc by (simp only: add.commute)
  ultimately show ?thesis unfolding zs(1) run using segs u by auto
qed

section \<open>The contract of a range allocator\<close>

text \<open>
  What the clients of a resource map rely on, and the argument they share: the ranges handed
  out and not yet returned stay apart from each other and from the free units.
\<close>

definition ranges_live :: "nat set \<Rightarrow> (ulong_t \<times> size_t) list \<Rightarrow> bool" where
  "ranges_live U rs \<longleftrightarrow>
     (\<forall>(a, n) \<in> set rs. a \<noteq> 0 \<and> n \<noteq> 0 \<and> unat a + unat n < 2 ^ 64 \<and> seg_range a n \<inter> U = {}) \<and>
     sorted_wrt (\<lambda>(a, n) (b, k). seg_range a n \<inter> seg_range b k = {}) rs"

lemma ranges_live_Cons:
  "ranges_live U ((a, n) # rs) \<longleftrightarrow>
     ranges_live U rs \<and> a \<noteq> 0 \<and> n \<noteq> 0 \<and> unat a + unat n < 2 ^ 64 \<and> seg_range a n \<inter> U = {} \<and>
     (\<forall>(b, k) \<in> set rs. seg_range a n \<inter> seg_range b k = {})"
  by (auto simp: ranges_live_def)

lemma ranges_live_mono: "ranges_live U rs \<Longrightarrow> V \<subseteq> U \<Longrightarrow> ranges_live V rs"
  by (fastforce simp: ranges_live_def)

lemma ranges_live_remove:
  assumes "ranges_live U (xs @ (a, n) # ys)"
  shows "ranges_live (U \<union> seg_range a n) (xs @ ys)" "a \<noteq> 0" "n \<noteq> 0" "unat a + unat n < 2 ^ 64"
    "seg_range a n \<inter> U = {}"
proof -
  have e: "a \<noteq> 0 \<and> n \<noteq> 0 \<and> unat a + unat n < 2 ^ 64 \<and> seg_range a n \<inter> U = {}"
    using assms by (simp add: ranges_live_def)
  then show "a \<noteq> 0" "n \<noteq> 0" "unat a + unat n < 2 ^ 64" "seg_range a n \<inter> U = {}" by simp_all
  have "\<forall>(b, k) \<in> set (xs @ ys). seg_range b k \<inter> seg_range a n = {}"
    using assms by (auto simp: ranges_live_def sorted_wrt_append Int_commute)
  then show "ranges_live (U \<union> seg_range a n) (xs @ ys)"
    using assms unfolding ranges_live_def by (simp add: sorted_wrt_append Int_Un_distrib case_prod_unfold)
qed

locale range_allocator =
  fixes inv :: "'m \<Rightarrow> bool" and units :: "'m \<Rightarrow> nat set"
    and alloc :: "'m \<Rightarrow> size_t \<Rightarrow> (ulong_t \<times> 'm) kres"
    and release :: "'m \<Rightarrow> size_t \<Rightarrow> ulong_t \<Rightarrow> 'm kres"
  assumes alloc_ok: "inv m \<Longrightarrow> 0 < sint sz \<Longrightarrow> \<exists>a m'. alloc m sz = KRet (a, m') \<and> inv m' \<and>
      (if a = 0 then units m' = units m
       else unat a + unat sz < 2 ^ 64 \<and> seg_range a sz \<subseteq> units m \<and> units m' = units m - seg_range a sz)"
    and release_ok: "inv m \<Longrightarrow> 0 < sint sz \<Longrightarrow> a \<noteq> 0 \<Longrightarrow> unat a + unat sz < 2 ^ 64 \<Longrightarrow>
      seg_range a sz \<inter> units m = {} \<Longrightarrow>
      \<exists>m'. release m sz a = KRet m' \<and> inv m' \<and> units m' \<subseteq> units m \<union> seg_range a sz"
begin

lemma live_alloc:
  assumes "inv m" "0 < sint sz" "ranges_live (units m) rs"
  obtains a m' where "alloc m sz = KRet (a, m')" "inv m'"
    "if a = 0 then ranges_live (units m') rs else ranges_live (units m') ((a, sz) # rs)"
proof -
  obtain a m' where r: "alloc m sz = KRet (a, m')" "inv m'" "if a = 0 then units m' = units m
     else unat a + unat sz < 2 ^ 64 \<and> seg_range a sz \<subseteq> units m \<and> units m' = units m - seg_range a sz"
    using alloc_ok [OF assms(1,2)] by blast
  have "ranges_live (units m') ((a, sz) # rs)" if a: "a \<noteq> 0"
  proof -
    have u: "unat a + unat sz < 2 ^ 64" "seg_range a sz \<subseteq> units m" "units m' = units m - seg_range a sz"
      using r(3) a by simp_all
    have "\<forall>(b, k) \<in> set rs. seg_range a sz \<inter> seg_range b k = {}"
      using assms(3) u(2) by (fastforce simp: ranges_live_def)
    then show ?thesis
      using a u ranges_live_mono [OF assms(3), of "units m'"] sint_pos_nonzero [OF assms(2)]
      unfolding ranges_live_Cons by auto
  qed
  moreover have "ranges_live (units m') rs" if "a = 0" using r(3) assms(3) that by simp
  ultimately show thesis by (intro that [OF r(1,2)]) simp
qed

lemma live_release:
  assumes "inv m" "0 < sint sz" "ranges_live (units m) (xs @ (a, sz) # ys)"
  obtains m' where "release m sz a = KRet m'" "inv m'" "ranges_live (units m') (xs @ ys)"
proof -
  note l = ranges_live_remove [OF assms(3)]
  obtain m' where "release m sz a = KRet m'" "inv m'" "units m' \<subseteq> units m \<union> seg_range a sz"
    using release_ok [OF assms(1,2) l(2,4,5)] by blast
  then show thesis using that ranges_live_mono [OF l(1)] by blast
qed

end

definition map_inv :: "map_head \<Rightarrow> bool" where
  "map_inv mp \<longleftrightarrow> map_wf mp \<and> 2 \<le> unat (m_nslots mp)"

interpretation rmap: range_allocator map_inv map_units rmalloc rmfree
proof unfold_locales
  fix m and sz :: size_t
  assume m: "map_inv m" and sz: "0 < sint sz"
  have "sz \<noteq> 0" by (rule sint_pos_nonzero [OF sz])
  from rmalloc_spec [OF _ this, of m] m obtain a m' where r: "rmalloc m sz = KRet (a, m')" "map_wf m'" "same_head m m'"
    and u: "if a = 0 then map_units m' = map_units m
     else unat a + unat sz < 2 ^ 64 \<and> seg_range a sz \<subseteq> map_units m \<and> map_units m' = map_units m - seg_range a sz"
    unfolding map_inv_def by (metis (no_types, lifting))
  have "map_inv m'" using m r by (simp add: map_inv_def same_head_def)
  then show "\<exists>a m'. rmalloc m sz = KRet (a, m') \<and> map_inv m' \<and> (if a = 0 then map_units m' = map_units m
     else unat a + unat sz < 2 ^ 64 \<and> seg_range a sz \<subseteq> map_units m \<and> map_units m' = map_units m - seg_range a sz)"
    using r(1) u by blast
next
  fix m and sz :: size_t and a
  assume m: "map_inv m" and sz: "0 < sint sz" and a: "a \<noteq> 0" "unat a + unat sz < 2 ^ 64"
    "seg_range a sz \<inter> map_units m = {}"
  then have "map_wf m" "returnable m sz a" using sint_pos_nonzero [OF sz]
    by (simp_all add: map_inv_def returnable_def)
  from rmfree_loop_cases [OF this] m obtain m' where r: "rmfree_loop m sz a = KRet m'" "map_wf m'"
      "same_head m m'" "map_units m' \<subseteq> map_units m \<union> seg_range a sz"
    unfolding map_inv_def by (metis not_le)
  have "m_nslots m' = m_nslots m" using r(3) by (simp add: same_head_def)
  then have "map_inv (woken m')" using m r(2) by (simp add: map_inv_def)
  moreover have "map_units (woken m') \<subseteq> map_units m \<union> seg_range a sz" using r(4) by simp
  ultimately show "\<exists>m'. rmfree m sz a = KRet m' \<and> map_inv m' \<and> map_units m' \<subseteq> map_units m \<union> seg_range a sz"
    using rmfree_woken [OF a(1) sz r(1)] by blast
qed

section \<open>Properties\<close>

text \<open>A map of four slots with the free segments 10--13 and 20--25.\<close>

definition sample_map :: map_head where
  "sample_map = \<lparr>m_free = 2, m_want = 1, m_nam = ''sample'', m_nslots = 4,
     m_map = [\<lparr>m_size = 4, m_addr = 10\<rparr>, \<lparr>m_size = 6, m_addr = 20\<rparr>, \<lparr>m_size = 0, m_addr = 0\<rparr>,
              \<lparr>m_size = 0, m_addr = 0\<rparr>, \<lparr>m_size = 0, m_addr = 0\<rparr>], m_cv = 0\<rparr>"

text \<open>The same free segments in a map of two slots, and a full map of one slot.\<close>

definition full_map :: map_head where
  "full_map = sample_map\<lparr>m_free := 0, m_nslots := 2\<rparr>"

definition one_slot_map :: map_head where
  "one_slot_map = \<lparr>m_free = 0, m_want = 0, m_nam = ''one'', m_nslots = 1,
     m_map = [\<lparr>m_size = 4, m_addr = 10\<rparr>, \<lparr>m_size = 0, m_addr = 0\<rparr>], m_cv = 0\<rparr>"

lemma sample_segs:
  "map_segs sample_map = [\<lparr>m_size = 4, m_addr = 10\<rparr>, \<lparr>m_size = 6, m_addr = 20\<rparr>]"
  "map_segs full_map = [\<lparr>m_size = 4, m_addr = 10\<rparr>, \<lparr>m_size = 6, m_addr = 20\<rparr>]"
  "map_segs one_slot_map = [\<lparr>m_size = 4, m_addr = 10\<rparr>]"
  by (simp_all add: map_segs_def sample_map_def full_map_def one_slot_map_def)

lemma sample_wf: "map_wf sample_map" "map_wf full_map" "map_wf one_slot_map"
  by (simp_all add: map_wf_def sample_segs segs_wf_def seg_ok_def seg_end_def)
    (simp_all add: sample_map_def full_map_def one_slot_map_def)

lemma sample_units: "map_units sample_map = {10 ..< 14} \<union> {20 ..< 26}"
  "map_units full_map = {10 ..< 14} \<union> {20 ..< 26}" "map_units one_slot_map = {10 ..< 14}"
  by (simp_all add: map_units_def sample_segs seg_units_def seg_end_def)

text \<open>
  C4.  \<open>rmalloc\<close> always returns; it hands out the lowest run of free units that is long
  enough, removes exactly that run from the map and keeps the map well formed, and it returns
  0, with the map unchanged, only when no such run exists.
\<close>

theorem rmalloc_lowest_run:
  assumes "map_wf mp" and "sz \<noteq> 0"
  shows "\<exists>a mp'. rmalloc mp sz = KRet (a, mp') \<and> map_wf mp' \<and> same_head mp mp' \<and>
     (if \<exists>b. {b ..< b + unat sz} \<subseteq> map_units mp
      then a \<noteq> 0 \<and> unat a = (LEAST b. {b ..< b + unat sz} \<subseteq> map_units mp) \<and>
           map_units mp' = map_units mp - seg_range a sz
      else a = 0 \<and> mp' = mp)"
proof -
  obtain a mp' where r: "rmalloc mp sz = KRet (a, mp')" "map_wf mp'" "same_head mp mp'"
    and z: "a = 0 \<Longrightarrow> mp' = mp \<and> (\<forall>b. \<not> {b ..< b + unat sz} \<subseteq> map_units mp)"
    and nz: "a \<noteq> 0 \<Longrightarrow> seg_range a sz \<subseteq> map_units mp \<and> map_units mp' = map_units mp - seg_range a sz \<and>
        (\<forall>b. {b ..< b + unat sz} \<subseteq> map_units mp \<longrightarrow> unat a \<le> b)"
    using rmalloc_spec [OF assms] by (metis (no_types, lifting))
  have "unat a = (LEAST b. {b ..< b + unat sz} \<subseteq> map_units mp)" if "a \<noteq> 0"
    using nz [OF that] by (intro Least_equality [symmetric]) (simp_all add: seg_range_def)
  then show ?thesis using r z nz by (cases "a = 0") (auto simp: seg_range_def)
qed

theorem rmalloc_lowest_run_witness:
  "\<exists>a mp'. rmalloc sample_map 5 = KRet (a, mp') \<and> a \<noteq> 0 \<and> map_wf mp' \<and> map_units mp' = map_units sample_map - seg_range a 5"
proof -
  have "{20 ..< 20 + unat (5 :: size_t)} \<subseteq> map_units sample_map" by (auto simp: sample_units)
  then have "\<exists>b. {b ..< b + unat (5 :: size_t)} \<subseteq> map_units sample_map" by blast
  then show ?thesis using rmalloc_lowest_run [OF sample_wf(1), of 5] by auto
qed

text \<open>
  C11.  Space handed out by \<open>rmalloc\<close> can be returned: \<open>rmfree\<close> of it neither panics nor
  overflows the map, and leaves exactly the segments and the free-slot count from before the
  allocation.
\<close>

theorem rmalloc_rmfree_roundtrip:
  assumes "map_wf mp" and "0 < sint sz" and "rmalloc mp sz = KRet (a, mp1)" and "a \<noteq> 0"
  shows "\<exists>mp2. rmfree mp1 sz a = KRet mp2 \<and> map_segs mp2 = map_segs mp \<and> m_free mp2 = m_free mp"
  using rmalloc_rmfree [OF assms] .

theorem rmalloc_rmfree_roundtrip_witness:
  "\<exists>mp1 mp2. rmalloc sample_map 4 = KRet (10, mp1) \<and> rmfree mp1 4 10 = KRet mp2 \<and>
     map_segs mp2 = map_segs sample_map"
proof -
  have "\<exists>mp1. rmalloc sample_map 4 = KRet (10, mp1)"
    by (simp add: rmalloc_def rmalloc_locked_def sample_map_def rmalloc_scan.simps shift_do.simps)
  then obtain mp1 where "rmalloc sample_map 4 = KRet (10, mp1)" by blast
  then show ?thesis using rmalloc_rmfree_roundtrip [OF sample_wf(1) _ \<open>rmalloc sample_map 4 = KRet (10, mp1)\<close>] by auto
qed

text \<open>
  C5.  Returning a range none of whose units is free, while the map has a slot left or the
  range borders a free segment, adds exactly that range to the free units, keeps the map well
  formed, and wakes the waiters once if there are any.
\<close>

theorem rmfree_adds_range:
  assumes "map_wf mp" and "returnable mp sz addr" and "0 < sint sz"
    and "m_free mp \<noteq> 0 \<or> abuts mp sz addr"
  shows "\<exists>mp'. rmfree mp sz addr = KRet mp' \<and> map_wf mp' \<and>
     map_units mp' = map_units mp \<union> seg_range addr sz \<and> m_want mp' = 0 \<and>
     m_cv mp' = (if m_want mp \<noteq> 0 then m_cv mp + 1 else m_cv mp)"
proof -
  obtain mp' where r: "rmfree_loop mp sz addr = KRet mp'" "freed_ok mp sz addr mp'"
    using rmfree_loop_done [OF assms(1,2,4)] by blast
  have "addr \<noteq> 0" using assms(2) by (simp add: returnable_def)
  then have "rmfree mp sz addr = KRet (woken mp')" using rmfree_woken assms(3) r(1) by blast
  then show ?thesis using r(2) by (simp add: freed_ok_def same_head_def) (simp add: woken_def)
qed

theorem rmfree_adds_range_witness:
  "\<exists>mp'. rmfree sample_map 6 14 = KRet mp' \<and> map_units mp' = {10 ..< 26} \<and> m_cv mp' = 1"
proof -
  have "returnable sample_map 6 14" by (auto simp: returnable_def sample_units seg_range_def)
  moreover have "map_units sample_map \<union> seg_range 14 6 = {10 ..< 26}"
    by (auto simp: sample_units seg_range_def)
  moreover have "m_free sample_map \<noteq> 0" "m_want sample_map \<noteq> 0" "m_cv sample_map = 0"
    by (simp_all add: sample_map_def)
  ultimately show ?thesis using rmfree_adds_range [OF sample_wf(1), of 6 14] by auto
qed

text \<open>
  C12.  \<open>rmfree\<close> detects a double free: on a well-formed map it panics exactly when the
  address is 0, the size is not positive or one of the returned units is free already.
\<close>

theorem rmfree_panics_iff:
  assumes "map_wf mp" and "unat addr + unat sz < 2 ^ 64"
  shows "rmfree mp sz addr = KPanic ''bad rmfree'' \<longleftrightarrow>
     addr = 0 \<or> sint sz \<le> 0 \<or> seg_range addr sz \<inter> map_units mp \<noteq> {}"
proof (cases "addr = 0 \<or> sint sz \<le> 0")
  case False
  then have a: "addr \<noteq> 0" "0 < sint sz" by auto
  show ?thesis
  proof (cases "seg_range addr sz \<inter> map_units mp = {}")
    case True
    then have "returnable mp sz addr"
      using a assms(2) sint_pos_nonzero by (simp add: returnable_def)
    from rmfree_loop_cases [OF assms(1) this] show ?thesis
      using False True rmfree_woken [OF a] by (auto simp: rmfree_def)
  next
    case meets: False
    show ?thesis
      using False meets rmfree_pass_overlap [OF assms meets]
      by (simp add: rmfree_def rmfree_loop.simps [of mp])
  qed
qed (auto simp: rmfree_def)

theorem rmfree_panics_iff_witness:
  "rmfree sample_map 3 12 = KPanic ''bad rmfree'' \<and> rmfree sample_map 3 14 \<noteq> KPanic ''bad rmfree''"
proof -
  have "12 \<in> seg_range 12 3 \<inter> map_units sample_map" by (simp add: sample_units seg_range_def)
  moreover have "seg_range 14 3 \<inter> map_units sample_map = {}" by (auto simp: sample_units seg_range_def)
  ultimately show ?thesis
    using rmfree_panics_iff [OF sample_wf(1), of 12 3] rmfree_panics_iff [OF sample_wf(1), of 14 3] by auto
qed

text \<open>
  C13.  When the map is full and the returned range borders no free segment, the map gives up
  the smaller of its last two segments and nothing else, takes in the returned range and
  stays well formed.
\<close>

theorem rmfree_overflow_loses_one:
  assumes "map_wf mp" and "returnable mp sz addr" and "0 < sint sz" and "m_free mp = 0"
    and "\<not> abuts mp sz addr" and "2 \<le> length (map_segs mp)"
  shows "\<exists>mp'. rmfree mp sz addr = KRet mp' \<and> map_wf mp' \<and>
     (let v = overflow_victim (map_segs mp) in v \<in> set (map_segs mp) \<and>
        map_units mp' = (map_units mp - {unat (m_addr v) ..< seg_end v}) \<union> seg_range addr sz)"
proof -
  note o = rmfree_loop_overflow [OF assms(1,2,4,5,6)]
  obtain mp' where r: "rmfree_loop mp sz addr = KRet mp'" "map_wf mp'" "map_units mp' =
     (map_units mp - {unat (m_addr (overflow_victim (map_segs mp))) ..< seg_end (overflow_victim (map_segs mp))})
      \<union> seg_range addr sz" using o(2) by blast
  have "addr \<noteq> 0" using assms(2) by (simp add: returnable_def)
  then have "rmfree mp sz addr = KRet (woken mp')" using rmfree_woken assms(3) r(1) by blast
  then show ?thesis using r(2,3) o(1) by (simp add: Let_def)
qed

theorem rmfree_overflow_loses_one_witness:
  "\<exists>mp'. rmfree full_map 2 40 = KRet mp' \<and> map_wf mp' \<and> map_units mp' = {20 ..< 26} \<union> {40 ..< 42}"
proof -
  have ret: "returnable full_map 2 40" by (auto simp: returnable_def sample_units seg_range_def)
  have ab: "\<not> abuts full_map 2 40" by (simp add: abuts_def sample_segs seg_end_def)
  have v: "overflow_victim (map_segs full_map) = \<lparr>m_size = 4, m_addr = 10\<rparr>"
    by (simp add: overflow_victim_def sample_segs)
  have "map_units full_map - {10 ..< 14} \<union> seg_range 40 2 = {20 ..< 26} \<union> {40 ..< 42}"
    by (auto simp: sample_units seg_range_def)
  moreover have "m_free full_map = 0" by (simp add: full_map_def)
  moreover have "2 \<le> length (map_segs full_map)" by (simp add: sample_segs)
  ultimately show ?thesis
    using rmfree_overflow_loses_one [OF sample_wf(2) ret _ _ ab] unfolding v Let_def by (auto simp: seg_end_def)
qed

text \<open>
  C14.  A full map of a single slot is not prepared for that overflow: \<open>rmfree\<close> of a range that
  does not border its segment compares with the descriptor in front of the segment array.
\<close>

theorem rmfree_single_slot_fault:
  assumes "map_wf mp" and "returnable mp sz addr" and "0 < sint sz" and "m_nslots mp = 1"
    and "m_free mp = 0" and "\<not> abuts mp sz addr"
  shows "rmfree mp sz addr = KFault"
proof -
  have "length (map_segs mp) < 2" using assms(1,4,5) by (simp add: map_wf_def)
  moreover have "addr \<noteq> 0" using assms(2) by (simp add: returnable_def)
  ultimately show ?thesis
    using rmfree_loop_single [OF assms(1,2,5,6)] assms(3) by (simp add: rmfree_def)
qed

theorem rmfree_single_slot_fault_witness: "rmfree one_slot_map 2 40 = KFault"
proof -
  have "returnable one_slot_map 2 40" by (auto simp: returnable_def sample_units seg_range_def)
  moreover have "\<not> abuts one_slot_map 2 40" by (simp add: abuts_def sample_segs seg_end_def)
  ultimately show ?thesis
    using rmfree_single_slot_fault [OF sample_wf(3)] by (simp add: one_slot_map_def)
qed

text \<open>
  C15.  \<open>rmget\<close> takes exactly the requested range out of the map when all of it is free and the
  map has a slot left for the segment it may have to split, and in every other case returns 0
  and changes nothing.
\<close>

theorem rmget_takes_range:
  assumes "map_wf mp" and "0 < sint sz" and "unat addr + unat sz < 2 ^ 64"
  shows "if seg_range addr sz \<subseteq> map_units mp \<and> (m_free mp \<noteq> 0 \<or> \<not> splits_segment mp sz addr)
     then \<exists>mp'. rmget mp sz addr = KRet (addr, mp') \<and> map_wf mp' \<and>
            map_units mp' = map_units mp - seg_range addr sz
     else rmget mp sz addr = KRet (0, mp)"
proof (cases "seg_range addr sz \<subseteq> map_units mp")
  case True
  then show ?thesis using rmget_found [OF assms(1,2) True] rmget_no_slot [OF assms(1,2) True]
    by (cases "m_free mp \<noteq> 0 \<or> \<not> splits_segment mp sz addr") (auto simp: taken_ok_def)
qed (use rmget_refused [OF assms] in simp)

theorem rmget_takes_range_witness:
  "\<exists>mp'. rmget sample_map 2 22 = KRet (22, mp') \<and> map_units mp' = {10 ..< 14} \<union> {20 ..< 22} \<union> {24 ..< 26}"
proof -
  have "seg_range 22 2 \<subseteq> map_units sample_map" by (auto simp: sample_units seg_range_def)
  moreover have "map_units sample_map - seg_range 22 2 = {10 ..< 14} \<union> {20 ..< 22} \<union> {24 ..< 26}"
    by (auto simp: sample_units seg_range_def)
  moreover have "m_free sample_map \<noteq> 0" by (simp add: sample_map_def)
  ultimately show ?thesis using rmget_takes_range [OF sample_wf(1), of 2 22] by auto
qed

text \<open>
  C16.  \<open>rmallocmap\<close> of fewer than \<open>2 ^ 31\<close> segments makes an empty well-formed map with that
  many slots, and \<open>rmfreemap\<close> later gives back exactly the bytes that were allocated.
\<close>

theorem rmallocmap_new_map:
  assumes "0 < unat n" and "unat n < 2 ^ 31"
  shows "\<exists>mp. rmallocmap True n = KRet (Some mp) \<and> rmallocmap_wait n = KRet mp \<and> map_wf mp \<and>
     map_units mp = {} \<and> unat (m_nslots mp) = unat n \<and>
     rmfreemap mp = unat ((n + of_nat MAP_OVERHEAD) * of_nat sizeof_map)"
  using mapinit_new [OF assms]
  by (auto simp: rmallocmap_def rmallocmap_wait_def Let_def map_units_def seg_units_def)

theorem rmallocmap_new_map_witness:
  "\<exists>mp. rmallocmap True 10 = KRet (Some mp) \<and> map_wf mp \<and> unat (m_nslots mp) = 10"
  using rmallocmap_new_map [of 10] by auto

end
