(* ===== verification/Procset.thy ===== *)
theory Procset
  imports Kern_Prelude
begin

text \<open>
  Process sets, \<^verbatim>\<open>uts/common/os/procset.c\<close> and \<^verbatim>\<open>uts/common/sys/procset.h\<close>: the tests
  that decide which processes and which threads a \<^verbatim>\<open>procset_t\<close> names, and the two routines
  that apply a function to them.  Processes and threads are named by their addresses; the
  functions that \<open>dotoprocs\<close> and \<open>dotolwp\<close> call back act on the state, which may carry further
  fields.
\<close>

section \<open>Data\<close>

type_synonym id_t = int

definition P_MYID :: id_t where
  "P_MYID = - 1"

text \<open>The last constructor of each enumeration stands for a value outside of it.\<close>

datatype idtype =
    P_PID | P_PPID | P_PGID | P_SID | P_CID | P_UID | P_GID | P_ALL | P_LWPID | P_other int

datatype idop = POP_DIFF | POP_AND | POP_OR | POP_XOR | POP_other int

record procset =
  p_op :: idop
  p_lidtype :: idtype
  p_lid :: id_t
  p_ridtype :: idtype
  p_rid :: id_t

datatype pstat = SSLEEP | SRUN | SZOMB | SSTOP | SIDL | SONPROC

record kthread =
  t_tid :: id_t
  t_cid :: id_t

text \<open>
  The fields of a process that are read here; \<open>p_sid\<close> is \<^verbatim>\<open>p_sessp->s_sid\<close>, \<open>p_uid\<close> and
  \<open>p_gid\<close> are those of \<^verbatim>\<open>p_cred\<close>.  \<open>p_tlist\<close> is the circular list of threads, from the
  thread the process points to.
\<close>

record proc =
  p_stat :: pstat
  p_pid :: id_t
  p_ppid :: id_t
  p_pgrp :: id_t
  p_sid :: id_t
  p_uid :: id_t
  p_gid :: id_t
  p_tlist :: "nat list"

text \<open>
  \<open>practive\<close> is the list of active processes in \<^verbatim>\<open>p_next\<close> order, \<open>curproc\<close> the process of
  \<open>curthread\<close>.
\<close>

record pstate =
  procs :: "nat \<Rightarrow> proc"
  threads :: "nat \<Rightarrow> kthread"
  practive :: "nat list"
  proc_init :: nat
  curproc :: nat
  curthread :: nat

definition proctot :: "proc \<Rightarrow> nat option" where
  "proctot pp = (case p_tlist pp of [] \<Rightarrow> None | tp # _ \<Rightarrow> Some tp)"

section \<open>Operations\<close>

definition valid_idtype :: "idtype \<Rightarrow> bool" where
  "valid_idtype t = (case t of P_other _ \<Rightarrow> False | _ \<Rightarrow> True)"

definition checkprocset :: "procset \<Rightarrow> int" where
  "checkprocset psp =
     (if \<not> valid_idtype (p_lidtype psp) then errno_num EINVAL
      else if \<not> valid_idtype (p_ridtype psp) then errno_num EINVAL
      else case p_op psp of POP_other _ \<Rightarrow> errno_num EINVAL | _ \<Rightarrow> 0)"

definition getmyid :: "'a pstate_scheme \<Rightarrow> idtype \<Rightarrow> id_t" where
  "getmyid st t =
     (let pp = procs st (curproc st) in
      case t of
        P_LWPID \<Rightarrow> t_tid (threads st (curthread st))
      | P_PID \<Rightarrow> p_pid pp
      | P_PPID \<Rightarrow> p_ppid pp
      | P_PGID \<Rightarrow> p_pgrp pp
      | P_SID \<Rightarrow> p_sid pp
      | P_CID \<Rightarrow> t_cid (threads st (curthread st))
      | P_UID \<Rightarrow> p_uid pp
      | P_GID \<Rightarrow> p_gid pp
      | P_ALL \<Rightarrow> 0
      | P_other _ \<Rightarrow> - 1)"

definition getlwpptr :: "'a pstate_scheme \<Rightarrow> id_t \<Rightarrow> nat option" where
  "getlwpptr st ident =
     (if ident = P_MYID then Some (curthread st)
      else find (\<lambda>tp. t_tid (threads st tp) = ident) (p_tlist (procs st (curproc st))))"

text \<open>
  One operand of \<open>procinset\<close>: whether the process is in the simple set, and whether the set
  names a thread of the process; \<open>None\<close> for an identifier type that \<open>checkprocset\<close> rejects.
\<close>

definition proc_operand ::
  "'a pstate_scheme \<Rightarrow> nat \<Rightarrow> nat \<Rightarrow> idtype \<Rightarrow> id_t \<Rightarrow> (bool \<times> bool) option"
where
  "proc_operand st p tp t ident =
     (let pp = procs st p in
      case t of
        P_LWPID \<Rightarrow> Some (False, p = curproc st \<and> getlwpptr st ident \<noteq> None)
      | P_PID \<Rightarrow> Some (p_pid pp = ident, False)
      | P_PPID \<Rightarrow> Some (p_ppid pp = ident, False)
      | P_PGID \<Rightarrow> Some (p_pgrp pp = ident, False)
      | P_SID \<Rightarrow> Some (p_sid pp = ident, False)
      | P_CID \<Rightarrow> Some (t_cid (threads st tp) = ident, False)
      | P_UID \<Rightarrow> Some (p_uid pp = ident, False)
      | P_GID \<Rightarrow> Some (p_gid pp = ident, False)
      | P_ALL \<Rightarrow> Some (True, False)
      | P_other _ \<Rightarrow> None)"

definition procset_op :: "idop \<Rightarrow> bool \<times> bool \<Rightarrow> bool \<times> bool \<Rightarrow> bool" where
  "procset_op op l r =
     (let (loperand, lwplinproc) = l; (roperand, lwprinproc) = r in
      case op of
        POP_DIFF \<Rightarrow> loperand \<and> \<not> lwprinproc \<and> \<not> roperand
      | POP_AND \<Rightarrow> loperand \<and> roperand
      | POP_OR \<Rightarrow> loperand \<or> roperand
      | POP_XOR \<Rightarrow> (loperand \<and> \<not> lwprinproc \<and> \<not> roperand) \<or>
                   (roperand \<and> \<not> lwplinproc \<and> \<not> loperand)
      | POP_other _ \<Rightarrow> False)"

definition procinset :: "'a pstate_scheme \<Rightarrow> nat \<Rightarrow> procset \<Rightarrow> bool" where
  "procinset st p psp =
     (case proctot (procs st p) of
        None \<Rightarrow> False
      | Some tp \<Rightarrow>
          if t_cid (threads st tp) = 0 then False
          else case proc_operand st p tp (p_lidtype psp) (p_lid psp) of
                 None \<Rightarrow> False
               | Some l \<Rightarrow>
                   (case proc_operand st p tp (p_ridtype psp) (p_rid psp) of
                      None \<Rightarrow> False
                    | Some r \<Rightarrow> procset_op (p_op psp) l r))"

text \<open>\<open>lwpinset\<close> also says whether both operands named the thread, which ends the search.\<close>

definition lwp_operand ::
  "'a pstate_scheme \<Rightarrow> nat \<Rightarrow> nat \<Rightarrow> idtype \<Rightarrow> id_t \<Rightarrow> (bool \<times> bool) option"
where
  "lwp_operand st p tp t ident =
     (let pp = procs st p in
      case t of
        P_LWPID \<Rightarrow> Some (False, t_tid (threads st tp) = ident)
      | P_PID \<Rightarrow> Some (p_pid pp = ident, False)
      | P_PPID \<Rightarrow> Some (p_ppid pp = ident, False)
      | P_PGID \<Rightarrow> Some (p_pgrp pp = ident, False)
      | P_SID \<Rightarrow> Some (p_sid pp = ident, False)
      | P_CID \<Rightarrow> Some (t_cid (threads st tp) = ident, False)
      | P_UID \<Rightarrow> Some (p_uid pp = ident, False)
      | P_GID \<Rightarrow> Some (p_gid pp = ident, False)
      | P_ALL \<Rightarrow> Some (True, False)
      | P_other _ \<Rightarrow> None)"

definition lwpset_op :: "idop \<Rightarrow> bool \<times> bool \<Rightarrow> bool \<times> bool \<Rightarrow> bool" where
  "lwpset_op op l r =
     (let (loperand, lwplinset) = l; (roperand, lwprinset) = r in
      case op of
        POP_DIFF \<Rightarrow> (loperand \<or> lwplinset) \<and> \<not> (lwprinset \<or> roperand)
      | POP_AND \<Rightarrow> (loperand \<or> lwplinset) \<and> (roperand \<or> lwprinset)
      | POP_OR \<Rightarrow> loperand \<or> roperand \<or> lwplinset \<or> lwprinset
      | POP_XOR \<Rightarrow> ((loperand \<or> lwplinset) \<and> \<not> (lwprinset \<or> roperand)) \<or>
                   ((roperand \<or> lwprinset) \<and> \<not> (lwplinset \<or> loperand))
      | POP_other _ \<Rightarrow> False)"

text \<open>
  A process without threads has no \<^verbatim>\<open>proctot\<close> to read the class from; the routine is only
  called on a process that has the thread \<open>tp\<close>.
\<close>

definition lwpinset :: "'a pstate_scheme \<Rightarrow> nat \<Rightarrow> procset \<Rightarrow> nat \<Rightarrow> bool \<times> bool" where
  "lwpinset st p psp tp =
     (case proctot (procs st p) of
        None \<Rightarrow> (False, False)
      | Some tp0 \<Rightarrow>
          if t_cid (threads st tp0) = 0 then (False, False)
          else case lwp_operand st p tp (p_lidtype psp) (p_lid psp) of
                 None \<Rightarrow> (False, False)
               | Some l \<Rightarrow>
                   (case lwp_operand st p tp (p_ridtype psp) (p_rid psp) of
                      None \<Rightarrow> (False, False)
                    | Some r \<Rightarrow> (lwpset_op (p_op psp) l r, snd l \<and> snd r)))"

definition cur_inset_only :: "'a pstate_scheme \<Rightarrow> procset \<Rightarrow> bool" where
  "cur_inset_only st psp =
     (if ((p_lidtype psp = P_PID \<and> (p_lid psp = P_MYID \<or> p_lid psp = p_pid (procs st (curproc st)))) \<or>
          (p_lidtype psp = P_LWPID \<and> (p_lid psp = P_MYID \<or> p_lid psp = t_tid (threads st (curthread st))))) \<and>
         p_op psp = POP_AND \<and> p_ridtype psp = P_ALL then True
      else if ((p_ridtype psp = P_PID \<and> (p_rid psp = P_MYID \<or> p_rid psp = p_pid (procs st (curproc st)))) \<or>
               (p_ridtype psp = P_LWPID \<and> (p_rid psp = P_MYID \<or> p_rid psp = t_tid (threads st (curthread st))))) \<and>
              p_op psp = POP_AND \<and> p_lidtype psp = P_ALL then True
      else False)"

text \<open>The replacement of \<open>P_MYID\<close> in either operand, which \<open>dotoprocs\<close> and \<open>dotolwp\<close> share.\<close>

definition fill_myid :: "'a pstate_scheme \<Rightarrow> procset \<Rightarrow> procset" where
  "fill_myid st psp =
     (let psp1 = (if p_lid psp = P_MYID then psp\<lparr>p_lid := getmyid st (p_lidtype psp)\<rparr> else psp) in
      if p_rid psp1 = P_MYID then psp1\<lparr>p_rid := getmyid st (p_ridtype psp1)\<rparr> else psp1)"

type_synonym 'a procfun = "nat \<Rightarrow> 'a pstate_scheme \<Rightarrow> int \<times> 'a pstate_scheme"

text \<open>
  The loop of \<open>dotoprocs\<close> over the active processes.  \<open>Inl\<close> is an early return; \<open>Inr\<close> the
  number of processes found and the last of them.
\<close>

fun dotoprocs_loop ::
  "procset \<Rightarrow> 'a procfun option \<Rightarrow> nat list \<Rightarrow> nat \<Rightarrow> nat option \<Rightarrow> 'a pstate_scheme \<Rightarrow>
   (int + nat \<times> nat option) \<times> 'a pstate_scheme"
where
  "dotoprocs_loop psp funcp [] nfound lastprp st = (Inr (nfound, lastprp), st)"
| "dotoprocs_loop psp funcp (prp # ps) nfound lastprp st =
     (if p_stat (procs st prp) = SIDL \<or> p_stat (procs st prp) = SZOMB
      then dotoprocs_loop psp funcp ps nfound lastprp st
      else if procinset st prp psp then
        (case funcp of
           Some f \<Rightarrow>
             if prp \<noteq> proc_init st then
               (let (error, st') = f prp st in
                if error = - 1 then (Inl 0, st')
                else if error \<noteq> 0 then (Inl error, st')
                else dotoprocs_loop psp funcp ps (Suc nfound) (Some prp) st')
             else dotoprocs_loop psp funcp ps (Suc nfound) (Some prp) st
         | None \<Rightarrow> dotoprocs_loop psp funcp ps (Suc nfound) (Some prp) st)
      else dotoprocs_loop psp funcp ps nfound lastprp st)"

definition dotoprocs ::
  "procset \<Rightarrow> 'a procfun option \<Rightarrow> 'a pstate_scheme \<Rightarrow> int \<times> 'a pstate_scheme"
where
  "dotoprocs psp funcp st =
     (if checkprocset psp \<noteq> 0 then (checkprocset psp, st)
      else
        case dotoprocs_loop (fill_myid st psp) funcp (practive st) 0 None st of
          (Inl error, st') \<Rightarrow> (error, st')
        | (Inr (nfound, lastprp), st') \<Rightarrow>
            if nfound = 0 then (errno_num ESRCH, st')
            else
              (case funcp of
                 Some f \<Rightarrow>
                   if nfound = 1 \<and> lastprp = Some (proc_init st')
                   then let (error, st'') = f (proc_init st') st' in
                        (if error = - 1 then 0 else error, st'')
                   else (0, st')
               | None \<Rightarrow> (0, st')))"



section \<open>The sets that a procset names\<close>

text \<open>The identifier of each type that a process has.\<close>

definition proc_id :: "'a pstate_scheme \<Rightarrow> nat \<Rightarrow> idtype \<Rightarrow> id_t" where
  "proc_id st p t =
     (let pp = procs st p in
      case t of
        P_PID \<Rightarrow> p_pid pp | P_PPID \<Rightarrow> p_ppid pp | P_PGID \<Rightarrow> p_pgrp pp | P_SID \<Rightarrow> p_sid pp
      | P_CID \<Rightarrow> t_cid (threads st (hd (p_tlist pp))) | P_UID \<Rightarrow> p_uid pp | P_GID \<Rightarrow> p_gid pp
      | _ \<Rightarrow> 0)"

text \<open>The processes of a simple set, and those of which it names a single thread.\<close>

definition simple_set :: "'a pstate_scheme \<Rightarrow> idtype \<Rightarrow> id_t \<Rightarrow> nat set" where
  "simple_set st t ident =
     (if t = P_LWPID then {} else if t = P_ALL then UNIV else {p. proc_id st p t = ident})"

definition thread_named :: "'a pstate_scheme \<Rightarrow> idtype \<Rightarrow> id_t \<Rightarrow> nat set" where
  "thread_named st t ident =
     (if t = P_LWPID \<and> getlwpptr st ident \<noteq> None then {curproc st} else {})"

text \<open>The processes that take part at all: those with threads, outside the sys class.\<close>

definition user_procs :: "'a pstate_scheme \<Rightarrow> nat set" where
  "user_procs st = {p. p_tlist (procs st p) \<noteq> [] \<and> t_cid (threads st (hd (p_tlist (procs st p)))) \<noteq> 0}"


lemma checkprocset_valid:
  "checkprocset psp = 0 \<longleftrightarrow> valid_idtype (p_lidtype psp) \<and> valid_idtype (p_ridtype psp) \<and>
     (\<forall>n. p_op psp \<noteq> POP_other n)"
  by (auto simp: checkprocset_def split: idop.splits)

lemma proc_operand_sets:
  assumes "valid_idtype t" "proctot (procs st p) = Some tp"
  shows "proc_operand st p tp t ident = Some (p \<in> simple_set st t ident, p \<in> thread_named st t ident)"
  using assms
  by (cases t) (auto simp: proc_operand_def simple_set_def thread_named_def proc_id_def valid_idtype_def
      proctot_def split: list.splits)

lemma procinset_iff:
  assumes "checkprocset psp = 0"
  shows "procinset st p psp \<longleftrightarrow> p \<in> user_procs st \<and>
    procset_op (p_op psp) (p \<in> simple_set st (p_lidtype psp) (p_lid psp), p \<in> thread_named st (p_lidtype psp) (p_lid psp))
      (p \<in> simple_set st (p_ridtype psp) (p_rid psp), p \<in> thread_named st (p_ridtype psp) (p_rid psp))"
proof (cases "p_tlist (procs st p)")
  case Nil
  then show ?thesis by (simp add: procinset_def proctot_def user_procs_def)
next
  case (Cons tp tps)
  then have tp: "proctot (procs st p) = Some tp" by (simp add: proctot_def)
  have "valid_idtype (p_lidtype psp)" "valid_idtype (p_ridtype psp)"
    using assms by (auto simp: checkprocset_valid)
  then show ?thesis
    using tp Cons by (simp add: procinset_def proc_operand_sets user_procs_def)
qed

lemma thread_named_PID [simp]: "t \<noteq> P_LWPID \<Longrightarrow> thread_named st t ident = {}"
  by (simp add: thread_named_def)




section \<open>The routines that apply a function\<close>

fun apply_until :: "'a procfun \<Rightarrow> nat list \<Rightarrow> 'a pstate_scheme \<Rightarrow> int \<times> 'a pstate_scheme" where
  "apply_until f [] st = (0, st)"
| "apply_until f (p # ps) st =
     (let (error, st') = f p st in if error \<noteq> 0 then (error, st') else apply_until f ps st')"

definition is_member :: "'a pstate_scheme \<Rightarrow> procset \<Rightarrow> nat \<Rightarrow> bool" where
  "is_member st psp p \<longleftrightarrow>
     p_stat (procs st p) \<noteq> SIDL \<and> p_stat (procs st p) \<noteq> SZOMB \<and> procinset st p psp"

definition members :: "'a pstate_scheme \<Rightarrow> procset \<Rightarrow> nat list" where
  "members st psp = filter (is_member st psp) (practive st)"

text \<open>
  A callback that leaves alone what membership in a set is decided on; it may still change
  the rest of the state.
\<close>

definition keeps_procs :: "'a procfun \<Rightarrow> bool" where
  "keeps_procs f \<longleftrightarrow> (\<forall>p st. pstate.truncate (snd (f p st)) = pstate.truncate st)"

lemma truncate_eq:
  assumes "pstate.truncate st' = pstate.truncate st"
  shows "procs st' = procs st" "threads st' = threads st" "practive st' = practive st"
    "proc_init st' = proc_init st" "curproc st' = curproc st" "curthread st' = curthread st"
  using assms by (cases st; cases st'; simp add: pstate.truncate_def)+

lemma procinset_truncate:
  assumes "pstate.truncate st' = pstate.truncate st"
  shows "procinset st' p psp = procinset st p psp" "lwpinset st' p psp tp = lwpinset st p psp tp"
proof -
  note t = truncate_eq [OF assms]
  have "proc_operand st' = proc_operand st"
    by (intro ext) (simp only: proc_operand_def getlwpptr_def t)
  then show "procinset st' p psp = procinset st p psp" by (simp only: procinset_def t)
  have "lwp_operand st' = lwp_operand st"
    by (intro ext) (simp only: lwp_operand_def t)
  then show "lwpinset st' p psp tp = lwpinset st p psp tp" by (simp only: lwpinset_def t)
qed

lemma dotoprocs_loop_Some:
  assumes keep: "keeps_procs f"
    and st: "pstate.truncate st = pstate.truncate st0"
  shows "dotoprocs_loop psp (Some f) ps nfound lastprp st =
    (case apply_until f (filter (\<lambda>p. is_member st0 psp p \<and> p \<noteq> proc_init st0) ps) st of
       (error, st') \<Rightarrow>
         (if error = - 1 then Inl 0 else if error \<noteq> 0 then Inl error
          else Inr (nfound + length (filter (is_member st0 psp) ps),
                    if filter (is_member st0 psp) ps = [] then lastprp else Some (last (filter (is_member st0 psp) ps))), st'))"
  using st
proof (induction ps arbitrary: nfound lastprp st)
  case (Cons p ps)
  note t = truncate_eq [OF Cons.prems] and s = procinset_truncate(1) [OF Cons.prems]
  obtain e st' where f: "f p st = (e, st')" by fastforce
  then have st': "pstate.truncate st' = pstate.truncate st0"
    using keep Cons.prems unfolding keeps_procs_def by (metis snd_conv)
  show ?case
    using Cons.IH [OF Cons.prems] Cons.IH [OF st'] f
    by (cases "is_member st0 psp p") (auto simp: t s is_member_def split: prod.splits if_splits)
qed simp

lemma dotoprocs_loop_None:
  "dotoprocs_loop psp None ps nfound lastprp st =
     (Inr (nfound + length (filter (is_member st psp) ps),
           if filter (is_member st psp) ps = [] then lastprp else Some (last (filter (is_member st psp) ps))), st)"
  by (induction ps arbitrary: nfound lastprp) (auto simp: is_member_def)

lemma fill_myid_valid [simp]:
  "checkprocset (fill_myid st psp) = checkprocset psp" "p_lidtype (fill_myid st psp) = p_lidtype psp"
  "p_ridtype (fill_myid st psp) = p_ridtype psp" "p_op (fill_myid st psp) = p_op psp"
  by (simp_all add: fill_myid_def checkprocset_def Let_def)

lemma apply_until_keeps:
  "keeps_procs f \<Longrightarrow> pstate.truncate (snd (apply_until f ps st)) = pstate.truncate st"
proof (induction ps arbitrary: st)
  case (Cons p ps)
  obtain e st' where f: "f p st = (e, st')" by fastforce
  then have "pstate.truncate st' = pstate.truncate st"
    using Cons.prems unfolding keeps_procs_def by (metis snd_conv)
  then show ?case using Cons.IH [OF Cons.prems, of st'] f by simp
qed simp

lemma dotoprocs_spec:
  assumes keep: "keeps_procs f" and ok: "checkprocset psp = 0"
  shows "dotoprocs psp (Some f) st =
     (let ms = members st (fill_myid st psp) in
      if ms = [] then (errno_num ESRCH, st)
      else case apply_until f (if ms = [proc_init st] then ms else filter (\<lambda>p. p \<noteq> proc_init st) ms) st of
             (error, st') \<Rightarrow> (if error = - 1 then 0 else error, st'))"
proof -
  let ?ms = "members st (fill_myid st psp)"
  let ?r = "apply_until f (filter (\<lambda>p. p \<noteq> proc_init st) ?ms) st"
  have ff: "filter (\<lambda>p. is_member st (fill_myid st psp) p \<and> p \<noteq> proc_init st) (practive st) = filter (\<lambda>p. p \<noteq> proc_init st) ?ms"
    by (simp add: members_def filter_filter conj_commute)
  obtain e st' where r: "?r = (e, st')" by fastforce
  then have st': "pstate.truncate st' = pstate.truncate st"
    using apply_until_keeps [OF keep, of "filter (\<lambda>p. p \<noteq> proc_init st) ?ms" st] by simp
  have loop: "dotoprocs_loop (fill_myid st psp) (Some f) (practive st) 0 None st =
      (if e = - 1 then Inl 0 else if e \<noteq> 0 then Inl e
       else Inr (length ?ms, if ?ms = [] then None else Some (last ?ms)), st')"
    unfolding dotoprocs_loop_Some [OF keep refl] ff r by (simp add: members_def)
  show ?thesis
  proof (cases "?ms = [proc_init st]")
    case True
    then have "e = 0" "st' = st" using r by auto
    then show ?thesis using loop True ok by (simp add: dotoprocs_def split: prod.splits)
  next
    case False
    show ?thesis
    proof (cases "?ms = []")
      case True
      then have "e = 0" "st' = st" using r by auto
      then show ?thesis using loop True ok by (simp add: dotoprocs_def)
    next
      case ne: False
      have "\<not> (length ?ms = 1 \<and> last ?ms = proc_init st')"
        using False truncate_eq(4) [OF st'] by (cases ?ms) auto
      then show ?thesis using loop ne False ok r by (auto simp: dotoprocs_def)
    qed
  qed
qed




section \<open>The caller's own identifiers\<close>

lemma P_MYID_filled:
  assumes "t \<noteq> P_LWPID" "valid_idtype t" "curthread st = hd (p_tlist (procs st (curproc st)))"
  shows "curproc st \<in> simple_set st t (getmyid st t)"
  using assms by (cases t) (auto simp: simple_set_def proc_id_def getmyid_def valid_idtype_def)

lemma procinset_AND_ALL:
  assumes "checkprocset psp = 0" "p_op psp = POP_AND"
  shows "procinset st p psp \<Longrightarrow> p \<in> simple_set st (p_lidtype psp) (p_lid psp) \<inter> simple_set st (p_ridtype psp) (p_rid psp)"
  using assms by (auto simp: procinset_iff procset_op_def)

lemma cur_inset_only_members:
  assumes c: "cur_inset_only st psp" and v: "checkprocset psp = 0"
    and uniq: "inj_on (\<lambda>p. p_pid (procs st p)) (insert (curproc st) (set (practive st)))"
  shows "set (members st (fill_myid st psp)) \<subseteq> {curproc st}"
proof
  fix p assume "p \<in> set (members st (fill_myid st psp))"
  then have p: "p \<in> set (practive st)" "procinset st p (fill_myid st psp)"
    by (auto simp: members_def is_member_def)
  have op: "p_op psp = POP_AND" using c by (auto simp: cur_inset_only_def split: if_splits)
  then have "p \<in> simple_set st (p_lidtype psp) (p_lid (fill_myid st psp)) \<inter> simple_set st (p_ridtype psp) (p_rid (fill_myid st psp))"
    using procinset_AND_ALL [of "fill_myid st psp" st p] p(2) v by simp
  then have "p_pid (procs st p) = p_pid (procs st (curproc st))"
    using c by (auto simp: cur_inset_only_def simple_set_def proc_id_def fill_myid_def Let_def getmyid_def split: if_splits)
  then show "p \<in> {curproc st}" using inj_onD [OF uniq, of p "curproc st"] p(1) by simp
qed

section \<open>Properties\<close>

text \<open>
  A system of three processes: \<open>init\<close> at address 1, the current process at 2 with the
  threads 20 and 21, and a process of another session at 3.
\<close>

definition sample_procs :: pstate where
  "sample_procs =
     (let p0 = \<lparr>p_stat = SRUN, p_pid = 1, p_ppid = 0, p_pgrp = 0, p_sid = 0, p_uid = 0, p_gid = 0,
                p_tlist = [10]\<rparr> in
      \<lparr>procs = (\<lambda>p. if p = 2 then p0\<lparr>p_pid := 100, p_ppid := 1, p_sid := 100, p_uid := 7, p_tlist := [20, 21]\<rparr>
                   else if p = 3 then p0\<lparr>p_pid := 200, p_ppid := 1, p_sid := 200, p_uid := 7, p_tlist := [30]\<rparr>
                   else p0),
       threads = (\<lambda>t. \<lparr>t_tid = (if t = 21 then 2 else 1), t_cid = 1\<rparr>),
       practive = [3, 2, 1], proc_init = 1, curproc = 2, curthread = 20\<rparr>)"

text \<open>All processes of user 7 that are not in session 100, and two sets of threads.\<close>

definition sample_set :: procset where
  "sample_set = \<lparr>p_op = POP_DIFF, p_lidtype = P_UID, p_lid = 7, p_ridtype = P_SID, p_rid = 100\<rparr>"

definition lwp_set :: procset where
  "lwp_set = \<lparr>p_op = POP_AND, p_lidtype = P_LWPID, p_lid = P_MYID, p_ridtype = P_LWPID, p_rid = 1\<rparr>"

definition self_set :: procset where
  "self_set = \<lparr>p_op = POP_AND, p_lidtype = P_PID, p_lid = P_MYID, p_ridtype = P_ALL, p_rid = 0\<rparr>"

lemma sample_set_valid: "checkprocset sample_set = 0" "checkprocset lwp_set = 0" "checkprocset self_set = 0"
  by (simp_all add: checkprocset_def sample_set_def lwp_set_def self_set_def valid_idtype_def)



text \<open>
  C18.  \<open>dotoprocs\<close> calls its function on the members of the set in the order of the active
  list, up to the first call that does not return 0; \<open>init\<close> is left out unless it is the only
  member; the result is \<open>ESRCH\<close> for an empty set, and otherwise the last value returned, with
  -1 read as success.
\<close>

theorem dotoprocs_calls_members:
  assumes "keeps_procs f" and "checkprocset psp = 0"
  shows "dotoprocs psp (Some f) st =
     (let ms = members st (fill_myid st psp) in
      if ms = [] then (errno_num ESRCH, st)
      else case apply_until f (if ms = [proc_init st] then ms else filter (\<lambda>p. p \<noteq> proc_init st) ms) st of
             (error, st') \<Rightarrow> (if error = - 1 then 0 else error, st'))"
  using dotoprocs_spec [OF assms] .

theorem dotoprocs_calls_members_witness:
  "dotoprocs sample_set (Some (\<lambda>p st. (if p = 3 then - 1 else 5, st))) sample_procs = (0, sample_procs)"
proof -
  have k: "keeps_procs (\<lambda>p (st :: pstate). (if p = 3 then - 1 else 5, st))" by (simp add: keeps_procs_def)
  have "members sample_procs (fill_myid sample_procs sample_set) = [3]"
    by (simp add: members_def is_member_def procinset_def proctot_def proc_operand_def procset_op_def
        fill_myid_def sample_set_def sample_procs_def P_MYID_def Let_def)
  moreover have "proc_init sample_procs = 1" by (simp add: sample_procs_def Let_def)
  ultimately show ?thesis
    using dotoprocs_calls_members [OF k sample_set_valid(1), of sample_procs] by simp
qed



text \<open>
  C20.  When \<open>cur_inset_only\<close> says so and process identifiers are unique, no process but the
  current one is in the set.
\<close>

theorem cur_inset_only_sound:
  assumes "cur_inset_only st psp" and "checkprocset psp = 0"
    and "inj_on (\<lambda>p. p_pid (procs st p)) (insert (curproc st) (set (practive st)))"
  shows "set (members st (fill_myid st psp)) \<subseteq> {curproc st}"
  using cur_inset_only_members [OF assms] .

theorem cur_inset_only_sound_witness:
  "cur_inset_only sample_procs self_set \<and> set (members sample_procs (fill_myid sample_procs self_set)) \<subseteq> {2}"
proof -
  have c: "cur_inset_only sample_procs self_set" by (simp add: cur_inset_only_def self_set_def)
  have "inj_on (\<lambda>p. p_pid (procs sample_procs p)) (insert (curproc sample_procs) (set (practive sample_procs)))"
    by (auto simp: inj_on_def sample_procs_def Let_def)
  moreover have "curproc sample_procs = 2" by (simp add: sample_procs_def Let_def)
  ultimately show ?thesis
    using cur_inset_only_sound [OF c sample_set_valid(3)] c by simp
qed

end
