(* ===== verification/Xdr_Mem.thy ===== *)
theory Xdr_Mem
  imports Kern_Prelude
begin

text \<open>
  XDR streams: the handle and its operations vector, \<^verbatim>\<open>uts/common/rpc/xdr.h\<close>, and the
  implementation of a stream in a memory buffer, \<^verbatim>\<open>uts/common/rpc/xdr_mem.c\<close>.

  A stream type provides the operations of the vector.  An operation that copies bytes out
  of the stream returns them, with \<open>None\<close> for the C result \<^verbatim>\<open>FALSE\<close>; a memory access
  outside the buffer is \<open>KFault\<close>.
\<close>

section \<open>The handle\<close>

datatype xdr_op = XDR_ENCODE | XDR_DECODE | XDR_FREE | XDR_other int

definition BYTES_PER_XDR_UNIT :: nat where
  "BYTES_PER_XDR_UNIT = 4"

text \<open>\<^verbatim>\<open>RNDUP\<close> on an \<^verbatim>\<open>int\<close>: C division truncates towards zero.\<close>

definition RNDUP :: "int32_t \<Rightarrow> int32_t" where
  "RNDUP x = (let y = sint (x + 3) in word_of_int ((if y < 0 then - (- y div 4) else y div 4) * 4))"

text \<open>The requests of \<open>x_control\<close>, with what they read and write through \<^verbatim>\<open>info\<close>.\<close>

datatype xdr_request = XDR_PEEK | XDR_SKIPBYTES int32_t | XDR_request_other int

record 's xdr_ops =
  x_getbytes :: "'s \<Rightarrow> int32_t \<Rightarrow> (byte list option \<times> 's) kres"
  x_putbytes :: "'s \<Rightarrow> byte list \<Rightarrow> int32_t \<Rightarrow> (bool \<times> 's) kres"
  x_getpostn :: "'s \<Rightarrow> uint_t"
  x_setpostn :: "'s \<Rightarrow> uint_t \<Rightarrow> bool \<times> 's"
  x_inline :: "'s \<Rightarrow> int32_t \<Rightarrow> int option \<times> 's"
  x_control :: "'s \<Rightarrow> xdr_request \<Rightarrow> (bool \<times> int32_t option \<times> 's) kres"
  x_getint32 :: "'s \<Rightarrow> (int32_t option \<times> 's) kres"
  x_putint32 :: "'s \<Rightarrow> int32_t \<Rightarrow> (bool \<times> 's) kres"

text \<open>\<open>x_stream\<close> stands for the private fields, which each implementation uses as it likes.\<close>

record 's XDR =
  x_op :: xdr_op
  x_ops :: "'s xdr_ops"
  x_stream :: 's

section \<open>Network byte order\<close>

definition htonl_bytes :: "int32_t \<Rightarrow> byte list" where
  "htonl_bytes w =
     [ucast (drop_bit 24 w), ucast (drop_bit 16 w), ucast (drop_bit 8 w), ucast w]"

definition ntohl_bytes :: "byte list \<Rightarrow> int32_t" where
  "ntohl_bytes bs =
     push_bit 24 (ucast (bs ! 0)) OR push_bit 16 (ucast (bs ! 1)) OR
     push_bit 8 (ucast (bs ! 2)) OR ucast (bs ! 3)"

section \<open>Memory streams\<close>

text \<open>
  \<open>x_mem\<close> is the memory of the buffer that starts at \<^verbatim>\<open>x_base\<close>; \<open>x_private\<close> is the offset
  of the next byte from there, \<open>x_handy\<close> the signed count of bytes left.
\<close>

record xdrmem =
  x_mem :: "byte list"
  x_private :: int
  x_handy :: int32_t

text \<open>\<^verbatim>\<open>bcopy\<close> from and to the buffer; a negative length becomes a huge unsigned one.\<close>

definition mem_read :: "byte list \<Rightarrow> int \<Rightarrow> int \<Rightarrow> byte list kres" where
  "mem_read mem pos len =
     (if pos < 0 \<or> len < 0 \<or> int (length mem) < pos + len then KFault
      else KRet (take (nat len) (drop (nat pos) mem)))"

definition mem_write :: "byte list \<Rightarrow> int \<Rightarrow> byte list \<Rightarrow> byte list kres" where
  "mem_write mem pos bs =
     (if pos < 0 \<or> int (length mem) < pos + int (length bs) then KFault
      else KRet (take (nat pos) mem @ bs @ drop (nat pos + length bs) mem))"

definition xdrmem_getint32 :: "xdrmem \<Rightarrow> (int32_t option \<times> xdrmem) kres" where
  "xdrmem_getint32 s =
     (let s1 = s\<lparr>x_handy := x_handy s - 4\<rparr> in
      if sint (x_handy s1) < 0 then KRet (None, s1)
      else kbind (mem_read (x_mem s1) (x_private s1) 4) (\<lambda>bs.
             KRet (Some (ntohl_bytes bs), s1\<lparr>x_private := x_private s1 + 4\<rparr>)))"

definition xdrmem_putint32 :: "xdrmem \<Rightarrow> int32_t \<Rightarrow> (bool \<times> xdrmem) kres" where
  "xdrmem_putint32 s w =
     (let s1 = s\<lparr>x_handy := x_handy s - 4\<rparr> in
      if sint (x_handy s1) < 0 then KRet (False, s1)
      else kbind (mem_write (x_mem s1) (x_private s1) (htonl_bytes w)) (\<lambda>mem.
             KRet (True, s1\<lparr>x_mem := mem, x_private := x_private s1 + 4\<rparr>)))"

definition xdrmem_getbytes :: "xdrmem \<Rightarrow> int32_t \<Rightarrow> (byte list option \<times> xdrmem) kres" where
  "xdrmem_getbytes s len =
     (let s1 = s\<lparr>x_handy := x_handy s - len\<rparr> in
      if sint (x_handy s1) < 0 then KRet (None, s1)
      else kbind (mem_read (x_mem s1) (x_private s1) (sint len)) (\<lambda>bs.
             KRet (Some bs, s1\<lparr>x_private := x_private s1 + sint len\<rparr>)))"

definition xdrmem_putbytes :: "xdrmem \<Rightarrow> byte list \<Rightarrow> int32_t \<Rightarrow> (bool \<times> xdrmem) kres" where
  "xdrmem_putbytes s addr len =
     (let s1 = s\<lparr>x_handy := x_handy s - len\<rparr> in
      if sint (x_handy s1) < 0 then KRet (False, s1)
      else kbind (mem_read addr 0 (sint len)) (\<lambda>bs.
           kbind (mem_write (x_mem s1) (x_private s1) bs) (\<lambda>mem.
             KRet (True, s1\<lparr>x_mem := mem, x_private := x_private s1 + sint len\<rparr>))))"

definition xdrmem_getpos :: "xdrmem \<Rightarrow> uint_t" where
  "xdrmem_getpos s = word_of_int (x_private s)"

definition xdrmem_setpos :: "xdrmem \<Rightarrow> uint_t \<Rightarrow> bool \<times> xdrmem" where
  "xdrmem_setpos s pos =
     (let newaddr = int (unat pos);
          lastaddr = x_private s + sint (x_handy s) in
      if lastaddr < newaddr then (False, s)
      else (True, s\<lparr>x_private := newaddr, x_handy := word_of_int (lastaddr - newaddr)\<rparr>))"

text \<open>The result of \<open>xdrmem_inline\<close> is a pointer into the buffer, given as its offset.\<close>

definition xdrmem_inline :: "xdrmem \<Rightarrow> int32_t \<Rightarrow> int option \<times> xdrmem" where
  "xdrmem_inline s len =
     (if sint len \<le> sint (x_handy s)
      then (Some (x_private s), s\<lparr>x_handy := x_handy s - len, x_private := x_private s + sint len\<rparr>)
      else (None, s))"

text \<open>
  The guard of \<open>XDR_PEEK\<close> compares the \<^verbatim>\<open>int\<close> \<open>x_handy\<close> with a \<^verbatim>\<open>sizeof\<close>, so it is an unsigned
  64-bit comparison.
\<close>

definition xdrmem_control :: "xdrmem \<Rightarrow> xdr_request \<Rightarrow> (bool \<times> int32_t option \<times> xdrmem) kres" where
  "xdrmem_control s request =
     (case request of
        XDR_PEEK \<Rightarrow>
          if (scast (x_handy s) :: size_t) < 4 then KRet (False, None, s)
          else kbind (mem_read (x_mem s) (x_private s) 4) (\<lambda>bs. KRet (True, Some (ntohl_bytes bs), s))
      | XDR_SKIPBYTES n \<Rightarrow>
          (let len = RNDUP n; s1 = s\<lparr>x_handy := x_handy s - len\<rparr> in
           if sint (x_handy s1) < 0 then KRet (False, None, s1)
           else KRet (True, None, s1\<lparr>x_private := x_private s1 + sint len\<rparr>))
      | XDR_request_other _ \<Rightarrow> KRet (False, None, s))"

definition xdrmem_ops :: "xdrmem xdr_ops" where
  "xdrmem_ops =
     \<lparr>x_getbytes = xdrmem_getbytes, x_putbytes = xdrmem_putbytes, x_getpostn = xdrmem_getpos,
      x_setpostn = xdrmem_setpos, x_inline = xdrmem_inline, x_control = xdrmem_control,
      x_getint32 = xdrmem_getint32, x_putint32 = xdrmem_putint32\<rparr>"

text \<open>\<open>addr\<close> is the memory behind the pointer that \<open>xdrmem_create\<close> is given.\<close>

definition xdrmem_create :: "byte list \<Rightarrow> uint_t \<Rightarrow> xdr_op \<Rightarrow> xdrmem XDR" where
  "xdrmem_create addr sz op =
     \<lparr>x_op = op, x_ops = xdrmem_ops, x_stream = \<lparr>x_mem = addr, x_private = 0, x_handy = sz\<rparr>\<rparr>"

section \<open>Byte order is a bijection\<close>

lemma ntohl_htonl [simp]: "ntohl_bytes (htonl_bytes w) = w"
proof (rule bit_word_eqI)
  fix n :: nat
  assume "n < LENGTH(32)"
  then have n: "n < 32" by simp
  consider "n < 8" | "8 \<le> n" "n < 16" | "16 \<le> n" "n < 24" | "24 \<le> n" by linarith
  then show "bit (ntohl_bytes (htonl_bytes w)) n = bit w n"
    by cases (use n in \<open>auto simp: ntohl_bytes_def htonl_bytes_def bit_simps\<close>)
qed

lemma htonl_ntohl:
  assumes "length bs = 4"
  shows "htonl_bytes (ntohl_bytes bs) = bs"
proof -
  obtain a b c d where bs: "bs = [a, b, c, d]"
    using assms by (auto simp: numeral_eq_Suc length_Suc_conv)
  show ?thesis unfolding bs
    by (auto simp: ntohl_bytes_def htonl_bytes_def intro!: bit_word_eqI) (auto simp: bit_simps dest: bit_imp_le_length)
qed

lemma length_htonl [simp]: "length (htonl_bytes w) = 4"
  by (simp add: htonl_bytes_def)

end
