(* ===== verification/Xdr.thy ===== *)
theory Xdr
  imports Xdr_Mem
begin

text \<open>
  XDR filters, \<^verbatim>\<open>uts/common/rpc/xdr.c\<close>, \<^verbatim>\<open>xdr_arra.c\<close> and \<^verbatim>\<open>xdr_refe.c\<close>, over the operations
  of an arbitrary stream.  A filter gets the object its pointer argument refers to and
  returns the C result, the object afterwards and the handle.  A pointer to storage that
  may be null is an \<open>option\<close>; the storage of a \<^verbatim>\<open>char *\<close> is the list of its bytes, whose
  length is the size it was allocated with.
\<close>

type_synonym ('v, 's) xdrproc = "'v \<Rightarrow> 's XDR \<Rightarrow> (bool \<times> 'v \<times> 's XDR) kres"

definition LASTUNSIGNED :: uint_t where
  "LASTUNSIGNED = 0 - 1"

definition xdr_zero :: "byte list" where
  "xdr_zero = [0, 0, 0, 0]"

section \<open>The stream operations of a handle\<close>

definition XDR_GETINT32 :: "'s XDR \<Rightarrow> (int32_t option \<times> 's XDR) kres" where
  "XDR_GETINT32 x =
     kbind (x_getint32 (x_ops x) (x_stream x)) (\<lambda>(r, s). KRet (r, x\<lparr>x_stream := s\<rparr>))"

definition XDR_PUTINT32 :: "'s XDR \<Rightarrow> int32_t \<Rightarrow> (bool \<times> 's XDR) kres" where
  "XDR_PUTINT32 x w =
     kbind (x_putint32 (x_ops x) (x_stream x) w) (\<lambda>(r, s). KRet (r, x\<lparr>x_stream := s\<rparr>))"

definition XDR_GETBYTES :: "'s XDR \<Rightarrow> int32_t \<Rightarrow> (byte list option \<times> 's XDR) kres" where
  "XDR_GETBYTES x len =
     kbind (x_getbytes (x_ops x) (x_stream x) len) (\<lambda>(r, s). KRet (r, x\<lparr>x_stream := s\<rparr>))"

definition XDR_PUTBYTES :: "'s XDR \<Rightarrow> byte list \<Rightarrow> int32_t \<Rightarrow> (bool \<times> 's XDR) kres" where
  "XDR_PUTBYTES x addr len =
     kbind (x_putbytes (x_ops x) (x_stream x) addr len) (\<lambda>(r, s). KRet (r, x\<lparr>x_stream := s\<rparr>))"

section \<open>Memory\<close>

text \<open>
  What \<^verbatim>\<open>mem_alloc\<close> returns is not initialised; every byte is written before it is read.
  \<^verbatim>\<open>mem_free\<close> has to be given the size that was allocated.
\<close>

definition mem_alloc :: "uint_t \<Rightarrow> byte list" where
  "mem_alloc n = replicate (unat n) 0"

definition mem_free :: "byte list \<Rightarrow> uint_t \<Rightarrow> unit kres" where
  "mem_free sp n = (if length sp = unat n then KRet () else KFault)"

text \<open>The bytes that can be read through a pointer: none through a null pointer.\<close>

definition ptr_mem :: "byte list option \<Rightarrow> byte list" where
  "ptr_mem p = (case p of None \<Rightarrow> [] | Some bs \<Rightarrow> bs)"

text \<open>A string without a terminating byte in its storage is read beyond its end.\<close>

definition strlen :: "byte list \<Rightarrow> nat kres" where
  "strlen sp = (if 0 \<in> set sp then KRet (length (takeWhile (\<lambda>c. c \<noteq> 0) sp)) else KFault)"

section \<open>Filters\<close>

definition xdr_free :: "('v, 's) xdrproc \<Rightarrow> 'v \<Rightarrow> 's XDR \<Rightarrow> (bool \<times> 'v \<times> 's XDR) kres" where
  "xdr_free proc objp x = proc objp (x\<lparr>x_op := XDR_FREE\<rparr>)"

definition xdr_void :: bool where
  "xdr_void = True"

definition xdr_int :: "(int32_t, 's) xdrproc" where
  "xdr_int ip x =
     (if x_op x = XDR_ENCODE then kbind (XDR_PUTINT32 x ip) (\<lambda>(r, x). KRet (r, ip, x))
      else if x_op x = XDR_DECODE then
        kbind (XDR_GETINT32 x) (\<lambda>(r, x).
          case r of None \<Rightarrow> KRet (False, ip, x) | Some w \<Rightarrow> KRet (True, w, x))
      else if x_op x = XDR_FREE then KRet (True, ip, x)
      else KRet (False, ip, x))"

definition xdr_u_int :: "(uint_t, 's) xdrproc" where
  "xdr_u_int up x =
     (if x_op x = XDR_ENCODE then kbind (XDR_PUTINT32 x up) (\<lambda>(r, x). KRet (r, up, x))
      else if x_op x = XDR_DECODE then
        kbind (XDR_GETINT32 x) (\<lambda>(r, x).
          case r of None \<Rightarrow> KRet (False, up, x) | Some w \<Rightarrow> KRet (True, w, x))
      else if x_op x = XDR_FREE then KRet (True, up, x)
      else KRet (False, up, x))"

text \<open>
  The two halves of a \<^verbatim>\<open>long long\<close> in memory; on either byte order the high half goes
  first.  A failed second read leaves the half already read in place.
\<close>

definition hi32 :: "64 word \<Rightarrow> int32_t" where
  "hi32 w = ucast (drop_bit 32 w)"

definition lo32 :: "64 word \<Rightarrow> int32_t" where
  "lo32 w = ucast w"

definition halves :: "int32_t \<Rightarrow> int32_t \<Rightarrow> 64 word" where
  "halves h l = push_bit 32 (ucast h) OR ucast l"

definition xdr_longlong_t :: "(64 word, 's) xdrproc" where
  "xdr_longlong_t hp x =
     (if x_op x = XDR_ENCODE then
        kbind (XDR_PUTINT32 x (hi32 hp)) (\<lambda>(r, x).
          if r then kbind (XDR_PUTINT32 x (lo32 hp)) (\<lambda>(r, x). KRet (r, hp, x))
          else KRet (False, hp, x))
      else if x_op x = XDR_DECODE then
        kbind (XDR_GETINT32 x) (\<lambda>(r, x).
          case r of
            None \<Rightarrow> KRet (False, hp, x)
          | Some h \<Rightarrow>
              kbind (XDR_GETINT32 x) (\<lambda>(r, x).
                case r of
                  None \<Rightarrow> KRet (False, halves h (lo32 hp), x)
                | Some l \<Rightarrow> KRet (True, halves h l, x)))
      else KRet (True, hp, x))"

definition xdr_u_longlong_t :: "(64 word, 's) xdrproc" where
  "xdr_u_longlong_t hp x =
     (if x_op x = XDR_ENCODE then
        kbind (XDR_PUTINT32 x (hi32 hp)) (\<lambda>(r, x).
          if r then kbind (XDR_PUTINT32 x (lo32 hp)) (\<lambda>(r, x). KRet (r, hp, x))
          else KRet (False, hp, x))
      else if x_op x = XDR_DECODE then
        kbind (XDR_GETINT32 x) (\<lambda>(r, x).
          case r of
            None \<Rightarrow> KRet (False, hp, x)
          | Some h \<Rightarrow>
              kbind (XDR_GETINT32 x) (\<lambda>(r, x).
                case r of
                  None \<Rightarrow> KRet (False, halves h (lo32 hp), x)
                | Some l \<Rightarrow> KRet (True, halves h l, x)))
      else KRet (True, hp, x))"

definition xdr_short :: "(short_t, 's) xdrproc" where
  "xdr_short sp x =
     (case x_op x of
        XDR_ENCODE \<Rightarrow> kbind (XDR_PUTINT32 x (scast sp)) (\<lambda>(r, x). KRet (r, sp, x))
      | XDR_DECODE \<Rightarrow>
          kbind (XDR_GETINT32 x) (\<lambda>(r, x).
            case r of None \<Rightarrow> KRet (False, sp, x) | Some l \<Rightarrow> KRet (True, ucast l, x))
      | XDR_FREE \<Rightarrow> KRet (True, sp, x)
      | XDR_other _ \<Rightarrow> KRet (False, sp, x))"

definition xdr_u_short :: "(ushort_t, 's) xdrproc" where
  "xdr_u_short usp x =
     (case x_op x of
        XDR_ENCODE \<Rightarrow> kbind (XDR_PUTINT32 x (ucast usp)) (\<lambda>(r, x). KRet (r, usp, x))
      | XDR_DECODE \<Rightarrow>
          kbind (XDR_GETINT32 x) (\<lambda>(r, x).
            case r of None \<Rightarrow> KRet (False, usp, x) | Some l \<Rightarrow> KRet (True, ucast l, x))
      | XDR_FREE \<Rightarrow> KRet (True, usp, x)
      | XDR_other _ \<Rightarrow> KRet (False, usp, x))"

definition xdr_char :: "(byte, 's) xdrproc" where
  "xdr_char cp x =
     kbind (xdr_int (scast cp) x) (\<lambda>(r, i, x).
       if \<not> r then KRet (False, cp, x) else KRet (True, ucast i, x))"

text \<open>\<^verbatim>\<open>bool_t\<close> is an \<^verbatim>\<open>int\<close>: any value but 0 is true.\<close>

definition xdr_bool :: "(int32_t, 's) xdrproc" where
  "xdr_bool bp x =
     (case x_op x of
        XDR_ENCODE \<Rightarrow>
          kbind (XDR_PUTINT32 x (if bp \<noteq> 0 then 1 else 0)) (\<lambda>(r, x). KRet (r, bp, x))
      | XDR_DECODE \<Rightarrow>
          kbind (XDR_GETINT32 x) (\<lambda>(r, x).
            case r of None \<Rightarrow> KRet (False, bp, x) | Some l \<Rightarrow> KRet (True, if l = 0 then 0 else 1, x))
      | XDR_FREE \<Rightarrow> KRet (True, bp, x)
      | XDR_other _ \<Rightarrow> KRet (False, bp, x))"

text \<open>An \<^verbatim>\<open>enum\<close> has the size of an \<^verbatim>\<open>int\<close>.\<close>

definition xdr_enum :: "(int32_t, 's) xdrproc" where
  "xdr_enum ep x = xdr_int ep x"

text \<open>
  \<open>cp\<close> is the memory behind the pointer.  On success of the first read the bytes are in
  place, whatever becomes of the padding.
\<close>

definition xdr_opaque :: "byte list \<Rightarrow> uint_t \<Rightarrow> 's XDR \<Rightarrow> (bool \<times> byte list \<times> 's XDR) kres" where
  "xdr_opaque cp cnt x =
     (if cnt = 0 then KRet (True, cp, x)
      else
        let rndup = (if cnt mod 4 \<noteq> 0 then 4 - cnt mod 4 else 0) in
        if x_op x = XDR_DECODE then
          kbind (XDR_GETBYTES x cnt) (\<lambda>(r, x).
            case r of
              None \<Rightarrow> KRet (False, cp, x)
            | Some bs \<Rightarrow>
                kbind (mem_write cp 0 bs) (\<lambda>cp'.
                  if rndup = 0 then KRet (True, cp', x)
                  else kbind (XDR_GETBYTES x rndup) (\<lambda>(r, x). KRet (r \<noteq> None, cp', x))))
        else if x_op x = XDR_ENCODE then
          kbind (XDR_PUTBYTES x cp cnt) (\<lambda>(r, x).
            if \<not> r then KRet (False, cp, x)
            else if rndup = 0 then KRet (True, cp, x)
            else kbind (XDR_PUTBYTES x xdr_zero rndup) (\<lambda>(r, x). KRet (r, cp, x)))
        else if x_op x = XDR_FREE then KRet (True, cp, x)
        else KRet (False, cp, x))"

definition xdr_bytes ::
  "uint_t \<Rightarrow> byte list option \<times> uint_t \<Rightarrow> 's XDR \<Rightarrow> (bool \<times> (byte list option \<times> uint_t) \<times> 's XDR) kres"
where
  "xdr_bytes maxsize obj x =
     (let (cpp, sizep) = obj in
      kbind (xdr_u_int sizep x) (\<lambda>(r, nodesize, x).
        if \<not> r then KRet (False, (cpp, nodesize), x)
        else if maxsize < nodesize \<and> x_op x \<noteq> XDR_FREE then KRet (False, (cpp, nodesize), x)
        else
          case x_op x of
            XDR_DECODE \<Rightarrow>
              if nodesize = 0 then KRet (True, (cpp, nodesize), x)
              else
                let sp = (case cpp of None \<Rightarrow> mem_alloc nodesize | Some sp \<Rightarrow> sp) in
                kbind (xdr_opaque sp nodesize x) (\<lambda>(r, sp, x). KRet (r, (Some sp, nodesize), x))
          | XDR_ENCODE \<Rightarrow>
              kbind (xdr_opaque (ptr_mem cpp) nodesize x) (\<lambda>(r, _, x). KRet (r, (cpp, nodesize), x))
          | XDR_FREE \<Rightarrow>
              (case cpp of
                 None \<Rightarrow> KRet (True, (None, nodesize), x)
               | Some sp \<Rightarrow> kbind (mem_free sp nodesize) (\<lambda>_. KRet (True, (None, nodesize), x)))
          | XDR_other _ \<Rightarrow> KRet (False, (cpp, nodesize), x)))"

definition MAX_NETOBJ_SZ :: uint_t where
  "MAX_NETOBJ_SZ = 1024"

definition xdr_netobj ::
  "byte list option \<times> uint_t \<Rightarrow> 's XDR \<Rightarrow> (bool \<times> (byte list option \<times> uint_t) \<times> 's XDR) kres"
where
  "xdr_netobj np x = xdr_bytes MAX_NETOBJ_SZ np x"

text \<open>The arms of a union; the array of choices ends at its null procedure.\<close>

fun xdr_union_search ::
  "(int32_t \<times> ('v, 's) xdrproc) list \<Rightarrow> int32_t \<Rightarrow> ('v, 's) xdrproc option"
where
  "xdr_union_search [] dscm = None"
| "xdr_union_search ((v, proc) # choices) dscm =
     (if v = dscm then Some proc else xdr_union_search choices dscm)"

definition xdr_union ::
  "(int32_t \<times> ('v, 's) xdrproc) list \<Rightarrow> ('v, 's) xdrproc option \<Rightarrow> (int32_t \<times> 'v, 's) xdrproc"
where
  "xdr_union choices dfault obj x =
     (let (dscmp, unp) = obj in
      kbind (xdr_enum dscmp x) (\<lambda>(r, dscm, x).
        if \<not> r then KRet (False, (dscm, unp), x)
        else
          case xdr_union_search choices dscm of
            Some proc \<Rightarrow> kbind (proc unp x) (\<lambda>(r, unp, x). KRet (r, (dscm, unp), x))
          | None \<Rightarrow>
              (case dfault of
                 None \<Rightarrow> KRet (False, (dscm, unp), x)
               | Some proc \<Rightarrow> kbind (proc unp x) (\<lambda>(r, unp, x). KRet (r, (dscm, unp), x)))))"

text \<open>
  \<open>size\<close> has no value before the decoding \<open>xdr_u_int\<close> sets it.  Of a length that does not fit
  with its terminator nothing is decoded and the result is \<^verbatim>\<open>TRUE\<close>.
\<close>

definition xdr_string :: "uint_t \<Rightarrow> (byte list option, 's) xdrproc" where
  "xdr_string maxsize cpp x =
     (if x_op x = XDR_FREE \<and> cpp = None then KRet (True, cpp, x)
      else
        kbind (case cpp of
                 Some sp \<Rightarrow> if x_op x = XDR_FREE \<or> x_op x = XDR_ENCODE
                            then kbind (strlen sp) (\<lambda>n. KRet (of_nat n)) else KRet 0
               | None \<Rightarrow> KRet 0) (\<lambda>sz0.
        kbind (xdr_u_int sz0 x) (\<lambda>(r, sz, x).
          if \<not> r then KRet (False, cpp, x)
          else if maxsize < sz then KRet (False, cpp, x)
          else
            let nodesize = sz + 1 in
            case x_op x of
              XDR_DECODE \<Rightarrow>
                if nodesize = 0 then KRet (True, cpp, x)
                else
                  let sp = (case cpp of None \<Rightarrow> mem_alloc nodesize | Some sp \<Rightarrow> sp) in
                  kbind (mem_write sp (int (unat sz)) [0]) (\<lambda>sp.
                  kbind (xdr_opaque sp sz x) (\<lambda>(r, sp, x).
                    if \<not> r then
                      (case cpp of
                         None \<Rightarrow> kbind (mem_free sp nodesize) (\<lambda>_. KRet (False, None, x))
                       | Some _ \<Rightarrow> KRet (False, Some sp, x))
                    else
                      kbind (strlen sp) (\<lambda>n.
                        if n \<noteq> unat sz then
                          (case cpp of
                             None \<Rightarrow> kbind (mem_free sp nodesize) (\<lambda>_. KRet (False, None, x))
                           | Some _ \<Rightarrow> KRet (False, Some sp, x))
                        else KRet (True, Some sp, x))))
            | XDR_ENCODE \<Rightarrow>
                kbind (xdr_opaque (ptr_mem cpp) sz x) (\<lambda>(r, _, x). KRet (r, cpp, x))
            | XDR_FREE \<Rightarrow> kbind (mem_free (ptr_mem cpp) nodesize) (\<lambda>_. KRet (True, None, x))
            | XDR_other _ \<Rightarrow> KRet (False, cpp, x))))"

definition xdr_wrapstring :: "(byte list option, 's) xdrproc" where
  "xdr_wrapstring cpp x = xdr_string LASTUNSIGNED cpp x"

section \<open>Arrays and pointers\<close>

text \<open>
  An array is the list of its elements; \<open>elsize\<close> is the size of one.  The storage that
  \<open>xdr_array\<close> allocates has room for as many whole elements as \<open>nodesize\<close> bytes hold, each
  \<open>zero\<close> after the \<^verbatim>\<open>bzero\<close>; an element beyond it is \<open>KFault\<close>, as is one of a null array.
\<close>

function xdr_array_loop ::
  "('v, 's) xdrproc \<Rightarrow> 'v list \<Rightarrow> uint_t \<Rightarrow> uint_t \<Rightarrow> 's XDR \<Rightarrow> (bool \<times> 'v list \<times> 's XDR) kres"
where
  "xdr_array_loop elproc target c i x =
     (if \<not> i < c then KRet (True, target, x)
      else if length target \<le> unat i then KFault
      else
        kbind (elproc (target ! unat i) x) (\<lambda>(stat, v, x').
          let target' = target[unat i := v] in
          if stat then xdr_array_loop elproc target' c (i + 1) x'
          else KRet (False, target', x')))"
  by pat_completeness auto
termination
proof (relation "measure (\<lambda>(elproc, target, c, i, x). unat c - unat i)", simp)
  fix c i :: uint_t
  assume "\<not> \<not> i < c"
  then have lt: "unat i < unat c" by (simp add: word_less_nat_alt)
  then have "unat (i + 1) = unat i + 1"
    using unat_add_no_wrap [of i 1] unat_bound [of c] by simp
  with lt show "((elproc :: ('v, 's) xdrproc, target', c, i + 1, x'), elproc', target, c, i, x)
      \<in> measure (\<lambda>(elproc, target, c, i, x). unat c - unat i)" for elproc target' x' elproc' target x
    by simp
qed

declare xdr_array_loop.simps [simp del]

definition array_cells :: "'v \<Rightarrow> uint_t \<Rightarrow> uint_t \<Rightarrow> 'v list" where
  "array_cells zero nodesize elsize = replicate (unat nodesize div unat elsize) zero"

definition xdr_array ::
  "uint_t \<Rightarrow> uint_t \<Rightarrow> 'v \<Rightarrow> ('v, 's) xdrproc \<Rightarrow> ('v list option \<times> uint_t, 's) xdrproc"
where
  "xdr_array maxsize elsize zero elproc obj x =
     (let (addrp, sizep) = obj in
      kbind (xdr_u_int sizep x) (\<lambda>(r, c, x).
        if \<not> r then KRet (False, (addrp, c), x)
        else if maxsize < c \<and> x_op x \<noteq> XDR_FREE then KRet (False, (addrp, c), x)
        else
          let nodesize = c * elsize in
          if addrp = None \<and> x_op x = XDR_DECODE \<and> c = 0 then KRet (True, (addrp, c), x)
          else if addrp = None \<and> x_op x = XDR_FREE then KRet (True, (addrp, c), x)
          else
            let target = (case addrp of
                            Some vs \<Rightarrow> vs
                          | None \<Rightarrow> if x_op x = XDR_DECODE then array_cells zero nodesize elsize else []);
                addrp = (if x_op x = XDR_DECODE then Some target else addrp) in
            kbind (xdr_array_loop elproc target c 0 x) (\<lambda>(stat, target, x).
              if x_op x = XDR_FREE then
                if length target = unat nodesize div unat elsize then KRet (stat, (None, c), x) else KFault
              else KRet (stat, (map_option (\<lambda>_. target) addrp, c), x))))"

text \<open>A pointed-to object of \<^verbatim>\<open>size\<close> bytes; \<open>zero\<close> is the object after \<^verbatim>\<open>bzero\<close>.\<close>

definition xdr_reference :: "'v \<Rightarrow> ('v, 's) xdrproc \<Rightarrow> ('v option, 's) xdrproc" where
  "xdr_reference zero proc pp x =
     (case pp of
        None \<Rightarrow>
          (case x_op x of
             XDR_FREE \<Rightarrow> KRet (True, None, x)
           | XDR_DECODE \<Rightarrow> kbind (proc zero x) (\<lambda>(stat, v, x). KRet (stat, Some v, x))
           | _ \<Rightarrow> KFault)
      | Some loc \<Rightarrow>
          kbind (proc loc x) (\<lambda>(stat, v, x).
            if x_op x = XDR_FREE then KRet (stat, None, x) else KRet (stat, Some v, x)))"

definition xdr_pointer :: "'v \<Rightarrow> ('v, 's) xdrproc \<Rightarrow> ('v option, 's) xdrproc" where
  "xdr_pointer zero xdr_obj objpp x =
     kbind (xdr_bool (if objpp \<noteq> None then 1 else 0) x) (\<lambda>(r, more_data, x).
       if \<not> r then KRet (False, objpp, x)
       else if more_data = 0 then KRet (True, None, x)
       else xdr_reference zero xdr_obj objpp x)"

section \<open>The contract of a stream\<close>

text \<open>
  A stream in a good state has bytes behind its position, \<open>sent\<close>, and bytes before it,
  \<open>ahead\<close>.  Writing replaces bytes ahead and moves them behind; reading returns them and
  moves them behind; an operation that needs more bytes than there are returns \<^verbatim>\<open>FALSE\<close>.
\<close>

locale xdr_stream =
  fixes ops :: "'s xdr_ops" and good :: "'s \<Rightarrow> bool"
    and sent :: "'s \<Rightarrow> byte list" and ahead :: "'s \<Rightarrow> byte list"
  assumes putbytes: "good s \<Longrightarrow> sint len = int n \<Longrightarrow> n \<le> length addr \<Longrightarrow> n \<le> length (ahead s) \<Longrightarrow>
      \<exists>s'. x_putbytes ops s addr len = KRet (True, s') \<and> good s' \<and>
        sent s' = sent s @ take n addr \<and> ahead s' = drop n (ahead s)"
    and putbytes_full: "good s \<Longrightarrow> sint len = int n \<Longrightarrow> length (ahead s) < n \<Longrightarrow>
      \<exists>s'. x_putbytes ops s addr len = KRet (False, s')"
    and getbytes: "good s \<Longrightarrow> sint len = int n \<Longrightarrow> n \<le> length (ahead s) \<Longrightarrow>
      \<exists>s'. x_getbytes ops s len = KRet (Some (take n (ahead s)), s') \<and> good s' \<and>
        sent s' = sent s @ take n (ahead s) \<and> ahead s' = drop n (ahead s)"
    and getbytes_short: "good s \<Longrightarrow> sint len = int n \<Longrightarrow> length (ahead s) < n \<Longrightarrow>
      \<exists>s'. x_getbytes ops s len = KRet (None, s')"
    and putint32: "good s \<Longrightarrow> 4 \<le> length (ahead s) \<Longrightarrow>
      \<exists>s'. x_putint32 ops s w = KRet (True, s') \<and> good s' \<and>
        sent s' = sent s @ htonl_bytes w \<and> ahead s' = drop 4 (ahead s)"
    and putint32_full: "good s \<Longrightarrow> length (ahead s) < 4 \<Longrightarrow> \<exists>s'. x_putint32 ops s w = KRet (False, s')"
    and getint32: "good s \<Longrightarrow> 4 \<le> length (ahead s) \<Longrightarrow>
      \<exists>s'. x_getint32 ops s = KRet (Some (ntohl_bytes (take 4 (ahead s))), s') \<and> good s' \<and>
        sent s' = sent s @ take 4 (ahead s) \<and> ahead s' = drop 4 (ahead s)"
    and getint32_short: "good s \<Longrightarrow> length (ahead s) < 4 \<Longrightarrow> \<exists>s'. x_getint32 ops s = KRet (None, s')"

text \<open>The memory stream: between calls \<open>x_handy\<close> counts the bytes from the position to the end.\<close>

definition xdrmem_good :: "xdrmem \<Rightarrow> bool" where
  "xdrmem_good s \<longleftrightarrow> 0 \<le> x_private s \<and> 0 \<le> sint (x_handy s) \<and>
     x_private s + sint (x_handy s) = int (length (x_mem s))"

definition xdrmem_sent :: "xdrmem \<Rightarrow> byte list" where
  "xdrmem_sent s = take (nat (x_private s)) (x_mem s)"

definition xdrmem_ahead :: "xdrmem \<Rightarrow> byte list" where
  "xdrmem_ahead s = drop (nat (x_private s)) (x_mem s)"

lemma sint_sub_nonneg:
  assumes "0 \<le> sint a" "0 \<le> sint b"
  shows "sint (a - b :: 'a::len word) = sint a - sint b"
proof -
  have "sint a < 2 ^ (LENGTH('a) - 1)" "sint b < 2 ^ (LENGTH('a) - 1)" by (rule sint_lt)+
  then have "signed_take_bit (LENGTH('a) - 1) (sint a - sint b) = sint a - sint b"
    using assms by (intro signed_take_bit_int_eq_self) auto
  moreover have "a - b = word_of_int (sint a - sint b)" by simp
  ultimately show ?thesis by (metis sint_sbintrunc')
qed

lemma xdrmem_ahead_length: "xdrmem_good s \<Longrightarrow> int (length (xdrmem_ahead s)) = sint (x_handy s)"
  by (auto simp: xdrmem_good_def xdrmem_ahead_def)

text \<open>Writing and reading \<open>n\<close> bytes at the position.\<close>

lemma xdrmem_write_at:
  assumes "xdrmem_good s" "length bs \<le> length (xdrmem_ahead s)" "sint len = int (length bs)"
  shows "\<exists>mem. mem_write (x_mem s) (x_private s) bs = KRet mem \<and>
     (let s' = s\<lparr>x_handy := x_handy s - len, x_mem := mem, x_private := x_private s + sint len\<rparr> in
      xdrmem_good s' \<and> xdrmem_sent s' = xdrmem_sent s @ bs \<and>
      xdrmem_ahead s' = drop (length bs) (xdrmem_ahead s))"
proof -
  have g: "0 \<le> x_private s" "0 \<le> sint (x_handy s)" "x_private s + sint (x_handy s) = int (length (x_mem s))"
    using assms(1) by (auto simp: xdrmem_good_def)
  have l: "int (length bs) \<le> sint (x_handy s)" using assms(2) xdrmem_ahead_length [OF assms(1)] by linarith
  obtain p where p: "x_private s = int p" using g(1) nonneg_int_cases by blast
  have "p + length bs \<le> length (x_mem s)" using g l p by linarith
  moreover have "sint (x_handy s - len) = sint (x_handy s) - int (length bs)"
    using sint_sub_nonneg [of "x_handy s" len] g assms(3) by simp
  ultimately show ?thesis
    using g l p assms(3)
    by (simp add: mem_write_def xdrmem_good_def xdrmem_sent_def xdrmem_ahead_def nat_add_distrib Let_def
        min_absorb2 add.commute)
qed

lemma xdrmem_read_at:
  assumes "xdrmem_good s" "n \<le> length (xdrmem_ahead s)" "sint len = int n"
  shows "mem_read (x_mem s) (x_private s) (int n) = KRet (take n (xdrmem_ahead s)) \<and>
     (let s' = s\<lparr>x_handy := x_handy s - len, x_private := x_private s + sint len\<rparr> in
      xdrmem_good s' \<and> xdrmem_sent s' = xdrmem_sent s @ take n (xdrmem_ahead s) \<and>
      xdrmem_ahead s' = drop n (xdrmem_ahead s))"
proof -
  have g: "0 \<le> x_private s" "0 \<le> sint (x_handy s)" "x_private s + sint (x_handy s) = int (length (x_mem s))"
    using assms(1) by (auto simp: xdrmem_good_def)
  have l: "int n \<le> sint (x_handy s)" using assms(2) xdrmem_ahead_length [OF assms(1)] by linarith
  obtain p where p: "x_private s = int p" using g(1) nonneg_int_cases by blast
  have "sint (x_handy s - len) = sint (x_handy s) - int n"
    using sint_sub_nonneg [of "x_handy s" len] g assms(3) by simp
  then show ?thesis
    using g l p assms(3)
    by (simp add: mem_read_def xdrmem_good_def xdrmem_sent_def xdrmem_ahead_def nat_add_distrib Let_def
        take_add) (simp add: add.commute)
qed

lemma sint_neg_full:
  assumes "xdrmem_good s" "length (xdrmem_ahead s) < n" "sint len = int n"
  shows "sint (x_handy s - len) < 0"
proof -
  have "0 \<le> sint (x_handy s)" using assms(1) by (simp add: xdrmem_good_def)
  then have "sint (x_handy s - len) = sint (x_handy s) - int n"
    using sint_sub_nonneg [of "x_handy s" len] assms(3) by simp
  then show ?thesis using xdrmem_ahead_length [OF assms(1)] assms(2) by linarith
qed

lemma sint_nonneg_room:
  assumes "xdrmem_good s" "n \<le> length (xdrmem_ahead s)" "sint len = int n"
  shows "\<not> sint (x_handy s - len) < 0"
proof -
  have "0 \<le> sint (x_handy s)" using assms(1) by (simp add: xdrmem_good_def)
  then have "sint (x_handy s - len) = sint (x_handy s) - int n"
    using sint_sub_nonneg [of "x_handy s" len] assms(3) by simp
  then show ?thesis using xdrmem_ahead_length [OF assms(1)] assms(2) by linarith
qed

lemma sint_4: "sint (4 :: int32_t) = int 4"
  by simp

interpretation xmem: xdr_stream xdrmem_ops xdrmem_good xdrmem_sent xdrmem_ahead
proof unfold_locales
  fix s :: xdrmem and len :: int32_t and n and addr :: "byte list"
  assume a: "xdrmem_good s" "sint len = int n" "n \<le> length addr" "n \<le> length (xdrmem_ahead s)"
  have "length (take n addr) = n" using a(3) by simp
  then obtain mem where "mem_write (x_mem s) (x_private s) (take n addr) = KRet mem"
     "let s' = s\<lparr>x_handy := x_handy s - len, x_mem := mem, x_private := x_private s + sint len\<rparr> in
      xdrmem_good s' \<and> xdrmem_sent s' = xdrmem_sent s @ take n addr \<and> xdrmem_ahead s' = drop n (xdrmem_ahead s)"
    using xdrmem_write_at [OF a(1), of "take n addr" len] a by auto
  then show "\<exists>s'. x_putbytes xdrmem_ops s addr len = KRet (True, s') \<and> xdrmem_good s' \<and>
        xdrmem_sent s' = xdrmem_sent s @ take n addr \<and> xdrmem_ahead s' = drop n (xdrmem_ahead s)"
    using sint_nonneg_room [OF a(1,4,2)] a(2,3)
    by (simp add: xdrmem_ops_def xdrmem_putbytes_def Let_def mem_read_def)
next
  fix s :: xdrmem and len :: int32_t and n and addr :: "byte list"
  assume a: "xdrmem_good s" "sint len = int n" "length (xdrmem_ahead s) < n"
  show "\<exists>s'. x_putbytes xdrmem_ops s addr len = KRet (False, s')"
    using sint_neg_full [OF a(1,3,2)] by (simp add: xdrmem_ops_def xdrmem_putbytes_def Let_def)
  show "\<exists>s'. x_getbytes xdrmem_ops s len = KRet (None, s')"
    using sint_neg_full [OF a(1,3,2)] by (simp add: xdrmem_ops_def xdrmem_getbytes_def Let_def)
next
  fix s :: xdrmem and len :: int32_t and n
  assume a: "xdrmem_good s" "sint len = int n" "n \<le> length (xdrmem_ahead s)"
  show "\<exists>s'. x_getbytes xdrmem_ops s len = KRet (Some (take n (xdrmem_ahead s)), s') \<and> xdrmem_good s' \<and>
        xdrmem_sent s' = xdrmem_sent s @ take n (xdrmem_ahead s) \<and> xdrmem_ahead s' = drop n (xdrmem_ahead s)"
    using sint_nonneg_room [OF a(1,3,2)] xdrmem_read_at [OF a(1,3,2)] a(2)
    by (simp add: xdrmem_ops_def xdrmem_getbytes_def Let_def)
next
  fix s :: xdrmem and w :: int32_t
  assume a: "xdrmem_good s" "4 \<le> length (xdrmem_ahead s)"
  show "\<exists>s'. x_putint32 xdrmem_ops s w = KRet (True, s') \<and> xdrmem_good s' \<and>
        xdrmem_sent s' = xdrmem_sent s @ htonl_bytes w \<and> xdrmem_ahead s' = drop 4 (xdrmem_ahead s)"
    using sint_nonneg_room [OF a sint_4] xdrmem_write_at [OF a(1), of "htonl_bytes w" 4] a(2)
    by (auto simp: xdrmem_ops_def xdrmem_putint32_def Let_def)
  show "\<exists>s'. x_getint32 xdrmem_ops s = KRet (Some (ntohl_bytes (take 4 (xdrmem_ahead s))), s') \<and> xdrmem_good s' \<and>
        xdrmem_sent s' = xdrmem_sent s @ take 4 (xdrmem_ahead s) \<and> xdrmem_ahead s' = drop 4 (xdrmem_ahead s)"
    using sint_nonneg_room [OF a sint_4] xdrmem_read_at [OF a sint_4]
    by (simp add: xdrmem_ops_def xdrmem_getint32_def Let_def)
next
  fix s :: xdrmem and w :: int32_t
  assume a: "xdrmem_good s" "length (xdrmem_ahead s) < 4"
  show "\<exists>s'. x_putint32 xdrmem_ops s w = KRet (False, s')"
    using sint_neg_full [OF a sint_4] by (simp add: xdrmem_ops_def xdrmem_putint32_def Let_def)
  show "\<exists>s'. x_getint32 xdrmem_ops s = KRet (None, s')"
    using sint_neg_full [OF a sint_4] by (simp add: xdrmem_ops_def xdrmem_getint32_def Let_def)
qed

end
