(* ===== verification/Xdr_Filters.thy ===== *)
theory Xdr_Filters
  imports Xdr
begin

text \<open>
  What the XDR filters promise.  The contract of a stream (\<open>xdr_stream\<close>, in \<open>Xdr\<close>) is used
  to prove the contract \<open>xdr_filter\<close> of every filter once for all streams: it encodes into
  the format \<open>enc\<close>, fails when the encoding does not fit, and decodes what was encoded.
  Arrays and pointers carry the contract of their elements over to the whole.  The contracts
  are interpreted on the memory stream, and the properties at the end are read off from there.
\<close>

section \<open>The contract of a filter\<close>

text \<open>A handle for \<open>op\<close> on a stream with \<open>a\<close> behind and \<open>b\<close> before its position.\<close>

definition xdr_at ::
  "'s xdr_ops \<Rightarrow> ('s \<Rightarrow> bool) \<Rightarrow> ('s \<Rightarrow> byte list) \<Rightarrow> ('s \<Rightarrow> byte list) \<Rightarrow> xdr_op \<Rightarrow>
   byte list \<Rightarrow> byte list \<Rightarrow> 's XDR \<Rightarrow> bool"
where
  "xdr_at ops good sent ahead op a b x \<longleftrightarrow> x_ops x = ops \<and> x_op x = op \<and>
     good (x_stream x) \<and> sent (x_stream x) = a \<and> ahead (x_stream x) = b"

lemma xdr_at_op: "xdr_at ops good sent ahead op a b x \<Longrightarrow> x_op x = op"
  by (simp add: xdr_at_def)

text \<open>
  A filter that writes the values \<open>ok\<close> in the format \<open>enc\<close>: it encodes when the encoding
  fits and otherwise fails, and decodes what was encoded into an object that is \<open>fresh\<close>.
\<close>

locale xdr_filter = xdr_stream +
  fixes proc :: "('v, 's) xdrproc" and enc :: "'v \<Rightarrow> byte list"
    and ok :: "'v \<Rightarrow> bool" and fresh :: "'v \<Rightarrow> bool"
  assumes encode: "ok v \<Longrightarrow> xdr_at ops good sent ahead XDR_ENCODE a b x \<Longrightarrow> length (enc v) \<le> length b \<Longrightarrow>
      \<exists>x'. proc v x = KRet (True, v, x') \<and>
        xdr_at ops good sent ahead XDR_ENCODE (a @ enc v) (drop (length (enc v)) b) x'"
    and encode_full: "ok v \<Longrightarrow> xdr_at ops good sent ahead XDR_ENCODE a b x \<Longrightarrow> length b < length (enc v) \<Longrightarrow>
      \<exists>v' x'. proc v x = KRet (False, v', x') \<and> x_op x' = XDR_ENCODE"
    and decode: "ok v \<Longrightarrow> fresh u \<Longrightarrow> xdr_at ops good sent ahead XDR_DECODE a (enc v @ b) x \<Longrightarrow>
      \<exists>x'. proc u x = KRet (True, v, x') \<and> xdr_at ops good sent ahead XDR_DECODE (a @ enc v) b x'"

context xdr_stream
begin

lemma put32:
  assumes "xdr_at ops good sent ahead op a b x" "4 \<le> length b"
  shows "\<exists>x'. XDR_PUTINT32 x w = KRet (True, x') \<and> xdr_at ops good sent ahead op (a @ htonl_bytes w) (drop 4 b) x'"
  using assms putint32 [of "x_stream x" w] by (auto simp: XDR_PUTINT32_def xdr_at_def)

lemma put32_full:
  assumes "xdr_at ops good sent ahead op a b x" "length b < 4"
  shows "\<exists>x'. XDR_PUTINT32 x w = KRet (False, x') \<and> x_op x' = op"
  using assms putint32_full [of "x_stream x" w] by (auto simp: XDR_PUTINT32_def xdr_at_def)

lemma get32:
  assumes "xdr_at ops good sent ahead op a (htonl_bytes w @ b) x"
  shows "\<exists>x'. XDR_GETINT32 x = KRet (Some w, x') \<and> xdr_at ops good sent ahead op (a @ htonl_bytes w) b x'"
  using assms getint32 [of "x_stream x"] by (auto simp: XDR_GETINT32_def xdr_at_def)

lemma put_bytes:
  assumes "xdr_at ops good sent ahead op a b x" "sint len = int n" "n \<le> length addr" "n \<le> length b"
  shows "\<exists>x'. XDR_PUTBYTES x addr len = KRet (True, x') \<and>
    xdr_at ops good sent ahead op (a @ take n addr) (drop n b) x'"
  using assms putbytes [of "x_stream x" len n addr] by (auto simp: XDR_PUTBYTES_def xdr_at_def)

lemma put_bytes_full:
  assumes "xdr_at ops good sent ahead op a b x" "sint len = int n" "length b < n"
  shows "\<exists>x'. XDR_PUTBYTES x addr len = KRet (False, x') \<and> x_op x' = op"
  using assms putbytes_full [of "x_stream x" len n addr] by (auto simp: XDR_PUTBYTES_def xdr_at_def)

lemma get_bytes:
  assumes "xdr_at ops good sent ahead op a (bs @ b) x" "sint len = int (length bs)"
  shows "\<exists>x'. XDR_GETBYTES x len = KRet (Some bs, x') \<and> xdr_at ops good sent ahead op (a @ bs) b x'"
  using assms getbytes [of "x_stream x" len "length bs"] by (auto simp: XDR_GETBYTES_def xdr_at_def)

text \<open>A filter of one word.\<close>

lemma word_filter:
  assumes e: "\<And>v x. ok v \<Longrightarrow> x_op x = XDR_ENCODE \<Longrightarrow>
      proc v x = kbind (XDR_PUTINT32 x (f v)) (\<lambda>(r, x). KRet (r, v, x))"
    and d: "\<And>u x. x_op x = XDR_DECODE \<Longrightarrow> proc u x =
      kbind (XDR_GETINT32 x) (\<lambda>(r, x). case r of None \<Rightarrow> KRet (False, u, x) | Some w \<Rightarrow> KRet (True, g w, x))"
    and fg: "\<And>v. ok v \<Longrightarrow> g (f v) = v"
  shows "xdr_filter ops good sent ahead proc (\<lambda>v. htonl_bytes (f v)) ok (\<lambda>_. True)"
proof unfold_locales
  fix v a b x
  assume a: "ok v" "xdr_at ops good sent ahead XDR_ENCODE a b x"
  note op = xdr_at_op [OF a(2)]
  {
    assume "length (htonl_bytes (f v)) \<le> length b"
    then show "\<exists>x'. proc v x = KRet (True, v, x') \<and> xdr_at ops good sent ahead XDR_ENCODE (a @ htonl_bytes (f v))
          (drop (length (htonl_bytes (f v))) b) x'"
      using put32 [OF a(2), of "f v"] e [OF a(1) op] by auto
  }
  {
    assume "length b < length (htonl_bytes (f v))"
    then show "\<exists>v' x'. proc v x = KRet (False, v', x') \<and> x_op x' = XDR_ENCODE"
      using put32_full [OF a(2), of "f v"] e [OF a(1) op] by auto
  }
next
  fix v u a b x
  assume a: "ok v" "xdr_at ops good sent ahead XDR_DECODE a (htonl_bytes (f v) @ b) x"
  show "\<exists>x'. proc u x = KRet (True, v, x') \<and> xdr_at ops good sent ahead XDR_DECODE (a @ htonl_bytes (f v)) b x'"
    using get32 [OF a(2)] d [OF xdr_at_op [OF a(2)], of u] fg [OF a(1)] by auto
qed

end

lemma ucast_scast_short: "(ucast (scast (v :: short_t) :: int32_t) :: short_t) = v"
  by (rule bit_word_eqI) (simp add: bit_simps)

lemma ucast_ucast_short: "(ucast (ucast (v :: ushort_t) :: uint_t) :: ushort_t) = v"
  by (rule bit_word_eqI) (simp add: bit_simps)

lemma ucast_scast_byte: "(ucast (scast (v :: byte) :: int32_t) :: byte) = v"
  by (rule bit_word_eqI) (simp add: bit_simps)

lemma halves_hi_lo [simp]: "halves (hi32 w) (lo32 w) = w"
proof (rule bit_word_eqI)
  fix n :: nat
  assume "n < LENGTH(64)"
  then show "bit (halves (hi32 w) (lo32 w)) n = bit w n"
    by (cases "n < 32") (auto simp: halves_def hi32_def lo32_def bit_simps)
qed

definition enc_longlong :: "64 word \<Rightarrow> byte list" where
  "enc_longlong w = htonl_bytes (hi32 w) @ htonl_bytes (lo32 w)"

text \<open>Opaque data with its padding to a multiple of four bytes.\<close>

definition pad_len :: "nat \<Rightarrow> nat" where
  "pad_len n = (4 - n mod 4) mod 4"

definition padded :: "byte list \<Rightarrow> byte list" where
  "padded bs = bs @ replicate (pad_len (length bs)) 0"

lemma padded_multiple: "length (padded bs) mod 4 = 0"
proof -
  have "(n + pad_len n) mod 4 = 0" for n
  proof -
    have e: "(n + pad_len n) mod 4 = (n mod 4 + pad_len n) mod 4" by (simp add: mod_add_left_eq)
    have "n mod 4 < 4" by simp
    then consider "n mod 4 = 0" | "n mod 4 = 1" | "n mod 4 = 2" | "n mod 4 = 3" by linarith
    then show ?thesis unfolding e by cases (simp_all add: pad_len_def)
  qed
  then show ?thesis by (simp add: padded_def)
qed

lemma rndup_pad:
  fixes cnt :: uint_t
  shows "unat (if cnt mod 4 \<noteq> 0 then 4 - cnt mod 4 else 0) = pad_len (unat cnt)"
proof -
  have m: "unat (cnt mod 4) = unat cnt mod 4" by (simp add: unat_mod_distrib)
  have "unat (4 - cnt mod 4) = 4 - unat cnt mod 4"
    using m unat_sub_le [of "cnt mod 4" 4] by (simp add: word_le_nat_alt)
  moreover have "cnt mod 4 = 0 \<longleftrightarrow> unat cnt mod 4 = 0"
    unfolding m [symmetric] by (simp add: unat_eq_0)
  moreover have "unat cnt mod 4 < 4" by simp
  ultimately show ?thesis by (cases "cnt mod 4 = 0") (simp_all add: pad_len_def)
qed

lemma sint_unat_small: "unat (w :: int32_t) < 2 ^ 31 \<Longrightarrow> sint w = int (unat w)"
  using sint_small [of w] by simp

context xdr_stream
begin

lemma int_filter: "xdr_filter ops good sent ahead xdr_int htonl_bytes (\<lambda>_. True) (\<lambda>_. True)"
  using word_filter [of "\<lambda>_. True" xdr_int "\<lambda>v. v" "\<lambda>w. w"] by (simp add: xdr_int_def)

lemma u_int_filter: "xdr_filter ops good sent ahead xdr_u_int htonl_bytes (\<lambda>_. True) (\<lambda>_. True)"
  using word_filter [of "\<lambda>_. True" xdr_u_int "\<lambda>v. v" "\<lambda>w. w"] by (simp add: xdr_u_int_def)

lemma enum_filter: "xdr_filter ops good sent ahead xdr_enum htonl_bytes (\<lambda>_. True) (\<lambda>_. True)"
  using word_filter [of "\<lambda>_. True" xdr_enum "\<lambda>v. v" "\<lambda>w. w"] by (simp add: xdr_enum_def xdr_int_def)

lemma short_filter:
  "xdr_filter ops good sent ahead xdr_short (\<lambda>v. htonl_bytes (scast v)) (\<lambda>_. True) (\<lambda>_. True)"
  by (rule word_filter [where g = ucast]) (simp_all add: xdr_short_def ucast_scast_short)

lemma u_short_filter:
  "xdr_filter ops good sent ahead xdr_u_short (\<lambda>v. htonl_bytes (ucast v)) (\<lambda>_. True) (\<lambda>_. True)"
  by (rule word_filter [where g = ucast]) (simp_all add: xdr_u_short_def ucast_ucast_short)

lemma char_filter:
  "xdr_filter ops good sent ahead xdr_char (\<lambda>v. htonl_bytes (scast v)) (\<lambda>_. True) (\<lambda>_. True)"
proof unfold_locales
  fix v :: byte and a b x
  assume x: "xdr_at ops good sent ahead XDR_ENCODE a b x"
  show "\<exists>x'. xdr_char v x = KRet (True, v, x') \<and> xdr_at ops good sent ahead XDR_ENCODE (a @ htonl_bytes (scast v))
        (drop (length (htonl_bytes (scast v))) b) x'" if "length (htonl_bytes (scast v)) \<le> length b"
    using xdr_filter.encode [OF int_filter _ x, of "scast v"] that
    by (auto simp: xdr_char_def ucast_scast_byte)
  show "\<exists>v' x'. xdr_char v x = KRet (False, v', x') \<and> x_op x' = XDR_ENCODE" if "length b < length (htonl_bytes (scast v))"
    using xdr_filter.encode_full [OF int_filter _ x, of "scast v"] that by (auto simp: xdr_char_def)
next
  fix v u :: byte and a b x
  assume "xdr_at ops good sent ahead XDR_DECODE a (htonl_bytes (scast v) @ b) x"
  from xdr_filter.decode [OF int_filter _ _ this, of "scast u"]
  show "\<exists>x'. xdr_char u x = KRet (True, v, x') \<and>
      xdr_at ops good sent ahead XDR_DECODE (a @ htonl_bytes (scast v)) b x'"
    by (auto simp: xdr_char_def ucast_scast_byte)
qed

lemma bool_filter:
  "xdr_filter ops good sent ahead xdr_bool htonl_bytes (\<lambda>v. v = 0 \<or> v = 1) (\<lambda>_. True)"
  by (rule word_filter [where f = "\<lambda>v. v" and g = "\<lambda>l. if l = 0 then 0 else 1"]) (auto simp: xdr_bool_def)

lemma longlong_filter:
  "xdr_filter ops good sent ahead xdr_longlong_t enc_longlong (\<lambda>_. True) (\<lambda>_. True)"
proof unfold_locales
  fix v a b x
  assume x: "xdr_at ops good sent ahead XDR_ENCODE a b x"
  note op = xdr_at_op [OF x]
  show "\<exists>x'. xdr_longlong_t v x = KRet (True, v, x') \<and> xdr_at ops good sent ahead XDR_ENCODE (a @ enc_longlong v)
        (drop (length (enc_longlong v)) b) x'" if len: "length (enc_longlong v) \<le> length b"
  proof -
    obtain x1 where x1: "XDR_PUTINT32 x (hi32 v) = KRet (True, x1)"
      "xdr_at ops good sent ahead XDR_ENCODE (a @ htonl_bytes (hi32 v)) (drop 4 b) x1"
      using put32 [OF x, of "hi32 v"] len by (auto simp: enc_longlong_def)
    have "4 \<le> length (drop 4 b)" using len by (simp add: enc_longlong_def)
    then show ?thesis
      using put32 [OF x1(2), of "lo32 v"] x1(1) op by (auto simp: xdr_longlong_t_def enc_longlong_def)
  qed
  show "\<exists>v' x'. xdr_longlong_t v x = KRet (False, v', x') \<and> x_op x' = XDR_ENCODE" if len: "length b < length (enc_longlong v)"
  proof (cases "length b < 4")
    case True
    then show ?thesis using put32_full [OF x, of "hi32 v"] op by (auto simp: xdr_longlong_t_def)
  next
    case False
    then obtain x1 where x1: "XDR_PUTINT32 x (hi32 v) = KRet (True, x1)"
      "xdr_at ops good sent ahead XDR_ENCODE (a @ htonl_bytes (hi32 v)) (drop 4 b) x1"
      using put32 [OF x, of "hi32 v"] by auto
    moreover have "length (drop 4 b) < 4" using len by (simp add: enc_longlong_def)
    ultimately show ?thesis using put32_full [OF x1(2), of "lo32 v"] op
      by (auto simp: xdr_longlong_t_def enc_longlong_def)
  qed
next
  fix v u a b x
  assume x: "xdr_at ops good sent ahead XDR_DECODE a (enc_longlong v @ b) x"
  then obtain x1 where x1: "XDR_GETINT32 x = KRet (Some (hi32 v), x1)"
    "xdr_at ops good sent ahead XDR_DECODE (a @ htonl_bytes (hi32 v)) (htonl_bytes (lo32 v) @ b) x1"
    using get32 [of XDR_DECODE a "hi32 v" "htonl_bytes (lo32 v) @ b" x] by (auto simp: enc_longlong_def)
  then show "\<exists>x'. xdr_longlong_t u x = KRet (True, v, x') \<and>
      xdr_at ops good sent ahead XDR_DECODE (a @ enc_longlong v) b x'"
    using get32 [OF x1(2)] xdr_at_op [OF x] by (auto simp: xdr_longlong_t_def enc_longlong_def)
qed

lemma u_longlong_filter:
  "xdr_filter ops good sent ahead xdr_u_longlong_t enc_longlong (\<lambda>_. True) (\<lambda>_. True)"
proof -
  have "(xdr_u_longlong_t :: (64 word, 's) xdrproc) = xdr_longlong_t" by (intro ext) (simp add: xdr_u_longlong_t_def xdr_longlong_t_def)
  then show ?thesis using longlong_filter by (simp only:)
qed

end

lemma mem_write_prefix: "length bs \<le> length cp \<Longrightarrow> mem_write cp 0 bs = KRet (bs @ drop (length bs) cp)"
  by (simp add: mem_write_def)

lemma xdr_opaque_encode_eq:
  assumes "x_op x = XDR_ENCODE" "cnt \<noteq> 0"
  shows "xdr_opaque cp cnt x =
    (let rndup = (if cnt mod 4 \<noteq> 0 then 4 - cnt mod 4 else 0) in
     kbind (XDR_PUTBYTES x cp cnt) (\<lambda>(r, x).
       if \<not> r then KRet (False, cp, x)
       else if rndup = 0 then KRet (True, cp, x)
       else kbind (XDR_PUTBYTES x xdr_zero rndup) (\<lambda>(r, x). KRet (r, cp, x))))"
  using assms by (simp add: xdr_opaque_def)

lemma xdr_opaque_decode_eq:
  assumes "x_op x = XDR_DECODE" "cnt \<noteq> 0"
  shows "xdr_opaque cp cnt x =
    (let rndup = (if cnt mod 4 \<noteq> 0 then 4 - cnt mod 4 else 0) in
     kbind (XDR_GETBYTES x cnt) (\<lambda>(r, x).
       case r of
         None \<Rightarrow> KRet (False, cp, x)
       | Some bs \<Rightarrow>
           kbind (mem_write cp 0 bs) (\<lambda>cp'.
             if rndup = 0 then KRet (True, cp', x)
             else kbind (XDR_GETBYTES x rndup) (\<lambda>(r, x). KRet (r \<noteq> None, cp', x)))))"
  using assms by (simp add: xdr_opaque_def)

lemma pad_len_less: "pad_len n < 4"
  by (simp add: pad_len_def)

lemma xdr_zero_eq: "xdr_zero = replicate 4 0"
  by (simp add: xdr_zero_def numeral_eq_Suc)

lemma take_xdr_zero: "n \<le> 4 \<Longrightarrow> take n xdr_zero = replicate n 0"
  unfolding xdr_zero_eq by (simp add: min_def)

context xdr_stream
begin

lemma opaque_encode:
  assumes x: "xdr_at ops good sent ahead XDR_ENCODE a b x" and cnt: "unat cnt < 2 ^ 31" "unat cnt \<le> length cp"
    and fits: "length (padded (take (unat cnt) cp)) \<le> length b"
  shows "\<exists>x'. xdr_opaque cp cnt x = KRet (True, cp, x') \<and>
    xdr_at ops good sent ahead XDR_ENCODE (a @ padded (take (unat cnt) cp))
      (drop (length (padded (take (unat cnt) cp))) b) x'"
proof (cases "cnt = 0")
  case True
  then show ?thesis using x by (auto simp: xdr_opaque_def padded_def pad_len_def)
next
  case False
  define rn where "rn = (if cnt mod 4 \<noteq> 0 then 4 - cnt mod 4 else 0)"
  have rn: "unat rn = pad_len (unat cnt)" unfolding rn_def by (rule rndup_pad)
  have len: "length (take (unat cnt) cp) = unat cnt" using cnt(2) by simp
  have n: "unat cnt + pad_len (unat cnt) \<le> length b" using fits len by (simp add: padded_def)
  obtain x1 where x1: "XDR_PUTBYTES x cp cnt = KRet (True, x1)"
    "xdr_at ops good sent ahead XDR_ENCODE (a @ take (unat cnt) cp) (drop (unat cnt) b) x1"
    using put_bytes [OF x sint_unat_small [OF cnt(1)] cnt(2)] n by auto
  have "sint rn = int (pad_len (unat cnt))" using sint_unat_small [of rn] rn pad_len_less [of "unat cnt"] by simp
  moreover have "pad_len (unat cnt) \<le> length xdr_zero" "pad_len (unat cnt) \<le> length (drop (unat cnt) b)"
    using pad_len_less [of "unat cnt"] n by (simp_all add: xdr_zero_def)
  moreover have "take (pad_len (unat cnt)) xdr_zero = replicate (pad_len (unat cnt)) 0"
    using pad_len_less [of "unat cnt"] by (intro take_xdr_zero) simp
  ultimately obtain x2 where
    x2: "XDR_PUTBYTES x1 xdr_zero rn = KRet (True, x2)"
    "xdr_at ops good sent ahead XDR_ENCODE (a @ padded (take (unat cnt) cp))
       (drop (length (padded (take (unat cnt) cp))) b) x2"
    using put_bytes [OF x1(2), of rn "pad_len (unat cnt)" xdr_zero] len
    by (auto simp: padded_def add.commute)
  have "rn = 0 \<Longrightarrow> padded (take (unat cnt) cp) = take (unat cnt) cp" using rn len by (simp add: padded_def)
  then show ?thesis
    using x1 x2 unfolding xdr_opaque_encode_eq [OF xdr_at_op [OF x] False] Let_def rn_def [symmetric]
    by (cases "rn = 0") (auto simp: min_absorb2 [OF cnt(2)])
qed

lemma opaque_encode_full:
  assumes x: "xdr_at ops good sent ahead XDR_ENCODE a b x" and cnt: "unat cnt < 2 ^ 31" "unat cnt \<le> length cp"
    and full: "length b < length (padded (take (unat cnt) cp))"
  shows "\<exists>x'. xdr_opaque cp cnt x = KRet (False, cp, x') \<and> x_op x' = XDR_ENCODE"
proof -
  define rn where "rn = (if cnt mod 4 \<noteq> 0 then 4 - cnt mod 4 else 0)"
  have rn: "unat rn = pad_len (unat cnt)" unfolding rn_def by (rule rndup_pad)
  have n: "length b < unat cnt + pad_len (unat cnt)" using full cnt(2) by (simp add: padded_def)
  have c0: "cnt \<noteq> 0" using n by (auto simp: pad_len_def)
  note eq = xdr_opaque_encode_eq [OF xdr_at_op [OF x] c0, of cp]
  show ?thesis
  proof (cases "length b < unat cnt")
    case True
    then show ?thesis using put_bytes_full [OF x sint_unat_small [OF cnt(1)], of cp] unfolding eq by auto
  next
    case False
    then obtain x1 where x1: "XDR_PUTBYTES x cp cnt = KRet (True, x1)"
      "xdr_at ops good sent ahead XDR_ENCODE (a @ take (unat cnt) cp) (drop (unat cnt) b) x1"
      using put_bytes [OF x sint_unat_small [OF cnt(1)] cnt(2)] by auto
    have s: "sint rn = int (pad_len (unat cnt))" using sint_unat_small [of rn] rn pad_len_less [of "unat cnt"] by simp
    have "length (drop (unat cnt) b) < pad_len (unat cnt)" using n False by simp
    from put_bytes_full [OF x1(2) s this, of xdr_zero] obtain x2
      where "XDR_PUTBYTES x1 xdr_zero rn = KRet (False, x2)" "x_op x2 = XDR_ENCODE" by blast
    moreover have "rn \<noteq> 0" using n False rn by auto
    ultimately show ?thesis using x1(1) unfolding eq Let_def rn_def [symmetric] by simp
  qed
qed

lemma opaque_decode:
  assumes x: "xdr_at ops good sent ahead XDR_DECODE a (padded bs @ b) x"
    and cnt: "unat cnt = length bs" "unat cnt < 2 ^ 31" "unat cnt \<le> length cp"
  shows "\<exists>x'. xdr_opaque cp cnt x = KRet (True, bs @ drop (length bs) cp, x') \<and>
    xdr_at ops good sent ahead XDR_DECODE (a @ padded bs) b x'"
proof (cases "cnt = 0")
  case True
  then show ?thesis using x cnt(1) by (auto simp: xdr_opaque_def padded_def pad_len_def)
next
  case False
  define rn where "rn = (if cnt mod 4 \<noteq> 0 then 4 - cnt mod 4 else 0)"
  let ?pad = "replicate (pad_len (length bs)) (0 :: byte)"
  have rn: "unat rn = pad_len (unat cnt)" unfolding rn_def by (rule rndup_pad)
  have "xdr_at ops good sent ahead XDR_DECODE a (bs @ ?pad @ b) x" using x by (simp add: padded_def)
  from get_bytes [OF this, of cnt] obtain x1 where x1: "XDR_GETBYTES x cnt = KRet (Some bs, x1)"
    "xdr_at ops good sent ahead XDR_DECODE (a @ bs) (?pad @ b) x1"
    using sint_unat_small [OF cnt(2)] cnt(1) by auto
  have s: "sint rn = int (length ?pad)"
    using sint_unat_small [of rn] rn pad_len_less [of "unat cnt"] cnt(1) by simp
  obtain x2 where x2: "XDR_GETBYTES x1 rn = KRet (Some ?pad, x2)"
    "xdr_at ops good sent ahead XDR_DECODE (a @ bs @ ?pad) b x2" using get_bytes [OF x1(2) s] by auto
  have "rn = 0 \<Longrightarrow> ?pad = []" using rn cnt(1) by simp
  moreover have "mem_write cp 0 bs = KRet (bs @ drop (length bs) cp)"
    using cnt by (intro mem_write_prefix) simp
  ultimately show ?thesis
    using x1 x2 unfolding xdr_opaque_decode_eq [OF xdr_at_op [OF x] False] Let_def rn_def [symmetric] padded_def
    by (cases "rn = 0") auto
qed

end

section \<open>Counted bytes and strings\<close>

definition enc_bytes :: "byte list option \<times> uint_t \<Rightarrow> byte list" where
  "enc_bytes obj = htonl_bytes (snd obj) @ padded (ptr_mem (fst obj))"

text \<open>The storage holds exactly the counted bytes; there is none for a count of 0.\<close>

definition bytes_ok :: "uint_t \<Rightarrow> byte list option \<times> uint_t \<Rightarrow> bool" where
  "bytes_ok maxsize obj \<longleftrightarrow> unat (snd obj) = length (ptr_mem (fst obj)) \<and> snd obj \<le> maxsize \<and>
     unat (snd obj) < 2 ^ 31 \<and> (fst obj = None \<longleftrightarrow> snd obj = 0)"

definition enc_string :: "byte list option \<Rightarrow> byte list" where
  "enc_string obj =
     (let s = takeWhile (\<lambda>c. c \<noteq> 0) (ptr_mem obj) in htonl_bytes (of_nat (length s)) @ padded s)"

text \<open>A C string in storage of its own size.\<close>

definition string_ok :: "uint_t \<Rightarrow> byte list option \<Rightarrow> bool" where
  "string_ok maxsize obj \<longleftrightarrow>
     (\<exists>s. obj = Some (s @ [0]) \<and> 0 \<notin> set s \<and> length s < 2 ^ 31 \<and> length s \<le> unat maxsize)"

lemma takeWhile_string: "0 \<notin> set s \<Longrightarrow> takeWhile (\<lambda>c. c \<noteq> 0) (s @ 0 # t) = (s :: byte list)"
  by (induction s) auto

lemma strlen_string: "0 \<notin> set s \<Longrightarrow> strlen (s @ 0 # t) = KRet (length s)"
  by (simp add: strlen_def takeWhile_string)

lemma string_size:
  assumes "length s < 2 ^ 31"
  shows "unat (of_nat (length s) :: uint_t) = length s" "unat (of_nat (length s) + 1 :: uint_t) = length s + 1"
    "(of_nat (length s) + 1 :: uint_t) \<noteq> 0"
proof -
  show u: "unat (of_nat (length s) :: uint_t) = length s" using assms by (simp add: unat_of_nat)
  then show v: "unat (of_nat (length s) + 1 :: uint_t) = length s + 1"
    using assms unat_add_no_wrap [of "of_nat (length s) :: uint_t" 1] by simp
  then show "(of_nat (length s) + 1 :: uint_t) \<noteq> 0" by (metis add_is_0 unat_0 zero_neq_one)
qed

context xdr_stream
begin

lemma bytes_filter:
  "xdr_filter ops good sent ahead (xdr_bytes maxsize) enc_bytes (bytes_ok maxsize) (\<lambda>u. fst u = None)"
proof unfold_locales
  fix v :: "byte list option \<times> uint_t" and a b x
  assume v: "bytes_ok maxsize v" and x: "xdr_at ops good sent ahead XDR_ENCODE a b x"
  obtain cpp n where [simp]: "v = (cpp, n)" by (cases v)
  have n: "unat n = length (ptr_mem cpp)" "\<not> maxsize < n" "unat n < 2 ^ 31" using v by (auto simp: bytes_ok_def)
  have le: "unat n \<le> length (ptr_mem cpp)" and tk: "take (unat n) (ptr_mem cpp) = ptr_mem cpp" using n by simp_all
  show "\<exists>x'. xdr_bytes maxsize v x = KRet (True, v, x') \<and> xdr_at ops good sent ahead XDR_ENCODE (a @ enc_bytes v)
        (drop (length (enc_bytes v)) b) x'" if "length (enc_bytes v) \<le> length b"
  proof -
    have len: "4 + length (padded (ptr_mem cpp)) \<le> length b" using \<open>length (enc_bytes v) \<le> length b\<close>
      by (simp add: enc_bytes_def)
    obtain x1 where x1: "xdr_u_int n x = KRet (True, n, x1)"
      "xdr_at ops good sent ahead XDR_ENCODE (a @ htonl_bytes n) (drop 4 b) x1"
      using xdr_filter.encode [OF u_int_filter _ x, of n] len by auto
    have "length (padded (ptr_mem cpp)) \<le> length (drop 4 b)" using len by simp
    then show ?thesis using opaque_encode [OF x1(2) n(3) le] x1(1) n(2) xdr_at_op [OF x1(2)] unfolding tk
      by (auto simp: xdr_bytes_def enc_bytes_def add.commute)
  qed
  show "\<exists>v' x'. xdr_bytes maxsize v x = KRet (False, v', x') \<and> x_op x' = XDR_ENCODE" if "length b < length (enc_bytes v)"
  proof (cases "length b < 4")
    case True
    then obtain v1 x1 where "xdr_u_int n x = KRet (False, v1, x1)" "x_op x1 = XDR_ENCODE"
      using xdr_filter.encode_full [OF u_int_filter _ x, of n] by auto
    then show ?thesis by (simp add: xdr_bytes_def)
  next
    case False
    then obtain x1 where x1: "xdr_u_int n x = KRet (True, n, x1)"
      "xdr_at ops good sent ahead XDR_ENCODE (a @ htonl_bytes n) (drop 4 b) x1"
      using xdr_filter.encode [OF u_int_filter _ x, of n] by auto
    have "length (drop 4 b) < length (padded (ptr_mem cpp))" using that False by (simp add: enc_bytes_def)
    then show ?thesis using opaque_encode_full [OF x1(2) n(3) le] x1 n(2) xdr_at_op [OF x1(2)] unfolding tk
      by (auto simp: xdr_bytes_def)
  qed
next
  fix v u :: "byte list option \<times> uint_t" and a b x
  assume v: "bytes_ok maxsize v" and u: "fst u = None"
    and x: "xdr_at ops good sent ahead XDR_DECODE a (enc_bytes v @ b) x"
  obtain cpp n where [simp]: "v = (cpp, n)" by (cases v)
  have n: "unat n = length (ptr_mem cpp)" "\<not> maxsize < n" "unat n < 2 ^ 31" "cpp = None \<longleftrightarrow> n = 0"
    using v by (auto simp: bytes_ok_def)
  have "xdr_at ops good sent ahead XDR_DECODE a (htonl_bytes n @ padded (ptr_mem cpp) @ b) x"
    using x by (simp add: enc_bytes_def)
  then obtain x1 where x1: "xdr_u_int (snd u) x = KRet (True, n, x1)"
    "xdr_at ops good sent ahead XDR_DECODE (a @ htonl_bytes n) (padded (ptr_mem cpp) @ b) x1"
    using xdr_filter.decode [OF u_int_filter] by blast
  have "unat n \<le> length (mem_alloc n)" by (simp add: mem_alloc_def)
  from opaque_decode [OF x1(2) n(1,3) this] obtain x2 where
    x2: "xdr_opaque (mem_alloc n) n x1 = KRet (True, ptr_mem cpp, x2)"
      "xdr_at ops good sent ahead XDR_DECODE ((a @ htonl_bytes n) @ padded (ptr_mem cpp)) b x2"
    using n(1) by (auto simp: mem_alloc_def)
  show "\<exists>x'. xdr_bytes maxsize u x = KRet (True, v, x') \<and> xdr_at ops good sent ahead XDR_DECODE (a @ enc_bytes v) b x'"
  proof (cases "n = 0")
    case True
    then have c: "cpp = None" using n by simp
    have p: "padded [] = []" by (simp add: padded_def pad_len_def)
    have "xdr_at ops good sent ahead XDR_DECODE (a @ enc_bytes v) b x1"
      using x1(2) c by (simp add: enc_bytes_def ptr_mem_def p)
    then show ?thesis
      using x1(1) c True u xdr_at_op [OF x1(2)] by (simp add: xdr_bytes_def case_prod_unfold)
  next
    case False
    then obtain bs where c: "cpp = Some bs" using n(4) by auto
    then show ?thesis
      using x1(1) x2 False u n(2) xdr_at_op [OF x1(2)]
      by (simp add: xdr_bytes_def case_prod_unfold enc_bytes_def ptr_mem_def)
  qed
qed

lemma string_filter:
  "xdr_filter ops good sent ahead (xdr_string maxsize) enc_string (string_ok maxsize) (\<lambda>u. u = None)"
proof unfold_locales
  fix v :: "byte list option" and a b x
  assume v: "string_ok maxsize v" and x: "xdr_at ops good sent ahead XDR_ENCODE a b x"
  obtain s where v_eq: "v = Some (s @ [0])" and s: "0 \<notin> set s" "length s < 2 ^ 31" "length s \<le> unat maxsize"
    using v by (auto simp: string_ok_def)
  define n where "n = (of_nat (length s) :: uint_t)"
  have n: "unat n = length s" using string_size(1) [OF s(2)] by (simp add: n_def)
  have enc: "enc_string v = htonl_bytes n @ padded s"
    using takeWhile_string [OF s(1)] by (simp add: enc_string_def ptr_mem_def v_eq n_def Let_def)
  have tk: "take (unat n) (ptr_mem v) = s" and le: "unat n \<le> length (ptr_mem v)" and small: "unat n < 2 ^ 31"
    using n s(2) by (simp_all add: v_eq ptr_mem_def)
  have run: "xdr_string maxsize v x = kbind (xdr_u_int n x) (\<lambda>(r, sz, x).
      if \<not> r then KRet (False, v, x) else if maxsize < sz then KRet (False, v, x)
      else case x_op x of
             XDR_ENCODE \<Rightarrow> kbind (xdr_opaque (ptr_mem v) sz x) (\<lambda>(r, _, x). KRet (r, v, x))
           | _ \<Rightarrow> undefined)" if "\<forall>r sz x'. xdr_u_int n x = KRet (r, sz, x') \<longrightarrow> r \<longrightarrow> x_op x' = XDR_ENCODE"
    using that xdr_at_op [OF x] strlen_string [OF s(1), of "[]"]
    by (cases "xdr_u_int n x") (auto simp: xdr_string_def v_eq n_def)
  show "\<exists>x'. xdr_string maxsize v x = KRet (True, v, x') \<and> xdr_at ops good sent ahead XDR_ENCODE (a @ enc_string v)
        (drop (length (enc_string v)) b) x'" if "length (enc_string v) \<le> length b"
  proof -
    have len: "4 + length (padded s) \<le> length b" using \<open>length (enc_string v) \<le> length b\<close> by (simp add: enc)
    obtain x1 where x1: "xdr_u_int n x = KRet (True, n, x1)"
      "xdr_at ops good sent ahead XDR_ENCODE (a @ htonl_bytes n) (drop 4 b) x1"
      using xdr_filter.encode [OF u_int_filter _ x, of n] len by auto
    have "length (padded s) \<le> length (drop 4 b)" using len by simp
    then show ?thesis using opaque_encode [OF x1(2) small le] x1(1) xdr_at_op [OF x1(2)] run n s(3) unfolding tk enc
      by (auto simp: add.commute word_less_nat_alt)
  qed
  show "\<exists>v' x'. xdr_string maxsize v x = KRet (False, v', x') \<and> x_op x' = XDR_ENCODE" if "length b < length (enc_string v)"
  proof (cases "length b < 4")
    case True
    then obtain v1 x1 where "xdr_u_int n x = KRet (False, v1, x1)" "x_op x1 = XDR_ENCODE"
      using xdr_filter.encode_full [OF u_int_filter _ x, of n] by auto
    then show ?thesis using run by simp
  next
    case False
    then obtain x1 where x1: "xdr_u_int n x = KRet (True, n, x1)"
      "xdr_at ops good sent ahead XDR_ENCODE (a @ htonl_bytes n) (drop 4 b) x1"
      using xdr_filter.encode [OF u_int_filter _ x, of n] by auto
    have "length (drop 4 b) < length (padded s)" using that False by (simp add: enc)
    then show ?thesis using opaque_encode_full [OF x1(2) small le] x1 n s(3) run xdr_at_op [OF x1(2)] unfolding tk
      by (auto simp: word_less_nat_alt)
  qed
next
  fix v u :: "byte list option" and a b x
  assume v: "string_ok maxsize v" and u: "u = None"
    and x: "xdr_at ops good sent ahead XDR_DECODE a (enc_string v @ b) x"
  obtain s where v_eq: "v = Some (s @ [0])" and s: "0 \<notin> set s" "length s < 2 ^ 31" "length s \<le> unat maxsize"
    using v by (auto simp: string_ok_def)
  define n where "n = (of_nat (length s) :: uint_t)"
  have n: "unat n = length s" "unat (n + 1) = length s + 1" "n + 1 \<noteq> 0"
    using string_size [OF s(2)] by (simp_all add: n_def)
  have enc: "enc_string v = htonl_bytes n @ padded s"
    using takeWhile_string [OF s(1)] by (simp add: enc_string_def ptr_mem_def v_eq n_def Let_def)
  have "xdr_at ops good sent ahead XDR_DECODE a (htonl_bytes n @ padded s @ b) x" using x by (simp add: enc)
  then obtain x1 where x1: "xdr_u_int 0 x = KRet (True, n, x1)"
    "xdr_at ops good sent ahead XDR_DECODE (a @ htonl_bytes n) (padded s @ b) x1"
    using xdr_filter.decode [OF u_int_filter] by blast
  let ?sp = "replicate (length s) (0 :: byte) @ [0]"
  have "mem_alloc (n + 1) = ?sp" by (simp add: mem_alloc_def n(2) replicate_append_same)
  then have w: "mem_write (mem_alloc (n + 1)) (int (unat n)) [0] = KRet ?sp"
    using n(1) by (simp add: mem_write_def)
  have small: "unat n < 2 ^ 31" "unat n \<le> length ?sp" using n(1) s(2) by simp_all
  obtain x2 where x2: "xdr_opaque ?sp n x1 = KRet (True, s @ [0], x2)"
      "xdr_at ops good sent ahead XDR_DECODE ((a @ htonl_bytes n) @ padded s) b x2"
    using opaque_decode [OF x1(2) n(1) small] by auto
  have "\<not> maxsize < n" using n(1) s(3) by (simp add: word_less_nat_alt)
  then have "xdr_string maxsize u x = KRet (True, v, x2)"
    using x1(1) x2(1) w n(1,3) strlen_string [OF s(1), of "[]"] xdr_at_op [OF x] xdr_at_op [OF x1(2)]
    by (simp add: xdr_string_def u v_eq)
  then show "\<exists>x'. xdr_string maxsize u x = KRet (True, v, x') \<and>
      xdr_at ops good sent ahead XDR_DECODE (a @ enc_string v) b x'"
    using x2(2) by (simp add: enc)
qed

end

section \<open>Arrays and pointers of filtered objects\<close>

definition enc_array :: "('v \<Rightarrow> byte list) \<Rightarrow> 'v list option \<times> uint_t \<Rightarrow> byte list" where
  "enc_array enc obj =
     htonl_bytes (snd obj) @ concat (map enc (case fst obj of None \<Rightarrow> [] | Some vs \<Rightarrow> vs))"

text \<open>The storage has the counted elements, and its size in bytes does not wrap around.\<close>

definition array_ok :: "uint_t \<Rightarrow> uint_t \<Rightarrow> ('v \<Rightarrow> bool) \<Rightarrow> 'v list option \<times> uint_t \<Rightarrow> bool" where
  "array_ok maxsize elsize ok obj \<longleftrightarrow> snd obj \<le> maxsize \<and> elsize \<noteq> 0 \<and>
     unat (snd obj) * unat elsize < 2 ^ 32 \<and>
     (case fst obj of
        None \<Rightarrow> snd obj = 0
      | Some vs \<Rightarrow> vs \<noteq> [] \<and> unat (snd obj) = length vs \<and> list_all ok vs)"

definition enc_pointer :: "('v \<Rightarrow> byte list) \<Rightarrow> 'v option \<Rightarrow> byte list" where
  "enc_pointer enc obj =
     (case obj of None \<Rightarrow> htonl_bytes 0 | Some v \<Rightarrow> htonl_bytes 1 @ enc v)"

lemma array_loop_step:
  fixes c :: uint_t
  assumes "unat c = length (us @ w # ws)"
  shows "xdr_array_loop proc (us @ w # ws) c (of_nat (length us)) x =
    kbind (proc w x) (\<lambda>(stat, v, x').
      if stat then xdr_array_loop proc ((us @ [v]) @ ws) c (of_nat (length (us @ [v]))) x'
      else KRet (False, us @ v # ws, x'))"
proof -
  have c: "length us < unat c" using assms by simp
  then have u: "unat (of_nat (length us) :: uint_t) = length us"
    using unat_bound [of c] by (simp add: unat_of_nat)
  then have i: "(of_nat (length us) :: uint_t) < c" using c by (simp add: word_less_nat_alt)
  show ?thesis
    unfolding xdr_array_loop.simps [of proc "us @ w # ws" c] using i u
    by (simp add: Let_def add.commute cong: if_cong)
qed

lemma array_loop_end:
  fixes c :: uint_t
  assumes "unat c = length us"
  shows "xdr_array_loop proc us c (of_nat (length us)) x = KRet (True, us, x)"
proof -
  have "of_nat (length us) = c" by (simp flip: assms)
  then show ?thesis by (simp add: xdr_array_loop.simps)
qed

context xdr_filter
begin

lemma array_loop_encode:
  assumes "list_all ok ws" "unat c = length (us @ ws)" "xdr_at ops good sent ahead XDR_ENCODE a b x"
    "length (concat (map enc ws)) \<le> length b"
  shows "\<exists>x'. xdr_array_loop proc (us @ ws) c (of_nat (length us)) x = KRet (True, us @ ws, x') \<and>
    xdr_at ops good sent ahead XDR_ENCODE (a @ concat (map enc ws)) (drop (length (concat (map enc ws))) b) x'"
  using assms
proof (induction ws arbitrary: us a b x)
  case Nil
  then show ?case by (simp add: array_loop_end)
next
  case (Cons w ws)
  have "ok w" and l: "length (enc w) \<le> length b" using Cons.prems(1,4) by simp_all
  from encode [OF this(1) Cons.prems(3) l] obtain x1 where x1: "proc w x = KRet (True, w, x1)"
    "xdr_at ops good sent ahead XDR_ENCODE (a @ enc w) (drop (length (enc w)) b) x1" by blast
  have len: "length (concat (map enc ws)) \<le> length (drop (length (enc w)) b)" using Cons.prems(4) by simp
  have "list_all ok ws" "unat c = length ((us @ [w]) @ ws)" using Cons.prems(1,2) by simp_all
  from Cons.IH [OF this x1(2) len] show ?case
    unfolding array_loop_step [OF Cons.prems(2)] x1(1) by (simp add: add.commute)
qed

lemma array_loop_encode_full:
  assumes "list_all ok ws" "unat c = length (us @ ws)" "xdr_at ops good sent ahead XDR_ENCODE a b x"
    "length b < length (concat (map enc ws))"
  shows "\<exists>vs x'. xdr_array_loop proc (us @ ws) c (of_nat (length us)) x = KRet (False, vs, x') \<and> x_op x' = XDR_ENCODE"
  using assms
proof (induction ws arbitrary: us a b x)
  case (Cons w ws)
  have w: "ok w" using Cons.prems(1) by simp
  show ?case
  proof (cases "length (enc w) \<le> length b")
    case True
    from encode [OF w Cons.prems(3) True] obtain x1 where x1: "proc w x = KRet (True, w, x1)"
      "xdr_at ops good sent ahead XDR_ENCODE (a @ enc w) (drop (length (enc w)) b) x1" by blast
    have len: "length (drop (length (enc w)) b) < length (concat (map enc ws))" using Cons.prems(4) True by simp
    have "list_all ok ws" "unat c = length ((us @ [w]) @ ws)" using Cons.prems(1,2) by simp_all
    from Cons.IH [OF this x1(2) len] show ?thesis
      unfolding array_loop_step [OF Cons.prems(2)] x1(1) by simp
  next
    case False
    then obtain v' x' where "proc w x = KRet (False, v', x')" "x_op x' = XDR_ENCODE"
      using encode_full [OF w Cons.prems(3)] by auto
    then show ?thesis unfolding array_loop_step [OF Cons.prems(2)] by simp
  qed
qed simp

lemma array_loop_decode:
  assumes "list_all ok ws" "fresh z" "unat c = length (us @ ws)"
    "xdr_at ops good sent ahead XDR_DECODE a (concat (map enc ws) @ b) x"
  shows "\<exists>x'. xdr_array_loop proc (us @ replicate (length ws) z) c (of_nat (length us)) x = KRet (True, us @ ws, x') \<and>
    xdr_at ops good sent ahead XDR_DECODE (a @ concat (map enc ws)) b x'"
  using assms
proof (induction ws arbitrary: us a x)
  case Nil
  then show ?case by (simp add: array_loop_end)
next
  case (Cons w ws)
  have w: "ok w" and ws: "list_all ok ws" using Cons.prems(1) by simp_all
  have "xdr_at ops good sent ahead XDR_DECODE a (enc w @ concat (map enc ws) @ b) x" using Cons.prems(4) by simp
  from decode [OF w Cons.prems(2) this] obtain x1 where x1: "proc z x = KRet (True, w, x1)"
    "xdr_at ops good sent ahead XDR_DECODE (a @ enc w) (concat (map enc ws) @ b) x1" by blast
  have c: "unat c = length ((us @ [w]) @ ws)" "unat c = length (us @ z # replicate (length ws) z)"
    using Cons.prems(3) by simp_all
  from Cons.IH [OF ws Cons.prems(2) c(1) x1(2)] show ?case
    using x1(1) by (simp add: array_loop_step [OF c(2)])
qed

lemma array_encode:
  assumes v: "array_ok maxsize elsize ok v" and x: "xdr_at ops good sent ahead XDR_ENCODE a b x"
  shows "length (enc_array enc v) \<le> length b \<Longrightarrow>
      \<exists>x'. xdr_array maxsize elsize zero proc v x = KRet (True, v, x') \<and>
        xdr_at ops good sent ahead XDR_ENCODE (a @ enc_array enc v) (drop (length (enc_array enc v)) b) x'"
    and "length b < length (enc_array enc v) \<Longrightarrow>
      \<exists>v' x'. xdr_array maxsize elsize zero proc v x = KRet (False, v', x') \<and> x_op x' = XDR_ENCODE"
proof -
  obtain addrp c where v_eq: "v = (addrp, c)" by (cases v)
  define vs where "vs = (case addrp of None \<Rightarrow> [] | Some vs \<Rightarrow> vs)"
  have vs: "unat c = length vs" "list_all ok vs" "\<not> maxsize < c"
    using v by (auto simp: array_ok_def v_eq vs_def split: option.splits)
  have enc: "enc_array enc v = htonl_bytes c @ concat (map enc vs)" by (simp add: enc_array_def v_eq vs_def)
  have same: "map_option (\<lambda>_. vs) addrp = addrp" by (cases addrp) (simp_all add: vs_def)
  have run: "xdr_array maxsize elsize zero proc v x = kbind (xdr_array_loop proc vs c 0 x1)
      (\<lambda>(stat, target, x). if x_op x = XDR_FREE then
           if length target = unat (c * elsize) div unat elsize then KRet (stat, (None, c), x) else KFault
         else KRet (stat, (map_option (\<lambda>_. target) addrp, c), x))"
    if "xdr_u_int c x = KRet (True, c, x1)" "x_op x1 = XDR_ENCODE" for x1
    using that vs(3) by (simp add: xdr_array_def v_eq vs_def Let_def split: option.splits)
  show "\<exists>x'. xdr_array maxsize elsize zero proc v x = KRet (True, v, x') \<and>
        xdr_at ops good sent ahead XDR_ENCODE (a @ enc_array enc v) (drop (length (enc_array enc v)) b) x'"
    if "length (enc_array enc v) \<le> length b"
  proof -
    have l: "4 \<le> length b" "length (concat (map enc vs)) \<le> length (drop 4 b)"
      using \<open>length (enc_array enc v) \<le> length b\<close> by (simp_all add: enc)
    obtain x1 where x1: "xdr_u_int c x = KRet (True, c, x1)"
      "xdr_at ops good sent ahead XDR_ENCODE (a @ htonl_bytes c) (drop 4 b) x1"
      using xdr_filter.encode [OF u_int_filter _ x, of c] l by auto
    from array_loop_encode [OF vs(2) _ x1(2) l(2), of c "[]"] vs(1) obtain x2 where
      x2: "xdr_array_loop proc vs c 0 x1 = KRet (True, vs, x2)"
        "xdr_at ops good sent ahead XDR_ENCODE ((a @ htonl_bytes c) @ concat (map enc vs))
           (drop (length (concat (map enc vs))) (drop 4 b)) x2" by auto
    have "xdr_array maxsize elsize zero proc v x = KRet (True, v, x2)"
      unfolding run [OF x1(1) xdr_at_op [OF x1(2)]] x2(1) using same xdr_at_op [OF x2(2)] by (simp add: v_eq)
    then show ?thesis using x2(2) by (simp add: enc add.commute)
  qed
  show "\<exists>v' x'. xdr_array maxsize elsize zero proc v x = KRet (False, v', x') \<and> x_op x' = XDR_ENCODE"
    if full: "length b < length (enc_array enc v)"
  proof (cases "length b < 4")
    case True
    then obtain v1 x1 where "xdr_u_int c x = KRet (False, v1, x1)" "x_op x1 = XDR_ENCODE"
      using xdr_filter.encode_full [OF u_int_filter _ x, of c] by auto
    then show ?thesis by (simp add: xdr_array_def v_eq)
  next
    case False
    then obtain x1 where x1: "xdr_u_int c x = KRet (True, c, x1)"
      "xdr_at ops good sent ahead XDR_ENCODE (a @ htonl_bytes c) (drop 4 b) x1"
      using xdr_filter.encode [OF u_int_filter _ x, of c] by auto
    have l: "length (drop 4 b) < length (concat (map enc vs))" using full False by (simp add: enc)
    from array_loop_encode_full [OF vs(2) _ x1(2) l, of c "[]"] vs(1) obtain ws x2 where
      x2: "xdr_array_loop proc vs c 0 x1 = KRet (False, ws, x2)" and "x_op x2 = XDR_ENCODE"
      by auto
    then show ?thesis unfolding run [OF x1(1) xdr_at_op [OF x1(2)]] x2 by simp
  qed
qed

end

lemma nodesize_cells:
  fixes c elsize :: uint_t
  assumes "unat c * unat elsize < 2 ^ 32" "elsize \<noteq> 0"
  shows "unat (c * elsize) = unat c * unat elsize" "unat (c * elsize) div unat elsize = unat c"
proof -
  show "unat (c * elsize) = unat c * unat elsize"
    using assms(1) by (subst unat_mult_lem [symmetric]) simp
  then show "unat (c * elsize) div unat elsize = unat c"
    using assms(2) by (simp add: unat_eq_0)
qed

context xdr_filter
begin

lemma array_decode:
  assumes v: "array_ok maxsize elsize ok v" and z: "fresh zero"
    and x: "xdr_at ops good sent ahead XDR_DECODE a (enc_array enc v @ b) x"
  shows "\<exists>x'. xdr_array maxsize elsize zero proc (None, n) x = KRet (True, v, x') \<and>
    xdr_at ops good sent ahead XDR_DECODE (a @ enc_array enc v) b x'"
proof -
  obtain addrp c where v_eq: "v = (addrp, c)" by (cases v)
  define vs where "vs = (case addrp of None \<Rightarrow> [] | Some vs \<Rightarrow> vs)"
  have vs: "unat c = length vs" "list_all ok vs" "\<not> maxsize < c" "elsize \<noteq> 0" "unat c * unat elsize < 2 ^ 32"
    and none: "addrp = None \<longleftrightarrow> c = 0" and some: "addrp \<noteq> None \<Longrightarrow> addrp = Some vs"
    using v by (auto simp: array_ok_def v_eq vs_def split: option.splits)
  have enc: "enc_array enc v = htonl_bytes c @ concat (map enc vs)" by (simp add: enc_array_def v_eq vs_def)
  have "xdr_at ops good sent ahead XDR_DECODE a (htonl_bytes c @ concat (map enc vs) @ b) x"
    using x by (simp add: enc)
  then obtain x1 where x1: "xdr_u_int n x = KRet (True, c, x1)"
    "xdr_at ops good sent ahead XDR_DECODE (a @ htonl_bytes c) (concat (map enc vs) @ b) x1"
    using xdr_filter.decode [OF u_int_filter] by blast
  note op = xdr_at_op [OF x1(2)]
  have cells: "array_cells zero (c * elsize) elsize = replicate (length vs) zero"
    using nodesize_cells(2) [OF vs(5,4)] vs(1) by (simp add: array_cells_def)
  obtain x2 where x2: "xdr_array_loop proc (replicate (length vs) zero) c 0 x1 = KRet (True, vs, x2)"
    "xdr_at ops good sent ahead XDR_DECODE ((a @ htonl_bytes c) @ concat (map enc vs)) b x2"
    using array_loop_decode [OF vs(2) z _ x1(2), of c "[]"] vs(1) by auto
  show ?thesis
  proof (cases "c = 0")
    case True
    then have "vs = []" using vs(1) by simp
    then show ?thesis
      using x1 op True none by (simp add: xdr_array_def v_eq enc_array_def Let_def)
  next
    case False
    then have "xdr_array maxsize elsize zero proc (None, n) x = KRet (True, v, x2)"
      using x1(1) x2(1) op vs(3) cells none some xdr_at_op [OF x2(2)]
      by (simp add: xdr_array_def Let_def v_eq)
    then show ?thesis using x2(2) by (simp add: enc)
  qed
qed

lemma array_filter:
  assumes "fresh zero"
  shows "xdr_filter ops good sent ahead (xdr_array maxsize elsize zero proc) (enc_array enc)
    (array_ok maxsize elsize ok) (\<lambda>u. fst u = None)"
proof unfold_locales
  fix v :: "'v list option \<times> uint_t" and a b x
  assume v: "array_ok maxsize elsize ok v" and x: "xdr_at ops good sent ahead XDR_ENCODE a b x"
  show "\<exists>x'. xdr_array maxsize elsize zero proc v x = KRet (True, v, x') \<and>
        xdr_at ops good sent ahead XDR_ENCODE (a @ enc_array enc v) (drop (length (enc_array enc v)) b) x'"
    if "length (enc_array enc v) \<le> length b" using array_encode(1) [OF v x that] .
  show "\<exists>v' x'. xdr_array maxsize elsize zero proc v x = KRet (False, v', x') \<and> x_op x' = XDR_ENCODE"
    if "length b < length (enc_array enc v)" using array_encode(2) [OF v x that] .
next
  fix v u :: "'v list option \<times> uint_t" and a b x
  assume "array_ok maxsize elsize ok v" "fst u = None"
    "xdr_at ops good sent ahead XDR_DECODE a (enc_array enc v @ b) x"
  then show "\<exists>x'. xdr_array maxsize elsize zero proc u x = KRet (True, v, x') \<and>
      xdr_at ops good sent ahead XDR_DECODE (a @ enc_array enc v) b x'"
    using array_decode [OF _ assms, of maxsize elsize v a b x "snd u"] by (cases u) auto
qed

lemma pointer_encode:
  assumes x: "xdr_at ops good sent ahead XDR_ENCODE a b x" and v: "pred_option ok v"
  shows "length (enc_pointer enc v) \<le> length b \<Longrightarrow>
      \<exists>x'. xdr_pointer zero proc v x = KRet (True, v, x') \<and>
        xdr_at ops good sent ahead XDR_ENCODE (a @ enc_pointer enc v) (drop (length (enc_pointer enc v)) b) x'"
    and "length b < length (enc_pointer enc v) \<Longrightarrow>
      \<exists>v' x'. xdr_pointer zero proc v x = KRet (False, v', x') \<and> x_op x' = XDR_ENCODE"
proof -
  define w where "w = (if v \<noteq> None then 1 else 0 :: int32_t)"
  have w: "w = 0 \<or> w = 1" by (simp add: w_def)
  have head: "\<exists>x1. xdr_bool w x = KRet (True, w, x1) \<and>
      xdr_at ops good sent ahead XDR_ENCODE (a @ htonl_bytes w) (drop 4 b) x1" if "4 \<le> length b"
    using xdr_filter.encode [OF bool_filter w x] that by simp
  have fail: "\<exists>w' x1. xdr_bool w x = KRet (False, w', x1) \<and> x_op x1 = XDR_ENCODE" if "length b < 4"
    using xdr_filter.encode_full [OF bool_filter w x] that by simp
  show "\<exists>x'. xdr_pointer zero proc v x = KRet (True, v, x') \<and>
      xdr_at ops good sent ahead XDR_ENCODE (a @ enc_pointer enc v) (drop (length (enc_pointer enc v)) b) x'"
    if len: "length (enc_pointer enc v) \<le> length b"
  proof (cases v)
    case None
    then show ?thesis using head len by (auto simp: xdr_pointer_def enc_pointer_def w_def)
  next
    case (Some u)
    have ok: "ok u" and l: "length (enc u) \<le> length (drop 4 b)" "4 \<le> length b"
      using Some v len by (simp_all add: enc_pointer_def)
    obtain x1 where x1: "xdr_bool 1 x = KRet (True, 1, x1)"
      "xdr_at ops good sent ahead XDR_ENCODE (a @ htonl_bytes 1) (drop 4 b) x1"
      using head [OF l(2)] Some by (auto simp: w_def)
    obtain x2 where x2: "proc u x1 = KRet (True, u, x2)" "xdr_at ops good sent ahead XDR_ENCODE
        ((a @ htonl_bytes 1) @ enc u) (drop (length (enc u)) (drop 4 b)) x2"
      using encode [OF ok x1(2) l(1)] by blast
    then have "xdr_pointer zero proc v x = KRet (True, v, x2)"
      using x1(1) Some xdr_at_op [OF x2(2)] by (simp add: xdr_pointer_def xdr_reference_def)
    then show ?thesis using x2(2) Some by (simp add: enc_pointer_def add.commute)
  qed
  show "\<exists>v' x'. xdr_pointer zero proc v x = KRet (False, v', x') \<and> x_op x' = XDR_ENCODE"
    if full: "length b < length (enc_pointer enc v)"
  proof (cases "length b < 4")
    case True
    then show ?thesis using fail by (auto simp: xdr_pointer_def w_def)
  next
    case False
    then obtain u where Some: "v = Some u" using full by (cases v) (auto simp: enc_pointer_def)
    have ok: "ok u" and l: "length (drop 4 b) < length (enc u)"
      using Some v full False by (simp_all add: enc_pointer_def)
    obtain x1 where x1: "xdr_bool 1 x = KRet (True, 1, x1)"
      "xdr_at ops good sent ahead XDR_ENCODE (a @ htonl_bytes 1) (drop 4 b) x1"
      using head Some False by (auto simp: w_def)
    obtain u' x2 where "proc u x1 = KRet (False, u', x2)" "x_op x2 = XDR_ENCODE"
      using encode_full [OF ok x1(2) l] by blast
    then show ?thesis using x1(1) Some by (simp add: xdr_pointer_def xdr_reference_def)
  qed
qed

lemma pointer_filter:
  assumes z: "fresh zero"
  shows "xdr_filter ops good sent ahead (xdr_pointer zero proc) (enc_pointer enc) (pred_option ok) (\<lambda>u. u = None)"
proof unfold_locales
  fix v :: "'v option" and a b x
  assume v: "pred_option ok v" and x: "xdr_at ops good sent ahead XDR_ENCODE a b x"
  show "\<exists>x'. xdr_pointer zero proc v x = KRet (True, v, x') \<and>
        xdr_at ops good sent ahead XDR_ENCODE (a @ enc_pointer enc v) (drop (length (enc_pointer enc v)) b) x'"
    if "length (enc_pointer enc v) \<le> length b" using pointer_encode(1) [OF x v that] .
  show "\<exists>v' x'. xdr_pointer zero proc v x = KRet (False, v', x') \<and> x_op x' = XDR_ENCODE"
    if "length b < length (enc_pointer enc v)" using pointer_encode(2) [OF x v that] .
next
  fix v u :: "'v option" and a b x
  assume v: "pred_option ok v" and u: "u = None"
    and x: "xdr_at ops good sent ahead XDR_DECODE a (enc_pointer enc v @ b) x"
  show "\<exists>x'. xdr_pointer zero proc u x = KRet (True, v, x') \<and>
      xdr_at ops good sent ahead XDR_DECODE (a @ enc_pointer enc v) b x'"
  proof (cases v)
    case None
    then have "xdr_at ops good sent ahead XDR_DECODE a (htonl_bytes 0 @ b) x" using x by (simp add: enc_pointer_def)
    from xdr_filter.decode [OF bool_filter _ _ this, of 0] show ?thesis
      using None u by (auto simp: xdr_pointer_def enc_pointer_def)
  next
    case (Some w)
    then have "xdr_at ops good sent ahead XDR_DECODE a (htonl_bytes 1 @ enc w @ b) x" and ok: "ok w"
      using x v by (simp_all add: enc_pointer_def)
    then obtain x1 where x1: "xdr_bool 0 x = KRet (True, 1, x1)"
      "xdr_at ops good sent ahead XDR_DECODE (a @ htonl_bytes 1) (enc w @ b) x1"
      using xdr_filter.decode [OF bool_filter] by blast
    from decode [OF ok z x1(2)] show ?thesis
      using x1(1) Some u xdr_at_op [OF x1(2)]
      by (auto simp: xdr_pointer_def xdr_reference_def enc_pointer_def)
  qed
qed

end

section \<open>The filters on memory streams\<close>


interpretation mem_bytes: xdr_filter xdrmem_ops xdrmem_good xdrmem_sent xdrmem_ahead
  "xdr_bytes maxsize" enc_bytes "bytes_ok maxsize" "\<lambda>u. fst u = None" for maxsize
  by (rule xmem.bytes_filter)

interpretation mem_string: xdr_filter xdrmem_ops xdrmem_good xdrmem_sent xdrmem_ahead
  "xdr_string maxsize" enc_string "string_ok maxsize" "\<lambda>u. u = None" for maxsize
  by (rule xmem.string_filter)

lemma xdrmem_create_at:
  assumes "length buf < 2 ^ 31"
  shows "xdr_at xdrmem_ops xdrmem_good xdrmem_sent xdrmem_ahead op [] buf
    (xdrmem_create buf (of_nat (length buf)) op)"
proof -
  have "unat (of_nat (length buf) :: uint_t) = length buf" using assms by (simp add: unat_of_nat)
  then have "sint (of_nat (length buf) :: uint_t) = int (length buf)"
    using sint_unat_small [of "of_nat (length buf)"] assms by simp
  then show ?thesis
    by (simp add: xdr_at_def xdrmem_create_def xdrmem_good_def xdrmem_sent_def xdrmem_ahead_def)
qed

lemma xdrmem_at_mem:
  assumes "xdr_at xdrmem_ops xdrmem_good xdrmem_sent xdrmem_ahead op a b x"
  shows "x_mem (x_stream x) = a @ b" "xdrmem_getpos (x_stream x) = of_nat (length a)"
proof -
  have x: "0 \<le> x_private (x_stream x)" "x_private (x_stream x) \<le> int (length (x_mem (x_stream x)))"
    "a = take (nat (x_private (x_stream x))) (x_mem (x_stream x))"
    "b = drop (nat (x_private (x_stream x))) (x_mem (x_stream x))"
    using assms by (auto simp: xdr_at_def xdrmem_good_def xdrmem_sent_def xdrmem_ahead_def)
  then show "x_mem (x_stream x) = a @ b" by simp
  have "x_private (x_stream x) = int (length a)" using x by simp
  then show "xdrmem_getpos (x_stream x) = of_nat (length a)"
    by (simp add: xdrmem_getpos_def)
qed

text \<open>Encoding into a buffer and decoding the buffer again, for any filter with the contract.\<close>

lemma xdrmem_roundtrip:
  assumes f: "xdr_filter xdrmem_ops xdrmem_good xdrmem_sent xdrmem_ahead proc enc ok fresh"
    and v: "ok v" "fresh u" and buf: "length buf < 2 ^ 31" "length (enc v) \<le> length buf"
  shows "\<exists>x y. proc v (xdrmem_create buf (of_nat (length buf)) XDR_ENCODE) = KRet (True, v, x) \<and>
     x_mem (x_stream x) = enc v @ drop (length (enc v)) buf \<and>
     proc u (xdrmem_create (x_mem (x_stream x)) (of_nat (length buf)) XDR_DECODE) = KRet (True, v, y) \<and>
     xdrmem_getpos (x_stream y) = xdrmem_getpos (x_stream x)"
proof -
  obtain x where x: "proc v (xdrmem_create buf (of_nat (length buf)) XDR_ENCODE) = KRet (True, v, x)"
    "xdr_at xdrmem_ops xdrmem_good xdrmem_sent xdrmem_ahead XDR_ENCODE (enc v) (drop (length (enc v)) buf) x"
    using xdr_filter.encode [OF f v(1) xdrmem_create_at [OF buf(1)] buf(2)] by auto
  note m = xdrmem_at_mem [OF x(2)]
  have len: "length (x_mem (x_stream x)) = length buf" using m buf(2) by simp
  then have "xdr_at xdrmem_ops xdrmem_good xdrmem_sent xdrmem_ahead XDR_DECODE [] (enc v @ drop (length (enc v)) buf)
      (xdrmem_create (x_mem (x_stream x)) (of_nat (length buf)) XDR_DECODE)"
    using xdrmem_create_at [of "x_mem (x_stream x)" XDR_DECODE] buf(1) m(1) by simp
  from xdr_filter.decode [OF f v this] obtain y where y: "proc u (xdrmem_create (x_mem (x_stream x)) (of_nat (length buf)) XDR_DECODE) = KRet (True, v, y)"
    "xdr_at xdrmem_ops xdrmem_good xdrmem_sent xdrmem_ahead XDR_DECODE (enc v) (drop (length (enc v)) buf) y"
    by auto
  have "xdrmem_getpos (x_stream y) = xdrmem_getpos (x_stream x)" using m(2) xdrmem_at_mem(2) [OF y(2)] by simp
  then show ?thesis using x(1) y(1) m(1) by blast
qed

lemma xdrmem_encode_too_small:
  assumes f: "xdr_filter xdrmem_ops xdrmem_good xdrmem_sent xdrmem_ahead proc enc ok fresh"
    and v: "ok v" and buf: "length buf < 2 ^ 31" "length buf < length (enc v)"
  shows "\<exists>v' x. proc v (xdrmem_create buf (of_nat (length buf)) XDR_ENCODE) = KRet (False, v', x)"
  using xdr_filter.encode_full [OF f v xdrmem_create_at [OF buf(1)] buf(2)] by blast

lemma xdr_string_free:
  assumes "string_ok maxsize v"
  shows "xdr_free (xdr_string maxsize) v x = KRet (True, None, x\<lparr>x_op := XDR_FREE\<rparr>)"
proof -
  obtain s where v: "v = Some (s @ [0])" and s: "0 \<notin> set s" "length s < 2 ^ 31" "length s \<le> unat maxsize"
    using assms by (auto simp: string_ok_def)
  note n = string_size [OF s(2)]
  have "\<not> maxsize < (of_nat (length s) :: uint_t)" using n(1) s(3) by (simp add: word_less_nat_alt)
  then show ?thesis
    using strlen_string [OF s(1), of "[]"] n(2)
    by (simp add: xdr_free_def xdr_string_def xdr_u_int_def v mem_free_def ptr_mem_def)
qed

section \<open>Where the length arithmetic goes wrong\<close>



lemma peek_after_failure:
  assumes s: "xdrmem_good s" "length (xdrmem_ahead s) < 4"
  shows "\<exists>s'. xdrmem_getint32 s = KRet (None, s') \<and> xdrmem_control s' XDR_PEEK = KFault"
proof -
  have neg: "sint (x_handy s - 4) < 0" using sint_neg_full [OF s sint_4] .
  then have get: "xdrmem_getint32 s = KRet (None, s\<lparr>x_handy := x_handy s - 4\<rparr>)"
    by (simp add: xdrmem_getint32_def Let_def)
  have big: "\<not> (scast (x_handy s - 4) :: size_t) < 4"
  proof
    assume "(scast (x_handy s - 4) :: size_t) < 4"
    then have lt: "unat (scast (x_handy s - 4) :: size_t) < 4" by (simp add: word_less_nat_alt)
    then have "sint (scast (x_handy s - 4) :: size_t) = int (unat (scast (x_handy s - 4) :: size_t))"
      by (intro sint_small) simp
    moreover have "sint (scast (x_handy s - 4) :: size_t) = sint (x_handy s - 4)"
      using sint_greater_eq [of "x_handy s - 4"] sint_less [of "x_handy s - 4"]
      unfolding scast_eq by (intro sint_of_int_small) auto
    ultimately show False using neg by simp
  qed
  have "int (length (x_mem s)) < x_private s + 4" "0 \<le> x_private s"
    using s by (auto simp: xdrmem_good_def xdrmem_ahead_def)
  then have "xdrmem_control (s\<lparr>x_handy := x_handy s - 4\<rparr>) XDR_PEEK = KFault"
    using big by (simp add: xdrmem_control_def mem_read_def)
  then show ?thesis using get by blast
qed

section \<open>Properties\<close>

text \<open>
  C21.  Counted bytes survive the wire: \<open>xdr_bytes\<close> writes the count and the bytes, padded to
  whole units, into a buffer with room for them and leaves the rest of the buffer alone;
  decoding that buffer into a null pointer allocates and returns the same bytes and ends at
  the same position.  Into a smaller buffer nothing is encoded: the result is \<^verbatim>\<open>FALSE\<close>.
\<close>

theorem xdr_bytes_roundtrip:
  assumes "bytes_ok maxsize v" and "length buf < 2 ^ 31"
  shows "if length (enc_bytes v) \<le> length buf
     then \<exists>x y. xdr_bytes maxsize v (xdrmem_create buf (of_nat (length buf)) XDR_ENCODE) = KRet (True, v, x) \<and>
       x_mem (x_stream x) = enc_bytes v @ drop (length (enc_bytes v)) buf \<and>
       xdr_bytes maxsize (None, n) (xdrmem_create (x_mem (x_stream x)) (of_nat (length buf)) XDR_DECODE) =
         KRet (True, v, y) \<and>
       xdrmem_getpos (x_stream y) = xdrmem_getpos (x_stream x)
     else \<exists>v' x. xdr_bytes maxsize v (xdrmem_create buf (of_nat (length buf)) XDR_ENCODE) = KRet (False, v', x)"
  using xdrmem_roundtrip [OF xmem.bytes_filter assms(1) _ assms(2), where u = "(None, n)"]
    xdrmem_encode_too_small [OF xmem.bytes_filter assms] by auto

theorem xdr_bytes_roundtrip_witness:
  "\<exists>x. xdr_bytes 10 (Some [1, 2, 3], 3) (xdrmem_create (replicate 8 9) 8 XDR_ENCODE) =
     KRet (True, (Some [1, 2, 3], 3), x) \<and> x_mem (x_stream x) = [0, 0, 0, 3, 1, 2, 3, 0]"
proof -
  have ok: "bytes_ok 10 (Some [1, 2, 3], 3)" by (simp add: bytes_ok_def ptr_mem_def)
  have enc: "enc_bytes (Some [1, 2, 3], 3) = [0, 0, 0, 3, 1, 2, 3, 0]"
    by (simp add: enc_bytes_def ptr_mem_def padded_def pad_len_def htonl_bytes_def)
  have buf: "length (replicate 8 9 :: byte list) < 2 ^ 31" by simp
  from xdr_bytes_roundtrip [OF ok buf] show ?thesis unfolding enc by auto
qed

text \<open>
  C22.  The same for C strings, which are counted on the wire and terminated in memory.  What
  decoding allocates is freed by \<open>xdr_free\<close> with the size it was allocated with, because a
  string whose bytes contain a terminator is refused.
\<close>

theorem xdr_string_roundtrip:
  assumes "string_ok maxsize v" and "length buf < 2 ^ 31" and "length (enc_string v) \<le> length buf"
  shows "\<exists>x y. xdr_string maxsize v (xdrmem_create buf (of_nat (length buf)) XDR_ENCODE) = KRet (True, v, x) \<and>
     x_mem (x_stream x) = enc_string v @ drop (length (enc_string v)) buf \<and>
     xdr_string maxsize None (xdrmem_create (x_mem (x_stream x)) (of_nat (length buf)) XDR_DECODE) =
       KRet (True, v, y) \<and>
     xdr_free (xdr_string maxsize) v y = KRet (True, None, y\<lparr>x_op := XDR_FREE\<rparr>)"
  using xdrmem_roundtrip [OF xmem.string_filter assms(1) refl assms(2,3)] xdr_string_free [OF assms(1)] by blast

theorem xdr_string_roundtrip_witness:
  "\<exists>x. xdr_string 10 (Some [65, 66, 0]) (xdrmem_create (replicate 8 9) 8 XDR_ENCODE) =
     KRet (True, Some [65, 66, 0], x) \<and> x_mem (x_stream x) = [0, 0, 0, 2, 65, 66, 0, 0]"
proof -
  have ok: "string_ok 10 (Some [65, 66, 0])" unfolding string_ok_def by (intro exI [of _ "[65, 66]"]) simp
  have enc: "enc_string (Some [65, 66, 0]) = [0, 0, 0, 2, 65, 66, 0, 0]"
    by (simp add: enc_string_def ptr_mem_def padded_def pad_len_def htonl_bytes_def Let_def) (simp add: numeral_2_eq_2)
  have "length (replicate 8 9 :: byte list) < 2 ^ 31"
    "length (enc_string (Some [65, 66, 0])) \<le> length (replicate 8 9 :: byte list)" by (simp_all add: enc)
  from xdr_string_roundtrip [OF ok this] show ?thesis unfolding enc by auto
qed

text \<open>
  C23.  Arrays and optional pointers carry over whatever their element filter promises: if the
  element filter encodes and decodes on memory streams, so do \<open>xdr_array\<close> of it, as long as
  the size of the array in bytes fits in 32 bits, and \<open>xdr_pointer\<close> to it.
\<close>

theorem xdr_array_pointer_filters:
  assumes "xdr_filter xdrmem_ops xdrmem_good xdrmem_sent xdrmem_ahead proc enc ok fresh" and "fresh zero"
  shows "xdr_filter xdrmem_ops xdrmem_good xdrmem_sent xdrmem_ahead (xdr_array maxsize elsize zero proc)
       (enc_array enc) (array_ok maxsize elsize ok) (\<lambda>u. fst u = None) \<and>
     xdr_filter xdrmem_ops xdrmem_good xdrmem_sent xdrmem_ahead (xdr_pointer zero proc)
       (enc_pointer enc) (pred_option ok) (\<lambda>u. u = None)"
  using xdr_filter.array_filter [OF assms] xdr_filter.pointer_filter [OF assms] by blast

theorem xdr_array_pointer_filters_witness:
  "xdr_filter xdrmem_ops xdrmem_good xdrmem_sent xdrmem_ahead (xdr_array 100 8 None (xdr_string 20))
     (enc_array enc_string) (array_ok 100 8 (string_ok 20)) (\<lambda>u. fst u = None)"
  using xdr_array_pointer_filters [OF xmem.string_filter refl] by blast



text \<open>
  C25.  A failed read leaves \<open>x_handy\<close> negative, and the guard of \<open>XDR_PEEK\<close> compares it as an
  unsigned number: peeking after a failed \<open>xdrmem_getint32\<close> reads past the end of the buffer.
\<close>

theorem xdrmem_peek_after_failure:
  assumes "xdrmem_good s" and "length (xdrmem_ahead s) < 4"
  shows "\<exists>s'. xdrmem_getint32 s = KRet (None, s') \<and> xdrmem_control s' XDR_PEEK = KFault"
  using peek_after_failure [OF assms] .

theorem xdrmem_peek_after_failure_witness:
  "\<exists>s'. xdrmem_getint32 \<lparr>x_mem = [1, 2], x_private = 0, x_handy = 2\<rparr> = KRet (None, s') \<and>
     xdrmem_control s' XDR_PEEK = KFault"
  using xdrmem_peek_after_failure [of "\<lparr>x_mem = [1, 2], x_private = 0, x_handy = 2\<rparr>"]
  by (simp add: xdrmem_good_def xdrmem_ahead_def)



end
