(* ===== verification/Bitmap.thy ===== *)
theory Bitmap
  imports Kern_Prelude
begin

text \<open>
  Bitmaps of arbitrary size, \<^verbatim>\<open>uts/common/os/bitmap.c\<close> and \<^verbatim>\<open>uts/common/sys/bitmap.h\<close>, in the
  LP64 configuration: a bitmap is a list of 64-bit words, and a word outside of it is
  \<open>KFault\<close>.  Counters that stay below the range of their C type are natural numbers.
\<close>

section \<open>Macros\<close>

definition BT_ULSHIFT :: nat where
  "BT_ULSHIFT = 6"

definition BT_NBIPUL :: nat where
  "BT_NBIPUL = 2 ^ BT_ULSHIFT"

definition BT_ULMASK :: "64 word" where
  "BT_ULMASK = of_nat BT_NBIPUL - 1"

type_synonym index_t = "16 word"

definition BT_WIM :: "ulong_t list \<Rightarrow> size_t \<Rightarrow> ulong_t kres" where
  "BT_WIM bitmap i =
     (let w = unat (drop_bit BT_ULSHIFT i) in
      if length bitmap \<le> w then KFault else KRet (bitmap ! w))"

definition BT_BIW :: "size_t \<Rightarrow> ulong_t" where
  "BT_BIW i = push_bit (unat (i AND BT_ULMASK)) 1"

definition BT_BITOUL :: "size_t \<Rightarrow> size_t" where
  "BT_BITOUL nbits = (nbits + of_nat BT_NBIPUL - 1) div of_nat BT_NBIPUL"

definition BT_TEST :: "ulong_t list \<Rightarrow> size_t \<Rightarrow> bool kres" where
  "BT_TEST bitmap i = kbind (BT_WIM bitmap i) (\<lambda>w. KRet (w AND BT_BIW i \<noteq> 0))"

definition BT_SET :: "ulong_t list \<Rightarrow> size_t \<Rightarrow> ulong_t list kres" where
  "BT_SET bitmap i =
     kbind (BT_WIM bitmap i) (\<lambda>w. KRet (bitmap[unat (drop_bit BT_ULSHIFT i) := w OR BT_BIW i]))"

definition BT_CLEAR :: "ulong_t list \<Rightarrow> size_t \<Rightarrow> ulong_t list kres" where
  "BT_CLEAR bitmap i =
     kbind (BT_WIM bitmap i) (\<lambda>w. KRet (bitmap[unat (drop_bit BT_ULSHIFT i) := w AND NOT (BT_BIW i)]))"

section \<open>Routines\<close>

text \<open>
  The scan of \<open>bt_availbit\<close> for a word with a bit off.  The \<^verbatim>\<open>short\<close> word index reaches
  32768 only to become negative.
\<close>

function availword :: "ulong_t list \<Rightarrow> int \<Rightarrow> nat \<Rightarrow> nat kres" where
  "availword bitmap maxword wx =
     (if wx = 32768 then KFault
      else if int wx \<le> maxword then
        if length bitmap \<le> wx then KFault
        else if bitmap ! wx \<noteq> - 1 then KRet wx
        else availword bitmap maxword (Suc wx)
      else KRet wx)"
  by pat_completeness auto
termination
  by (relation "measure (\<lambda>(bitmap, maxword, wx). length bitmap - wx)") auto

text \<open>The scan of the word: \<open>b\<close> is \<^verbatim>\<open>1 << bx\<close>.\<close>

function availbit :: "ulong_t \<Rightarrow> nat \<Rightarrow> nat \<Rightarrow> ulong_t \<Rightarrow> nat option" where
  "availbit word maxbit bx b =
     (if bx \<le> maxbit then
        if word AND b = 0 then Some bx
        else availbit word maxbit (Suc bx) (push_bit 1 b)
      else None)"
  by pat_completeness auto
termination
  by (relation "measure (\<lambda>(word, maxbit, bx, b). Suc maxbit - bx)") auto

definition bt_availbit :: "ulong_t list \<Rightarrow> size_t \<Rightarrow> index_t kres" where
  "bt_availbit bitmap nbits =
     (let nbits = nbits - 1;
          maxword = sint (ucast (drop_bit BT_ULSHIFT nbits) :: index_t) in
      kbind (availword bitmap maxword 0) (\<lambda>wx.
        if int wx \<le> maxword then
          let maxbit = (if int wx = maxword then unat (nbits AND BT_ULMASK) else BT_NBIPUL - 1) in
          case availbit (bitmap ! wx) maxbit 0 1 of
            Some bx \<Rightarrow> KRet (ucast (push_bit BT_ULSHIFT (of_nat wx) OR of_nat bx :: int32_t))
          | None \<Rightarrow> KRet (- 1)
        else KRet (- 1)))"

definition highbit :: "ulong_t \<Rightarrow> nat" where
  "highbit i =
     (if i = 0 then 0
      else
        let h = 1;
            (h, i) = (if i AND 0xffffffff00000000 \<noteq> 0 then (h + 32, drop_bit 32 i) else (h, i));
            (h, i) = (if i AND 0xffff0000 \<noteq> 0 then (h + 16, drop_bit 16 i) else (h, i));
            (h, i) = (if i AND 0xff00 \<noteq> 0 then (h + 8, drop_bit 8 i) else (h, i));
            (h, i) = (if i AND 0xf0 \<noteq> 0 then (h + 4, drop_bit 4 i) else (h, i));
            (h, i) = (if i AND 0xc \<noteq> 0 then (h + 2, drop_bit 2 i) else (h, i))
        in if i AND 0x2 \<noteq> 0 then h + 1 else h)"

definition lowbit :: "ulong_t \<Rightarrow> nat" where
  "lowbit i =
     (if i = 0 then 0
      else
        let h = 1;
            (h, i) = (if i AND 0xffffffff = 0 then (h + 32, drop_bit 32 i) else (h, i));
            (h, i) = (if i AND 0xffff = 0 then (h + 16, drop_bit 16 i) else (h, i));
            (h, i) = (if i AND 0xff = 0 then (h + 8, drop_bit 8 i) else (h, i));
            (h, i) = (if i AND 0xf = 0 then (h + 4, drop_bit 4 i) else (h, i));
            (h, i) = (if i AND 0x3 = 0 then (h + 2, drop_bit 2 i) else (h, i))
        in if i AND 0x1 = 0 then h + 1 else h)"

fun bt_gethighbit :: "ulong_t list \<Rightarrow> nat \<Rightarrow> int kres" where
  "bt_gethighbit mapp wx =
     (if length mapp \<le> wx then KFault
      else if mapp ! wx = 0 then
        (case wx of 0 \<Rightarrow> KRet (- 1) | Suc w \<Rightarrow> bt_gethighbit mapp w)
      else KRet (int (wx * BT_NBIPUL + (highbit (mapp ! wx) - 1))))"

declare availword.simps [simp del] availbit.simps [simp del] bt_gethighbit.simps [simp del]

text \<open>The two scans of \<open>bt_range\<close>: for a bit that is on, and for one that is off.\<close>

function range_scan :: "ulong_t list \<Rightarrow> bool \<Rightarrow> size_t \<Rightarrow> size_t \<Rightarrow> size_t kres" where
  "range_scan bitmap on nbits inx =
     (if inx < nbits then
        kbind (BT_TEST bitmap inx) (\<lambda>b.
          if b = on then KRet inx else range_scan bitmap on nbits (inx + 1))
      else KRet inx)"
  by pat_completeness auto
termination
proof (relation "measure (\<lambda>(bitmap, on, nbits, inx). unat nbits - unat inx)", simp)
  fix bitmap on and nbits inx :: size_t and x
  assume "inx < nbits"
  then have lt: "unat inx < unat nbits" by (simp add: word_less_nat_alt)
  then have "unat (inx + 1) = unat inx + 1"
    using unat_add_no_wrap [of inx 1] unat_bound [of nbits] by simp
  then show "((bitmap, on, nbits, inx + 1), (bitmap, on, nbits, inx)) \<in>
      measure (\<lambda>(bitmap, on, nbits, inx). unat nbits - unat inx)"
    using lt by simp
qed

declare range_scan.simps [simp del]

text \<open>The result is \<^verbatim>\<open>pos1\<close> and \<^verbatim>\<open>pos2\<close> for the C result 1, \<open>None\<close> for 0.\<close>

definition bt_range :: "ulong_t list \<Rightarrow> size_t \<Rightarrow> size_t \<Rightarrow> (size_t \<times> size_t) option kres" where
  "bt_range bitmap pos1 nbits =
     kbind (range_scan bitmap True nbits pos1) (\<lambda>inx.
       if inx = nbits then KRet None
       else kbind (range_scan bitmap False nbits inx) (\<lambda>inx2. KRet (Some (inx, inx2 - 1))))"

section \<open>Bits of a word\<close>

text \<open>
  The highest set bit survives a shift that leaves something, and the test for the upper half
  of \<open>2 * k\<close> bits says when it does.
\<close>

definition top_bit :: "ulong_t \<Rightarrow> nat \<Rightarrow> bool" where
  "top_bit w n \<longleftrightarrow> bit w n \<and> (\<forall>j. bit w j \<longrightarrow> j \<le> n)"

definition bottom_bit :: "ulong_t \<Rightarrow> nat \<Rightarrow> bool" where
  "bottom_bit w n \<longleftrightarrow> bit w n \<and> (\<forall>j. bit w j \<longrightarrow> n \<le> j)"

lemma top_bit_exists: "w \<noteq> 0 \<Longrightarrow> \<exists>n. top_bit w n"
proof -
  assume "w \<noteq> 0"
  then have ne: "{j. bit w j} \<noteq> {}" by (auto simp: bit_eq_iff)
  have fin: "finite {j. bit w j}"
    by (rule finite_subset [of _ "{..<64}"]) (auto dest: bit_imp_le_length)
  have "top_bit w (Max {j. bit w j})"
    using Max_in [OF fin ne] Max_ge [OF fin] by (simp add: top_bit_def)
  then show ?thesis by blast
qed

lemma bottom_bit_exists: "w \<noteq> 0 \<Longrightarrow> \<exists>n. bottom_bit w n"
proof -
  assume "w \<noteq> 0"
  then obtain j where "bit w j" by (auto simp: bit_eq_iff)
  then have "bottom_bit w (LEAST j. bit w j)"
    unfolding bottom_bit_def by (auto intro: LeastI Least_le)
  then show ?thesis by blast
qed

text \<open>One halving step of \<open>highbit\<close> and \<open>lowbit\<close>, and what it keeps: the bit looked for is \<open>m\<close>.\<close>

definition high_step :: "nat \<Rightarrow> nat \<times> ulong_t \<Rightarrow> nat \<times> ulong_t" where
  "high_step k = (\<lambda>(h, i). if i AND push_bit k (mask k) \<noteq> 0 then (h + k, drop_bit k i) else (h, i))"

definition low_step :: "nat \<Rightarrow> nat \<times> ulong_t \<Rightarrow> nat \<times> ulong_t" where
  "low_step k = (\<lambda>(h, i). if i AND mask k = 0 then (h + k, drop_bit k i) else (h, i))"

definition searching :: "(ulong_t \<Rightarrow> nat \<Rightarrow> bool) \<Rightarrow> nat \<Rightarrow> nat \<Rightarrow> nat \<times> ulong_t \<Rightarrow> bool" where
  "searching P m k = (\<lambda>(h, i). \<exists>n. P i n \<and> n < k \<and> h = Suc (m - n) \<and> n \<le> m)"

lemma searching_step:
  assumes s: "searching P m (2 * k) (h, i)"
    and test: "\<And>n. P i n \<Longrightarrow> n < 2 * k \<Longrightarrow> c \<longleftrightarrow> k \<le> n"
    and drop: "\<And>n. P i n \<Longrightarrow> k \<le> n \<Longrightarrow> P (drop_bit k i) (n - k)"
  shows "searching P m k (if c then (h + k, drop_bit k i) else (h, i))"
proof -
  obtain n where n: "P i n" "n < 2 * k" "h = Suc (m - n)" "n \<le> m" using s by (auto simp: searching_def)
  show ?thesis
  proof (cases "k \<le> n")
    case True
    then show ?thesis using n test [OF n(1,2)] drop [OF n(1)]
      by (auto simp: searching_def intro!: exI [of _ "n - k"])
  next
    case False
    then show ?thesis using n test [OF n(1,2)] by (auto simp: searching_def intro!: exI [of _ n])
  qed
qed

lemma high_step_searching:
  assumes "searching top_bit m (2 * k) (h, i)"
  shows "searching top_bit m k (high_step k (h, i))"
  unfolding high_step_def prod.case
proof (rule searching_step [OF assms])
  fix n assume t: "top_bit i n"
  then have b: "bit i n" "\<And>j. bit i j \<Longrightarrow> j \<le> n" by (auto simp: top_bit_def)
  have len: "n < 64" using bit_imp_le_length [OF b(1)] by simp
  {
    assume "n < 2 * k"
    show "i AND push_bit k (mask k) \<noteq> 0 \<longleftrightarrow> k \<le> n"
    proof
      assume "k \<le> n"
      then have "bit (i AND push_bit k (mask k)) n" using b(1) \<open>n < 2 * k\<close> len by (auto simp: bit_simps)
      then show "i AND push_bit k (mask k) \<noteq> 0" by auto
    next
      assume "i AND push_bit k (mask k) \<noteq> 0"
      then obtain j where "bit i j" "k \<le> j" by (auto simp: bit_eq_iff bit_simps)
      then show "k \<le> n" using b(2) le_trans by blast
    qed
  }
  show "k \<le> n \<Longrightarrow> top_bit (drop_bit k i) (n - k)"
    unfolding top_bit_def bit_drop_bit_eq using b(1) by (auto dest: b(2))
qed

lemma low_step_searching:
  assumes "searching bottom_bit m (2 * k) (h, i)"
  shows "searching bottom_bit m k (low_step k (h, i))"
  unfolding low_step_def prod.case
proof (rule searching_step [OF assms])
  fix n assume t: "bottom_bit i n"
  then have b: "bit i n" "\<And>j. bit i j \<Longrightarrow> n \<le> j" by (auto simp: bottom_bit_def)
  have len: "n < 64" using bit_imp_le_length [OF b(1)] by simp
  show "i AND mask k = 0 \<longleftrightarrow> k \<le> n"
  proof
    assume z: "i AND mask k = 0"
    have "\<not> bit (i AND mask k) n" unfolding z by simp
    then show "k \<le> n" using b(1) len by (auto simp: bit_simps)
  next
    assume "k \<le> n"
    then have "\<not> bit (i AND mask k) j" for j using b(2) [of j] by (auto simp: bit_simps)
    then show "i AND mask k = 0" by (auto simp: bit_eq_iff)
  qed
  show "k \<le> n \<Longrightarrow> bottom_bit (drop_bit k i) (n - k)"
    unfolding bottom_bit_def bit_drop_bit_eq using b(1) by (auto dest: b(2))
qed

lemma search_masks:
  "(0xffffffff00000000 :: ulong_t) = push_bit 32 (mask 32)" "(0xffff0000 :: ulong_t) = push_bit 16 (mask 16)"
  "(0xff00 :: ulong_t) = push_bit 8 (mask 8)" "(0xf0 :: ulong_t) = push_bit 4 (mask 4)"
  "(0xc :: ulong_t) = push_bit 2 (mask 2)" "(0x2 :: ulong_t) = push_bit 1 (mask 1)"
  "(0xffffffff :: ulong_t) = mask 32" "(0xffff :: ulong_t) = mask 16" "(0xff :: ulong_t) = mask 8"
  "(0xf :: ulong_t) = mask 4" "(0x3 :: ulong_t) = mask 2" "(0x1 :: ulong_t) = mask 1"
  by (simp_all add: mask_eq_exp_minus_1)

lemma highbit_top_bit:
  assumes t: "top_bit w n"
  shows "highbit w = Suc n"
proof -
  have w: "w \<noteq> 0" "n < 64" using t bit_imp_le_length [of w n] by (auto simp: top_bit_def)
  have s0: "searching top_bit n 64 (1, w)" using t w(2) by (auto simp: searching_def)
  obtain h1 i1 where 1: "high_step 32 (1, w) = (h1, i1)" by fastforce
  have s1: "searching top_bit n 32 (h1, i1)" using high_step_searching [of n 32 "1" w] s0 1 by simp
  obtain h2 i2 where 2: "high_step 16 (h1, i1) = (h2, i2)" by fastforce
  have s2: "searching top_bit n 16 (h2, i2)" using high_step_searching [of n 16 "h1" i1] s1 2 by simp
  obtain h3 i3 where 3: "high_step 8 (h2, i2) = (h3, i3)" by fastforce
  have s3: "searching top_bit n 8 (h3, i3)" using high_step_searching [of n 8 "h2" i2] s2 3 by simp
  obtain h4 i4 where 4: "high_step 4 (h3, i3) = (h4, i4)" by fastforce
  have s4: "searching top_bit n 4 (h4, i4)" using high_step_searching [of n 4 "h3" i3] s3 4 by simp
  obtain h5 i5 where 5: "high_step 2 (h4, i4) = (h5, i5)" by fastforce
  have s5: "searching top_bit n 2 (h5, i5)" using high_step_searching [of n 2 "h4" i4] s4 5 by simp
  obtain h6 i6 where 6: "high_step 1 (h5, i5) = (h6, i6)" by fastforce
  have s6: "searching top_bit n 1 (h6, i6)" using high_step_searching [of n 1 "h5" i5] s5 6 by simp
  have "highbit w = (if i5 AND push_bit 1 (mask 1) \<noteq> 0 then h5 + 1 else h5)"
    using 1 2 3 4 5 w(1) unfolding highbit_def search_masks(1-6) high_step_def prod.case Let_def
    by (simp only: prod.case if_False)
  also have "\<dots> = h6" using 6 by (auto simp: high_step_def split: if_splits)
  finally show ?thesis using s6 by (auto simp: searching_def)
qed

lemma lowbit_bottom_bit:
  assumes t: "bottom_bit w n"
  shows "lowbit w = Suc n"
proof -
  have w: "w \<noteq> 0" "n < 64" using t bit_imp_le_length [of w n] by (auto simp: bottom_bit_def)
  have s0: "searching bottom_bit n 64 (1, w)" using t w(2) by (auto simp: searching_def)
  obtain h1 i1 where 1: "low_step 32 (1, w) = (h1, i1)" by fastforce
  have s1: "searching bottom_bit n 32 (h1, i1)" using low_step_searching [of n 32 "1" w] s0 1 by simp
  obtain h2 i2 where 2: "low_step 16 (h1, i1) = (h2, i2)" by fastforce
  have s2: "searching bottom_bit n 16 (h2, i2)" using low_step_searching [of n 16 "h1" i1] s1 2 by simp
  obtain h3 i3 where 3: "low_step 8 (h2, i2) = (h3, i3)" by fastforce
  have s3: "searching bottom_bit n 8 (h3, i3)" using low_step_searching [of n 8 "h2" i2] s2 3 by simp
  obtain h4 i4 where 4: "low_step 4 (h3, i3) = (h4, i4)" by fastforce
  have s4: "searching bottom_bit n 4 (h4, i4)" using low_step_searching [of n 4 "h3" i3] s3 4 by simp
  obtain h5 i5 where 5: "low_step 2 (h4, i4) = (h5, i5)" by fastforce
  have s5: "searching bottom_bit n 2 (h5, i5)" using low_step_searching [of n 2 "h4" i4] s4 5 by simp
  obtain h6 i6 where 6: "low_step 1 (h5, i5) = (h6, i6)" by fastforce
  have s6: "searching bottom_bit n 1 (h6, i6)" using low_step_searching [of n 1 "h5" i5] s5 6 by simp
  have "lowbit w = (if i5 AND mask 1 = 0 then h5 + 1 else h5)"
    using 1 2 3 4 5 w(1) unfolding lowbit_def search_masks(7-12) low_step_def prod.case Let_def
    by (simp only: prod.case if_False)
  also have "\<dots> = h6" using 6 by (auto simp: low_step_def split: if_splits)
  finally show ?thesis using s6 by (auto simp: searching_def)
qed

section \<open>A bitmap as a set of positions\<close>

definition bt_bit :: "ulong_t list \<Rightarrow> nat \<Rightarrow> bool" where
  "bt_bit bitmap i \<longleftrightarrow> bit (bitmap ! (i div 64)) (i mod 64)"

lemma bt_position:
  fixes i :: size_t
  shows "unat (drop_bit BT_ULSHIFT i) = unat i div 64" "unat (i AND BT_ULMASK) = unat i mod 64"
proof -
  show "unat (drop_bit BT_ULSHIFT i) = unat i div 64"
    unfolding unat_drop_bit_eq by (simp add: drop_bit_eq_div BT_ULSHIFT_def)
  have "BT_ULMASK = mask 6" by (simp add: BT_ULMASK_def BT_NBIPUL_def BT_ULSHIFT_def mask_eq_exp_minus_1)
  then have "i AND BT_ULMASK = take_bit 6 i" by (simp only: take_bit_eq_mask)
  then show "unat (i AND BT_ULMASK) = unat i mod 64"
    by (simp only: unsigned_take_bit_eq) (simp add: take_bit_eq_mod)
qed

lemma BT_TEST_eq:
  assumes "unat i < 64 * length bm"
  shows "BT_TEST bm i = KRet (bt_bit bm (unat i))"
proof -
  have "unat i div 64 < length bm" using assms by (simp add: less_mult_imp_div_less mult.commute)
  then show ?thesis
    unfolding BT_TEST_def BT_WIM_def BT_BIW_def bt_position bt_bit_def bit_iff_and_push_bit_not_eq_0 Let_def
    by simp
qed

lemma div_mod_64_eq: "(i :: nat) div 64 = j div 64 \<Longrightarrow> i mod 64 = j mod 64 \<Longrightarrow> i = j"
  by (metis div_mult_mod_eq)

lemma BT_SET_eq:
  assumes "unat i < 64 * length bm"
  shows "\<exists>bm'. BT_SET bm i = KRet bm' \<and> length bm' = length bm \<and>
    (\<forall>j < 64 * length bm. bt_bit bm' j \<longleftrightarrow> j = unat i \<or> bt_bit bm j)"
proof -
  have w: "unat i div 64 < length bm" using assms by (simp add: less_mult_imp_div_less mult.commute)
  have "bt_bit (bm[unat i div 64 := bm ! (unat i div 64) OR BT_BIW i]) j \<longleftrightarrow> j = unat i \<or> bt_bit bm j" for j
  proof (cases "j div 64 = unat i div 64")
    case True
    have "j = unat i \<longleftrightarrow> j mod 64 = unat i mod 64" using div_mod_64_eq [OF True] by blast
    then show ?thesis using w True by (auto simp: bt_bit_def BT_BIW_def bt_position bit_simps)
  next
    case False
    then show ?thesis using w by (auto simp: bt_bit_def)
  qed
  then show ?thesis using w by (simp add: BT_SET_def BT_WIM_def bt_position)
qed

lemma BT_CLEAR_eq:
  assumes "unat i < 64 * length bm"
  shows "\<exists>bm'. BT_CLEAR bm i = KRet bm' \<and> length bm' = length bm \<and>
    (\<forall>j < 64 * length bm. bt_bit bm' j \<longleftrightarrow> j \<noteq> unat i \<and> bt_bit bm j)"
proof -
  have w: "unat i div 64 < length bm" using assms by (simp add: less_mult_imp_div_less mult.commute)
  have "bt_bit (bm[unat i div 64 := bm ! (unat i div 64) AND NOT (BT_BIW i)]) j \<longleftrightarrow> j \<noteq> unat i \<and> bt_bit bm j" for j
  proof (cases "j div 64 = unat i div 64")
    case True
    have "j = unat i \<longleftrightarrow> j mod 64 = unat i mod 64" using div_mod_64_eq [OF True] by blast
    then show ?thesis using w True by (auto simp: bt_bit_def BT_BIW_def bt_position bit_simps)
  next
    case False
    then show ?thesis using w by (auto simp: bt_bit_def)
  qed
  then show ?thesis using w by (simp add: BT_CLEAR_def BT_WIM_def bt_position)
qed

section \<open>The scans\<close>

lemma availbit_find:
  "maxbit < 64 \<Longrightarrow> availbit w maxbit bx (push_bit bx 1) = find (\<lambda>j. \<not> bit w j) [bx ..< Suc maxbit]"
proof (induction "Suc maxbit - bx" arbitrary: bx)
  case 0
  then show ?case by (simp add: availbit.simps [of w maxbit bx])
next
  case (Suc n)
  then have le: "bx \<le> maxbit" by simp
  have p: "push_bit 1 (push_bit bx 1) = (push_bit (Suc bx) 1 :: ulong_t)" by (simp add: push_bit_push_bit)
  have b: "w AND push_bit bx 1 = 0 \<longleftrightarrow> \<not> bit w bx" by (simp only: bit_iff_and_push_bit_not_eq_0 not_not)
  have l: "[bx ..< Suc maxbit] = bx # [Suc bx ..< Suc maxbit]" using le by (intro upt_conv_Cons) simp
  have "availbit w maxbit (Suc bx) (push_bit (Suc bx) 1) = find (\<lambda>j. \<not> bit w j) [Suc bx ..< Suc maxbit]"
    using Suc.hyps(1) [of "Suc bx"] Suc.hyps(2) Suc.prems by simp
  then show ?case unfolding availbit.simps [of w maxbit bx] p b l using le by simp
qed

lemma availword_find:
  "m < length bm \<Longrightarrow> m < 32767 \<Longrightarrow> wx \<le> Suc m \<Longrightarrow> availword bm (int m) wx =
    KRet (case find (\<lambda>k. bm ! k \<noteq> - 1) [wx ..< Suc m] of None \<Rightarrow> Suc m | Some k \<Rightarrow> k)"
proof (induction "Suc m - wx" arbitrary: wx)
  case 0
  then show ?case by (simp add: availword.simps [of bm _ wx])
next
  case (Suc n)
  then have "wx \<le> m" by simp
  then have l: "[wx ..< Suc m] = wx # [Suc wx ..< Suc m]" by (intro upt_conv_Cons) simp
  have "availword bm (int m) (Suc wx) =
      KRet (case find (\<lambda>k. bm ! k \<noteq> - 1) [Suc wx ..< Suc m] of None \<Rightarrow> Suc m | Some k \<Rightarrow> k)"
    using Suc.hyps(1) [of "Suc wx"] Suc.hyps(2) Suc.prems by simp
  then show ?case unfolding availword.simps [of bm _ wx] l using \<open>wx \<le> m\<close> Suc.prems by simp
qed

lemma range_scan_spec:
  "unat nbits \<le> 64 * length bm \<Longrightarrow> inx \<le> nbits \<Longrightarrow>
   \<exists>r. range_scan bm on nbits inx = KRet r \<and> inx \<le> r \<and> r \<le> nbits \<and>
     (\<forall>j. unat inx \<le> j \<longrightarrow> j < unat r \<longrightarrow> bt_bit bm j \<noteq> on) \<and> (r < nbits \<longrightarrow> bt_bit bm (unat r) = on)"
proof (induction "unat nbits - unat inx" arbitrary: inx)
  case 0
  then have "inx = nbits" by (simp add: word_le_nat_alt word_unat_eq_iff)
  then have "range_scan bm on nbits inx = KRet nbits" by (simp add: range_scan.simps [of bm on nbits nbits])
  then show ?case using \<open>inx = nbits\<close> by simp
next
  case (Suc n)
  then have lt: "unat inx < unat nbits" by simp
  then have lt': "inx < nbits" by (simp add: word_less_nat_alt)
  have u: "unat (inx + 1) = unat inx + 1"
    using lt unat_add_no_wrap [of inx 1] unat_bound [of nbits] by simp
  have t: "BT_TEST bm inx = KRet (bt_bit bm (unat inx))" using lt Suc.prems(1) by (intro BT_TEST_eq) simp
  show ?case
  proof (cases "bt_bit bm (unat inx) = on")
    case True
    then have "range_scan bm on nbits inx = KRet inx"
      unfolding range_scan.simps [of bm on nbits inx] using t lt' by simp
    then show ?thesis using True lt' by auto
  next
    case False
    have "n = unat nbits - unat (inx + 1)" "inx + 1 \<le> nbits" using Suc.hyps(2) u lt by (simp_all add: word_le_nat_alt)
    from Suc.hyps(1) [OF this(1) Suc.prems(1) this(2)] obtain r where
      r: "range_scan bm on nbits (inx + 1) = KRet r" "inx + 1 \<le> r" "r \<le> nbits"
        "\<forall>j. unat inx + 1 \<le> j \<longrightarrow> j < unat r \<longrightarrow> bt_bit bm j \<noteq> on" "r < nbits \<longrightarrow> bt_bit bm (unat r) = on"
      unfolding u by blast
    have "inx \<le> r" using r(2) u by (simp add: word_le_nat_alt)
    moreover have "\<forall>j. unat inx \<le> j \<longrightarrow> j < unat r \<longrightarrow> bt_bit bm j \<noteq> on"
    proof (intro allI impI)
      fix j assume "unat inx \<le> j" "j < unat r"
      then show "bt_bit bm j \<noteq> on" using r(4) False by (cases "j = unat inx") auto
    qed
    moreover have "range_scan bm on nbits inx = KRet r"
      unfolding range_scan.simps [of bm on nbits inx] using t lt' False r(1) by simp
    ultimately show ?thesis using r(3,5) by blast
  qed
qed

lemma find_upt_Some:
  assumes "find P [0 ..< n] = Some k"
  shows "k < n" "P k" "\<forall>j < k. \<not> P j"
  using assms by (auto simp: find_Some_iff)

lemma find_upt_None: "find P [0 ..< n] = None \<Longrightarrow> \<forall>j < n. \<not> P j"
  by (auto simp: find_None_iff)

lemma full_word: "(w :: ulong_t) = - 1 \<longleftrightarrow> (\<forall>j < 64. bit w j)"
  by (auto simp: bit_eq_iff)

lemma index_of_position:
  assumes "bx < 64"
  shows "(ucast (push_bit BT_ULSHIFT (of_nat wx) OR of_nat bx :: int32_t) :: index_t) = of_nat (64 * wx + bx)"
proof -
  have small: "\<not> bit bx n" if "6 \<le> n" for n
  proof -
    have "(2::nat) ^ 6 \<le> 2 ^ n" using that by (intro power_increasing) simp_all
    then show ?thesis using assms by (simp add: bit_iff_odd)
  qed
  have "push_bit BT_ULSHIFT (of_nat wx) OR (of_nat bx :: int32_t) = push_bit BT_ULSHIFT (of_nat wx) + of_nat bx"
    by (intro disjunctive_add [symmetric]) (auto simp: bit_simps BT_ULSHIFT_def small)
  also have "\<dots> = of_nat (64 * wx + bx)" by (simp add: push_bit_eq_mult BT_ULSHIFT_def mult.commute)
  finally show ?thesis
    by (simp only:) (rule bit_word_eqI, simp add: bit_simps del: of_nat_add of_nat_mult)
qed

lemma bt_availbit_first:
  assumes n: "0 < unat nbits" "unat nbits \<le> 64 * length bm" "unat nbits \<le> 64 * 32767"
  shows "(\<forall>i < unat nbits. bt_bit bm i) \<and> bt_availbit bm nbits = KRet (- 1) \<or>
    (\<exists>i < unat nbits. \<not> bt_bit bm i \<and> (\<forall>j < i. bt_bit bm j) \<and> bt_availbit bm nbits = KRet (of_nat i))"
proof -
  define m where "m = (unat nbits - 1) div 64"
  have "nbits \<noteq> 0" using n(1) by auto
  then have u: "unat (nbits - 1) = unat nbits - 1"
    using unat_sub_le [of 1 nbits] n(1) by (simp add: word_le_nat_alt)
  have m: "m < length bm" "m < 32767" using n by (auto simp: m_def)
  have "unat (ucast (drop_bit BT_ULSHIFT (nbits - 1)) :: index_t) = m"
    using m(2) bt_position(1) [of "nbits - 1"] u by (subst unat_ucast_small) (simp_all add: m_def)
  then have mw: "sint (ucast (drop_bit BT_ULSHIFT (nbits - 1)) :: index_t) = int m"
    using m(2) by (subst sint_small) simp_all
  have mb: "unat ((nbits - 1) AND BT_ULMASK) = (unat nbits - 1) mod 64" using bt_position(2) [of "nbits - 1"] u by simp
  have last: "64 * m + (unat nbits - 1) mod 64 = unat nbits - 1" by (simp add: m_def)
  have bits: "bt_bit bm (64 * k + j) \<longleftrightarrow> bit (bm ! k) j" if "j < 64" for k j using that by (simp add: bt_bit_def)
  have fullw: "\<forall>i < 64 * k. bt_bit bm i" if "\<forall>j < k. bm ! j = - 1" for k
    using that by (auto simp: bt_bit_def full_word)
  show ?thesis
  proof (cases "find (\<lambda>k. bm ! k \<noteq> - 1) [0 ..< Suc m]")
    case None
    then have "\<forall>i < 64 * Suc m. bt_bit bm i" using find_upt_None [OF None] by (intro fullw) auto
    then have "\<forall>i < unat nbits. bt_bit bm i" using last by auto
    moreover have "bt_availbit bm nbits = KRet (- 1)"
      unfolding bt_availbit_def Let_def mw using availword_find [of m bm 0] m None by simp
    ultimately show ?thesis by simp
  next
    case (Some wx)
    note wx = find_upt_Some [OF Some]
    define mx where "mx = (if wx = m then (unat nbits - 1) mod 64 else 63)"
    have mx: "mx < 64" by (simp add: mx_def)
    have ab: "availbit (bm ! wx) mx 0 1 = find (\<lambda>j. \<not> bit (bm ! wx) j) [0 ..< Suc mx]"
      using availbit_find [OF mx, of "bm ! wx" 0] by simp
    have aw: "availword bm (int m) 0 = KRet wx" using availword_find [of m bm 0] m Some by simp
    have lim: "(if int wx = int m then (unat nbits - 1) mod 64 else BT_NBIPUL - 1) = mx"
      by (simp add: mx_def BT_NBIPUL_def BT_ULSHIFT_def)
    have "int wx \<le> int m" using wx(1) by simp
    then have eq: "bt_availbit bm nbits = (case find (\<lambda>j. \<not> bit (bm ! wx) j) [0 ..< Suc mx] of
        Some bx \<Rightarrow> KRet (ucast (push_bit BT_ULSHIFT (of_nat wx) OR of_nat bx :: int32_t)) | None \<Rightarrow> KRet (- 1))"
      unfolding bt_availbit_def Let_def mw mb aw kbind.simps lim ab by (simp only: if_True)
    have before: "\<forall>i < 64 * wx. bt_bit bm i" using wx(3) by (intro fullw) auto
    have upto: "bt_bit bm i" if "\<forall>j < k. bit (bm ! wx) j" "k \<le> 64" "i < 64 * wx + k" for i k
    proof (cases "i < 64 * wx")
      case False
      then show ?thesis using that bits [of "i - 64 * wx" wx] by auto
    qed (simp add: before)
    show ?thesis
    proof (cases "find (\<lambda>j. \<not> bit (bm ! wx) j) [0 ..< Suc mx]")
      case None
      then have all: "\<forall>j < Suc mx. bit (bm ! wx) j" using find_upt_None [OF None] by simp
      then have "wx = m" using wx(2) by (cases "wx = m") (auto simp: full_word mx_def)
      then have "\<forall>i < unat nbits. bt_bit bm i" using upto [OF all] mx last by (simp add: mx_def)
      then show ?thesis using eq None by simp
    next
      case (Some bx)
      note bx = find_upt_Some [OF Some]
      have b64: "bx < 64" using bx(1) mx by simp
      have "64 * wx + bx < unat nbits"
      proof (cases "wx = m")
        case True
        then show ?thesis using bx(1) last n(1) by (simp add: mx_def)
      next
        case False
        then have "64 * wx + 64 \<le> 64 * m" using wx(1) by simp
        then show ?thesis using b64 last n(1) by linarith
      qed
      moreover have "\<not> bt_bit bm (64 * wx + bx)" using bx(2) bits [OF b64] by simp
      moreover have "\<forall>j < 64 * wx + bx. bt_bit bm j" using upto [of bx] bx(3) b64 by auto
      moreover have "bt_availbit bm nbits = KRet (of_nat (64 * wx + bx))"
        using eq Some index_of_position [OF b64] by simp
      ultimately show ?thesis by blast
    qed
  qed
qed


section \<open>Properties\<close>

text \<open>
  C27.  \<open>bt_availbit\<close> on a bitmap of at most 32768 bits: the result is -1 exactly when every
  bit is on, and otherwise the index of the lowest bit that is off.
\<close>
theorem bt_availbit_first_free:
  assumes "0 < unat nbits" "unat nbits \<le> 64 * length bm" "unat nbits \<le> 32768"
  shows "\<exists>r. bt_availbit bm nbits = KRet r \<and>
    (sint r = - 1 \<longleftrightarrow> (\<forall>i < unat nbits. bt_bit bm i)) \<and>
    (sint r \<noteq> - 1 \<longrightarrow> 0 \<le> sint r \<and> nat (sint r) < unat nbits \<and> \<not> bt_bit bm (nat (sint r)) \<and>
       (\<forall>j < nat (sint r). bt_bit bm j))"
proof -
  have s: "sint (of_nat i :: index_t) = int i" if "i < 32768" for i :: nat
    using that sint_small [of "of_nat i :: index_t"] by (simp add: unat_of_nat)
  have "unat nbits \<le> 64 * 32767" using assms(3) by simp
  from bt_availbit_first [OF assms(1,2) this] show ?thesis
  proof
    assume "(\<forall>i < unat nbits. bt_bit bm i) \<and> bt_availbit bm nbits = KRet (- 1)"
    then show ?thesis by simp
  next
    assume "\<exists>i < unat nbits. \<not> bt_bit bm i \<and> (\<forall>j < i. bt_bit bm j) \<and> bt_availbit bm nbits = KRet (of_nat i)"
    then obtain i where "i < unat nbits" "\<not> bt_bit bm i" "\<forall>j < i. bt_bit bm j" "bt_availbit bm nbits = KRet (of_nat i)"
      by blast
    moreover from this(1) have "sint (of_nat i :: index_t) = int i" using assms(3) by (intro s) simp
    ultimately show ?thesis by auto
  qed
qed

theorem bt_availbit_first_free_witness:
  "\<exists>r. bt_availbit [- 1, 5] 70 = KRet r \<and>
    (sint r = - 1 \<longleftrightarrow> (\<forall>i < unat (70 :: size_t). bt_bit [- 1, 5] i)) \<and>
    (sint r \<noteq> - 1 \<longrightarrow> 0 \<le> sint r \<and> nat (sint r) < unat (70 :: size_t) \<and> \<not> bt_bit [- 1, 5] (nat (sint r)) \<and>
       (\<forall>j < nat (sint r). bt_bit [- 1, 5] j))"
  by (rule bt_availbit_first_free) simp_all

text \<open>
  C31.  The index type of \<open>bt_availbit\<close> is a \<^verbatim>\<open>short\<close>.  When the first 32768 bits are on and
  the next is off, the index that is returned is -32768, not the position of the free bit and
  not the failure value.
\<close>
theorem bt_availbit_index_wraps:
  assumes "32768 < unat nbits" "unat nbits \<le> 64 * length bm" "unat nbits \<le> 64 * 32767"
    and "\<forall>i < 32768. bt_bit bm i" "\<not> bt_bit bm 32768"
  shows "\<exists>r. bt_availbit bm nbits = KRet r \<and> sint r = - 32768"
proof -
  have "0 < unat nbits" using assms(1) by simp
  from bt_availbit_first [OF this assms(2,3)] assms(1,5) obtain i where
    i: "\<not> bt_bit bm i" "\<forall>j < i. bt_bit bm j" "bt_availbit bm nbits = KRet (of_nat i)" by blast
  then have "i = 32768" using assms(4,5) by (meson linorder_neqE_nat)
  then show ?thesis using i(3) by simp
qed

theorem bt_availbit_index_wraps_witness:
  "\<exists>r. bt_availbit (replicate 512 (- 1) @ [0]) 32832 = KRet r \<and> sint r = - 32768"
proof (rule bt_availbit_index_wraps)
  show "\<forall>i < 32768. bt_bit (replicate 512 (- 1) @ [0]) i"
    by (simp add: bt_bit_def nth_append div_less_iff_less_mult)
  show "\<not> bt_bit (replicate 512 (- 1) @ [0]) 32768" by (simp add: bt_bit_def nth_append)
qed simp_all

text \<open>
  C28.  \<open>bt_range\<close> from a position within the bitmap: no result exactly when no bit from there
  on is on, and otherwise the first run of ones, which no bit precedes and which ends at the
  size of the bitmap or at a bit that is off.
\<close>
theorem bt_range_first_run:
  assumes "pos1 \<le> nbits" "unat nbits \<le> 64 * length bm"
  shows "(bt_range bm pos1 nbits = KRet None \<and> (\<forall>j. unat pos1 \<le> j \<longrightarrow> j < unat nbits \<longrightarrow> \<not> bt_bit bm j)) \<or>
    (\<exists>p q. bt_range bm pos1 nbits = KRet (Some (p, q)) \<and> pos1 \<le> p \<and> p \<le> q \<and> q < nbits \<and>
       (\<forall>j. unat pos1 \<le> j \<longrightarrow> j < unat p \<longrightarrow> \<not> bt_bit bm j) \<and>
       (\<forall>j. unat p \<le> j \<longrightarrow> j \<le> unat q \<longrightarrow> bt_bit bm j) \<and>
       (q + 1 = nbits \<or> \<not> bt_bit bm (unat (q + 1))))"
proof -
  obtain r where r: "range_scan bm True nbits pos1 = KRet r" "pos1 \<le> r" "r \<le> nbits"
    "\<forall>j. unat pos1 \<le> j \<longrightarrow> j < unat r \<longrightarrow> \<not> bt_bit bm j" "r < nbits \<longrightarrow> bt_bit bm (unat r)"
    using range_scan_spec [OF assms(2,1), of True] by auto
  show ?thesis
  proof (cases "r = nbits")
    case True
    then show ?thesis using r by (simp add: bt_range_def)
  next
    case False
    then have lt: "r < nbits" using r(3) by simp
    obtain s where s: "range_scan bm False nbits r = KRet s" "r \<le> s" "s \<le> nbits"
      "\<forall>j. unat r \<le> j \<longrightarrow> j < unat s \<longrightarrow> bt_bit bm j" "s < nbits \<longrightarrow> \<not> bt_bit bm (unat s)"
      using range_scan_spec [OF assms(2) r(3), of False] by auto
    have "s \<noteq> r" using s(5) lt r(5) by auto
    then have rs: "unat r < unat s" using s(2) by (simp add: word_le_nat_alt word_unat_eq_iff)
    then have u: "unat (s - 1) = unat s - 1" using unat_sub_le [of 1 s] by (simp add: word_le_nat_alt)
    have "r \<le> s - 1" "s - 1 < nbits" using rs u s(3) by (auto simp: word_le_nat_alt word_less_nat_alt)
    moreover have "\<forall>j. unat r \<le> j \<longrightarrow> j \<le> unat (s - 1) \<longrightarrow> bt_bit bm j" using s(4) u rs by auto
    moreover have "s - 1 + 1 = nbits \<or> \<not> bt_bit bm (unat (s - 1 + 1))" using s(3,5) by auto
    moreover have "bt_range bm pos1 nbits = KRet (Some (r, s - 1))" using False r(1) s(1) by (simp add: bt_range_def)
    ultimately show ?thesis using r(2,4) by blast
  qed
qed

theorem bt_range_first_run_witness:
  "(bt_range [0x38] 1 64 = KRet None \<and> (\<forall>j. unat (1 :: size_t) \<le> j \<longrightarrow> j < unat (64 :: size_t) \<longrightarrow> \<not> bt_bit [0x38] j)) \<or>
    (\<exists>p q. bt_range [0x38] 1 64 = KRet (Some (p, q)) \<and> 1 \<le> p \<and> p \<le> q \<and> q < 64 \<and>
       (\<forall>j. unat (1 :: size_t) \<le> j \<longrightarrow> j < unat p \<longrightarrow> \<not> bt_bit [0x38] j) \<and>
       (\<forall>j. unat p \<le> j \<longrightarrow> j \<le> unat q \<longrightarrow> bt_bit [0x38] j) \<and>
       (q + 1 = 64 \<or> \<not> bt_bit [0x38] (unat (q + 1))))"
  by (rule bt_range_first_run) simp_all

text \<open>
  C29.  \<open>highbit\<close> and \<open>lowbit\<close>: 0 for the word 0, and otherwise one more than the position of
  the most and of the least significant bit that is on.
\<close>
theorem highbit_lowbit_positions:
  "if w = 0 then highbit w = 0 \<and> lowbit w = 0
   else highbit w = Suc (Max {j. bit w j}) \<and> lowbit w = Suc (Min {j. bit w j})"
proof (cases "w = 0")
  case True
  then show ?thesis by (simp add: highbit_def lowbit_def)
next
  case False
  have fin: "finite {j. bit w j}" by (rule finite_subset [of _ "{..<64}"]) (auto dest: bit_imp_le_length)
  obtain h where h: "top_bit w h" using top_bit_exists [OF False] by blast
  obtain l where l: "bottom_bit w l" using bottom_bit_exists [OF False] by blast
  have "Max {j. bit w j} = h" using h by (intro Max_eqI [OF fin]) (auto simp: top_bit_def)
  moreover have "Min {j. bit w j} = l" using l by (intro Min_eqI [OF fin]) (auto simp: bottom_bit_def)
  ultimately show ?thesis using False highbit_top_bit [OF h] lowbit_bottom_bit [OF l] by simp
qed



end
