(* ===== verification/Refcount.thy ===== *)
theory Refcount
  imports Kern_Prelude "HOL-Library.Multiset"
begin

text \<open>
  The contract of a store of reference-counted objects: the count of an object is the number of
  its holders, and the object is freed with the last of them.  Credentials (\<^verbatim>\<open>crhold\<close> and
  \<^verbatim>\<open>crfree\<close>) provide it; what a client may rely on is proved here once.
\<close>

locale refcounted =
  fixes refs :: "'h \<Rightarrow> 'a multiset \<Rightarrow> bool" and val :: "'h \<Rightarrow> 'a \<Rightarrow> 'v option"
    and hold :: "'h \<Rightarrow> 'a \<Rightarrow> 'h kres" and release :: "'h \<Rightarrow> 'a \<Rightarrow> 'h kres"
  assumes live: "refs h M \<Longrightarrow> val h a \<noteq> None \<longleftrightarrow> a \<in># M"
    and hold_ok: "refs h M \<Longrightarrow> a \<in># M \<Longrightarrow> count M a + 1 < 2 ^ 32 \<Longrightarrow>
      \<exists>h'. hold h a = KRet h' \<and> refs h' (M + {#a#}) \<and> val h' = val h"
    and release_ok: "refs h M \<Longrightarrow> a \<in># M \<Longrightarrow>
      \<exists>h'. release h a = KRet h' \<and> refs h' (M - {#a#}) \<and>
        val h' = (if a \<in># M - {#a#} then val h else (val h)(a := None))"
begin

text \<open>An object with another holder survives a release as it was.\<close>

lemma release_shared:
  assumes "refs h (M + {#a#})" "b \<in># M"
  shows "\<exists>h'. release h a = KRet h' \<and> refs h' M \<and> val h' b = val h b"
proof -
  have "a \<in># M + {#a#}" by simp
  from release_ok [OF assms(1) this] obtain h' where
    h': "release h a = KRet h'" "refs h' M" "val h' = (if a \<in># M then val h else (val h)(a := None))" by auto
  then have "val h' b = val h b" using assms(2) by auto
  then show ?thesis using h' by blast
qed

text \<open>Releases in any order drop exactly the holds of the list.\<close>

fun releases :: "'h \<Rightarrow> 'a list \<Rightarrow> 'h kres" where
  "releases h [] = KRet h"
| "releases h (a # as) = kbind (release h a) (\<lambda>h. releases h as)"

lemma releases_ok:
  "refs h (M + mset as) \<Longrightarrow> \<exists>h'. releases h as = KRet h' \<and> refs h' M \<and> (\<forall>b. b \<in># M \<longrightarrow> val h' b = val h b)"
proof (induction as arbitrary: h)
  case Nil
  then show ?case by simp
next
  case (Cons a as)
  have 0: "refs h ((M + mset as) + {#a#})" using Cons.prems by simp
  have "a \<in># (M + mset as) + {#a#}" by simp
  from release_ok [OF 0 this] obtain h' where h': "release h a = KRet h'" "refs h' (M + mset as)"
    "val h' = (if a \<in># M + mset as then val h else (val h)(a := None))" by auto
  from Cons.IH [OF h'(2)] obtain h'' where "releases h' as = KRet h''" "refs h'' M" "\<forall>b. b \<in># M \<longrightarrow> val h'' b = val h' b"
    by blast
  then show ?case using h' by auto
qed

text \<open>The last releases free the object.\<close>

lemma releases_all_free:
  assumes "refs h (mset as)"
  shows "\<exists>h'. releases h as = KRet h' \<and> (\<forall>b. val h' b = None)"
proof -
  obtain h' where h': "releases h as = KRet h'" "refs h' {#}" using releases_ok [of h "{#}" as] assms by auto
  then show ?thesis using live [OF h'(2)] by auto
qed

end

end
