(* ===== verification/Cred.thy ===== *)
theory Cred
  imports Refcount
begin

text \<open>
  Credentials, \<^verbatim>\<open>uts/common/os/cred.c\<close> and \<^verbatim>\<open>uts/common/sys/cred.h\<close>.  Credentials are shared
  by reference, so they live in a store from addresses to structures; a reference to an address
  that holds none is \<open>KFault\<close>.  The address that \<^verbatim>\<open>kmem_cache_alloc\<close> returns is an argument.
\<close>

section \<open>Data\<close>

type_synonym gid_t = "32 word"
type_synonym cred_ptr = nat

record cred =
  cr_ref :: uint_t
  cr_uid :: "32 word"
  cr_gid :: gid_t
  cr_ruid :: "32 word"
  cr_rgid :: gid_t
  cr_suid :: "32 word"
  cr_sgid :: gid_t
  cr_ngroups :: uint_t
  cr_groups :: "gid_t list"

type_synonym cred_heap = "cred_ptr \<Rightarrow> cred option"

text \<open>
  What the routines use of a thread and of a process: \<open>p_lwps\<close> are the threads of the process,
  the current one first and the others in the order of \<^verbatim>\<open>t_forw\<close>; their number is
  \<^verbatim>\<open>p_lwpcnt\<close>.  \<open>u_acflag\<close> is the accounting flag of the user area.
\<close>

record cthread =
  t_cred :: cred_ptr
  t_pre_sys :: bool

record cproc =
  p_cred :: cred_ptr
  p_flag :: uint_t
  p_lwps :: "cthread list"
  u_acflag :: byte

definition NOCD :: uint_t where
  "NOCD = 0x10000000"

definition ASU :: byte where
  "ASU = 2"

definition cred_at :: "cred_heap \<Rightarrow> cred_ptr \<Rightarrow> cred kres" where
  "cred_at h a = (case h a of None \<Rightarrow> KFault | Some cr \<Rightarrow> KRet cr)"

section \<open>Operations\<close>

definition zero_cred :: "nat \<Rightarrow> cred" where
  "zero_cred n = \<lparr>cr_ref = 0, cr_uid = 0, cr_gid = 0, cr_ruid = 0, cr_rgid = 0, cr_suid = 0, cr_sgid = 0,
     cr_ngroups = 0, cr_groups = replicate n 0\<rparr>"

definition crget :: "nat \<Rightarrow> cred_heap \<Rightarrow> cred_ptr \<Rightarrow> cred_heap" where
  "crget ngroups_max h cr = h(cr \<mapsto> (zero_cred ngroups_max)\<lparr>cr_ref := 1\<rparr>)"

text \<open>
  The size of the structure, rounded up to an \<^verbatim>\<open>int\<close>; \<open>cred_t\<close> takes 36 bytes with one group.
  The thread of process 0 and the process itself share the credentials that \<open>kcred\<close> holds.
\<close>

definition cred_init :: "nat \<Rightarrow> cred_ptr \<Rightarrow> cproc \<Rightarrow> size_t \<times> cred_ptr \<times> cred_heap \<times> cproc" where
  "cred_init ngroups_max kcred p =
     (let crsize = 36 + 4 * (of_nat ngroups_max - 1) :: size_t;
          crsize = (crsize + 4 - 1) AND NOT (4 - 1)
      in (crsize, kcred, crget ngroups_max Map.empty kcred,
          p\<lparr>p_cred := kcred, 
            p_lwps := (case p_lwps p of [] \<Rightarrow> [] | t # ts \<Rightarrow> t\<lparr>t_cred := kcred\<rparr> # ts)\<rparr>))"

definition crhold :: "cred_heap \<Rightarrow> cred_ptr \<Rightarrow> cred_heap kres" where
  "crhold h a = kbind (cred_at h a) (\<lambda>cr. KRet (h(a \<mapsto> cr\<lparr>cr_ref := cr_ref cr + 1\<rparr>)))"

definition crfree :: "cred_heap \<Rightarrow> cred_ptr \<Rightarrow> cred_heap kres" where
  "crfree h a = kbind (cred_at h a) (\<lambda>cr.
     let r = cr_ref cr + (- 1) in
     KRet (if r = 0 then h(a := None) else h(a \<mapsto> cr\<lparr>cr_ref := r\<rparr>)))"

text \<open>
  The broadcast of \<open>crset\<close>.  The caller has set \<^verbatim>\<open>p->p_cred\<close> and holds \<open>cr\<close> twice.
\<close>

definition crset :: "cred_heap \<Rightarrow> cproc \<Rightarrow> cred_ptr \<Rightarrow> (cred_heap \<times> cproc) kres" where
  "crset h p cr =
     (case p_lwps p of
        [] \<Rightarrow> KFault
      | t # ts \<Rightarrow>
          kbind (crfree h (t_cred t)) (\<lambda>h.
            let t = t\<lparr>t_cred := cr\<rparr>;
                ts = (if length (p_lwps p) > 1 then map (\<lambda>t. t\<lparr>t_pre_sys := True\<rparr>) ts else ts)
            in KRet (h, p\<lparr>p_lwps := t # ts\<rparr>)))"

text \<open>The copy of a whole structure, reference count included, and the store of a count.\<close>

definition cr_bcopy :: "cred_heap \<Rightarrow> cred_ptr \<Rightarrow> cred_ptr \<Rightarrow> cred_heap kres" where
  "cr_bcopy h cr newcr = kbind (cred_at h cr) (\<lambda>c. kbind (cred_at h newcr) (\<lambda>_. KRet (h(newcr \<mapsto> c))))"

definition cr_setref :: "cred_heap \<Rightarrow> cred_ptr \<Rightarrow> uint_t \<Rightarrow> cred_heap kres" where
  "cr_setref h cr r = kbind (cred_at h cr) (\<lambda>c. KRet (h(cr \<mapsto> c\<lparr>cr_ref := r\<rparr>)))"

definition crcopy_to :: "cred_heap \<Rightarrow> cred_ptr \<Rightarrow> cred_ptr \<Rightarrow> cred_heap kres" where
  "crcopy_to h oldcr newcr =
     kbind (cr_bcopy h oldcr newcr) (\<lambda>h. kbind (crfree h oldcr) (\<lambda>h. cr_setref h newcr 2))"

definition crcopy :: "nat \<Rightarrow> cred_heap \<Rightarrow> cred_ptr \<Rightarrow> cred_ptr \<Rightarrow> cred_heap kres" where
  "crcopy ngroups_max h cr newcr =
     (let h = crget ngroups_max h newcr in
      kbind (cr_bcopy h cr newcr) (\<lambda>h. kbind (crfree h cr) (\<lambda>h. cr_setref h newcr 2)))"

definition crdup_to :: "cred_heap \<Rightarrow> cred_ptr \<Rightarrow> cred_ptr \<Rightarrow> cred_heap kres" where
  "crdup_to h oldcr newcr = kbind (cr_bcopy h oldcr newcr) (\<lambda>h. cr_setref h newcr 1)"

definition crdup :: "nat \<Rightarrow> cred_heap \<Rightarrow> cred_ptr \<Rightarrow> cred_ptr \<Rightarrow> cred_heap kres" where
  "crdup ngroups_max h cr newcr =
     (let h = crget ngroups_max h newcr in
      kbind (cr_bcopy h cr newcr) (\<lambda>h. cr_setref h newcr 1))"

definition crgetcred :: "cred_heap \<Rightarrow> cproc \<Rightarrow> (cred_ptr \<times> cred_heap) kres" where
  "crgetcred h p = kbind (crhold h (p_cred p)) (\<lambda>h. KRet (p_cred p, h))"

definition suser :: "cred \<Rightarrow> cproc \<Rightarrow> bool \<times> cproc" where
  "suser cr p = (if cr_uid cr = 0 then (True, p\<lparr>u_acflag := u_acflag p OR ASU\<rparr>) else (False, p))"

text \<open>The loop of \<open>groupmember\<close> over the entries of \<^verbatim>\<open>cr_groups\<close> that are in use.\<close>

fun group_scan :: "gid_t list \<Rightarrow> gid_t \<Rightarrow> bool" where
  "group_scan [] gid = False"
| "group_scan (g # gs) gid = (if g = gid then True else group_scan gs gid)"

definition groupmember :: "gid_t \<Rightarrow> cred \<Rightarrow> bool" where
  "groupmember gid cr =
     (if gid = cr_gid cr then True else group_scan (take (unat (cr_ngroups cr)) (cr_groups cr)) gid)"

definition hasprocperm :: "cred \<Rightarrow> cred \<Rightarrow> bool" where
  "hasprocperm tcrp scrp \<longleftrightarrow>
     cr_uid scrp = 0 \<or> cr_uid scrp = cr_ruid tcrp \<or> cr_ruid scrp = cr_ruid tcrp \<or>
     cr_uid scrp = cr_suid tcrp \<or> cr_ruid scrp = cr_suid tcrp"

text \<open>\<open>True\<close> is the result 0 of \<open>crcmp\<close>: the same user.\<close>

definition crcmp :: "cred_heap \<Rightarrow> cred_ptr \<Rightarrow> cred_ptr \<Rightarrow> bool kres" where
  "crcmp h cr1 cr2 =
     (if cr1 = cr2 then KRet True
      else kbind (cred_at h cr1) (\<lambda>c1. kbind (cred_at h cr2) (\<lambda>c2.
        if cr_uid c1 = cr_uid c2 \<and> cr_gid c1 = cr_gid c2 \<and> cr_ruid c1 = cr_ruid c2 \<and>
           cr_rgid c1 = cr_rgid c2 \<and> cr_ngroups c1 = cr_ngroups c2
        then KRet (take (unat (cr_ngroups c1)) (cr_groups c1) = take (unat (cr_ngroups c1)) (cr_groups c2))
        else KRet False)))"

section \<open>Reference counts\<close>

text \<open>
  The store agrees with a multiset of holders when every structure in it has as many references
  as its address has occurrences, and no other address occurs.
\<close>

definition cred_refs :: "cred_heap \<Rightarrow> cred_ptr multiset \<Rightarrow> bool" where
  "cred_refs h M \<longleftrightarrow> (\<forall>a. case h a of None \<Rightarrow> a \<notin># M
     | Some cr \<Rightarrow> a \<in># M \<and> unat (cr_ref cr) = count M a)"

definition cred_val :: "cred_heap \<Rightarrow> cred_ptr \<Rightarrow> cred option" where
  "cred_val h a = map_option (\<lambda>cr. cr\<lparr>cr_ref := 0\<rparr>) (h a)"

lemma cred_refs_live: "cred_refs h M \<Longrightarrow> cred_val h a \<noteq> None \<longleftrightarrow> a \<in># M"
  by (auto simp: cred_refs_def cred_val_def split: option.splits dest: spec [of _ a])

lemma cred_refs_at:
  assumes "cred_refs h M" "a \<in># M"
  obtains cr where "h a = Some cr" "unat (cr_ref cr) = count M a" "0 < unat (cr_ref cr)"
  using assms by (auto simp: cred_refs_def dest: spec [of _ a] split: option.splits)

lemma cred_refs_upd:
  assumes "cred_refs h M" "\<forall>b. b \<noteq> a \<longrightarrow> count N b = count M b" "unat (cr_ref cr) = count N a" "a \<in># N"
  shows "cred_refs (h(a \<mapsto> cr)) N"
proof -
  have "b \<in># N \<longleftrightarrow> b \<in># M" if "b \<noteq> a" for b
    using assms(2) that by (metis count_greater_zero_iff)
  then show ?thesis using assms by (simp add: cred_refs_def split: option.splits) (metis option.distinct(1))
qed

lemma cred_refs_del:
  assumes "cred_refs h M" "\<forall>b. b \<noteq> a \<longrightarrow> count N b = count M b" "a \<notin># N"
  shows "cred_refs (h(a := None)) N"
proof -
  have "b \<in># N \<longleftrightarrow> b \<in># M" if "b \<noteq> a" for b
    using assms(2) that by (metis count_greater_zero_iff)
  then show ?thesis using assms by (simp add: cred_refs_def split: option.splits) (metis option.distinct(1))
qed

lemma crhold_ok:
  assumes "cred_refs h M" "a \<in># M" "count M a + 1 < 2 ^ 32"
  shows "\<exists>h'. crhold h a = KRet h' \<and> cred_refs h' (M + {#a#}) \<and> cred_val h' = cred_val h"
proof -
  obtain cr where cr: "h a = Some cr" "unat (cr_ref cr) = count M a" using assms by (blast elim: cred_refs_at)
  have "unat (cr_ref cr + 1) = count M a + 1" using cr(2) assms(3) unat_add_no_wrap [of "cr_ref cr" 1] by simp
  then have "cred_refs (h(a \<mapsto> cr\<lparr>cr_ref := cr_ref cr + 1\<rparr>)) (M + {#a#})" by (intro cred_refs_upd [OF assms(1)]) auto
  moreover have "cred_val (h(a \<mapsto> cr\<lparr>cr_ref := cr_ref cr + 1\<rparr>)) = cred_val h" using cr(1) by (auto simp: cred_val_def)
  ultimately show ?thesis using cr(1) by (simp add: crhold_def cred_at_def)
qed

lemma crfree_ok:
  assumes "cred_refs h M" "a \<in># M"
  shows "\<exists>h'. crfree h a = KRet h' \<and> cred_refs h' (M - {#a#}) \<and>
    cred_val h' = (if a \<in># M - {#a#} then cred_val h else (cred_val h)(a := None))"
proof -
  obtain cr where cr: "h a = Some cr" "unat (cr_ref cr) = count M a" "0 < unat (cr_ref cr)"
    using assms by (blast elim: cred_refs_at)
  have u: "unat (cr_ref cr - 1) = count (M - {#a#}) a" using cr(2,3) unat_sub_le [of 1 "cr_ref cr"] by (simp add: word_le_nat_alt)
  then have z: "cr_ref cr - 1 = 0 \<longleftrightarrow> a \<notin># M - {#a#}" by (metis not_in_iff unat_0 word_unat_eq_iff)
  show ?thesis
  proof (cases "cr_ref cr - 1 = 0")
    case True
    then have "crfree h a = KRet (h(a := None))" using cr(1) by (simp add: crfree_def cred_at_def)
    moreover have "cred_refs (h(a := None)) (M - {#a#})" using True z by (intro cred_refs_del [OF assms(1)]) auto
    ultimately show ?thesis using z True by (auto simp: cred_val_def)
  next
    case False
    let ?h = "h(a \<mapsto> cr\<lparr>cr_ref := cr_ref cr - 1\<rparr>)"
    have "crfree h a = KRet ?h" using cr(1) False by (simp add: crfree_def cred_at_def)
    moreover have "cred_refs ?h (M - {#a#})" using u z False by (intro cred_refs_upd [OF assms(1)]) auto
    moreover have "cred_val ?h = cred_val h" using cr(1) by (auto simp: cred_val_def)
    ultimately show ?thesis using z False by auto
  qed
qed

interpretation cr: refcounted cred_refs cred_val crhold crfree
  by unfold_locales (rule cred_refs_live crhold_ok crfree_ok; assumption)+

section \<open>Copies\<close>

lemma cred_val_upd: "cred_val (h(a \<mapsto> cr)) = (cred_val h)(a \<mapsto> cr\<lparr>cr_ref := 0\<rparr>)"
  by (auto simp: cred_val_def)

lemma cred_at_refs:
  assumes "cred_refs h M" "a \<in># M"
  obtains cr where "cred_at h a = KRet cr" "h a = Some cr" "cred_val h a = Some (cr\<lparr>cr_ref := 0\<rparr>)"
proof -
  obtain cr where "h a = Some cr" by (rule cred_refs_at [OF assms])
  then show thesis using that by (simp add: cred_at_def cred_val_def)
qed

lemma crget_ok:
  assumes "cred_refs h M" "h a = None"
  shows "cred_refs (crget n h a) (M + {#a#})" "cred_val (crget n h a) = (cred_val h)(a \<mapsto> zero_cred n)"
proof -
  have "a \<notin># M" using assms by (auto simp: cred_refs_def dest: spec [of _ a])
  then have "count M a = 0" by (simp add: not_in_iff)
  then show "cred_refs (crget n h a) (M + {#a#})"
    unfolding crget_def by (intro cred_refs_upd [OF assms(1)]) auto
  show "cred_val (crget n h a) = (cred_val h)(a \<mapsto> zero_cred n)" by (simp add: crget_def cred_val_upd zero_cred_def)
qed

lemma crfree_frame:
  assumes "crfree h a = KRet h'" "b \<noteq> a"
  shows "crfree (h(b \<mapsto> c)) a = KRet (h'(b \<mapsto> c))" "h' b = h b"
  using assms by (auto simp: crfree_def cred_at_def Let_def fun_upd_twist split: option.splits if_splits)

text \<open>The new structure, held once before, is held twice; the old one loses a holder.\<close>

lemma crcopy_to_ok:
  assumes refs: "cred_refs h M" "old \<in># M" "count M new = 1" and ne: "old \<noteq> new"
  shows "\<exists>h'. crcopy_to h old new = KRet h' \<and> cred_refs h' (M - {#old#} + {#new#}) \<and>
    cred_val h' = (if old \<in># M - {#old#} then cred_val h else (cred_val h)(old := None))(new := cred_val h old)"
proof -
  have new: "new \<in># M" using refs(3) by (metis count_greater_zero_iff zero_less_one)
  obtain c where c: "cred_at h old = KRet c" "h old = Some c" "cred_val h old = Some (c\<lparr>cr_ref := 0\<rparr>)"
    using refs(1,2) by (rule cred_at_refs)
  obtain d where d: "cred_at h new = KRet d" using refs(1) new by (rule cred_at_refs)
  obtain h1 where h1: "crfree h old = KRet h1" "cred_refs h1 (M - {#old#})"
    "cred_val h1 = (if old \<in># M - {#old#} then cred_val h else (cred_val h)(old := None))"
    using crfree_ok [OF refs(1,2)] by blast
  have "crfree (h(new \<mapsto> c)) old = KRet (h1(new \<mapsto> c))" using crfree_frame(1) [OF h1(1)] ne by simp
  then have eq: "crcopy_to h old new = KRet (h1(new \<mapsto> c\<lparr>cr_ref := 2\<rparr>))"
    using c(1) d by (simp add: crcopy_to_def cr_bcopy_def cr_setref_def cred_at_def)
  have "cred_refs (h1(new \<mapsto> c\<lparr>cr_ref := 2\<rparr>)) (M - {#old#} + {#new#})"
    using refs(3) ne by (intro cred_refs_upd [OF h1(2)]) auto
  then show ?thesis using eq h1(3) c(3) by (simp add: cred_val_upd)
qed

lemma crdup_to_ok:
  assumes refs: "cred_refs h M" "old \<in># M" "count M new = 1"
  shows "\<exists>h'. crdup_to h old new = KRet h' \<and> cred_refs h' M \<and> cred_val h' = (cred_val h)(new := cred_val h old)"
proof -
  have new: "new \<in># M" using refs(3) by (metis count_greater_zero_iff zero_less_one)
  obtain c where c: "cred_at h old = KRet c" "h old = Some c" "cred_val h old = Some (c\<lparr>cr_ref := 0\<rparr>)"
    using refs(1,2) by (rule cred_at_refs)
  obtain d where d: "cred_at h new = KRet d" using refs(1) new by (rule cred_at_refs)
  have eq: "crdup_to h old new = KRet (h(new \<mapsto> c\<lparr>cr_ref := 1\<rparr>))"
    using c(1) d by (simp add: crdup_to_def cr_bcopy_def cr_setref_def cred_at_def)
  have "cred_refs (h(new \<mapsto> c\<lparr>cr_ref := 1\<rparr>)) M"
    using refs(3) new by (intro cred_refs_upd [OF refs(1)]) auto
  then show ?thesis using eq c(3) by (simp add: cred_val_upd)
qed

lemma crcopy_alt: "crcopy n h cr newcr = crcopy_to (crget n h newcr) cr newcr"
  by (simp add: crcopy_def crcopy_to_def)

lemma crdup_alt: "crdup n h cr newcr = crdup_to (crget n h newcr) cr newcr"
  by (simp add: crdup_def crdup_to_def)

lemma group_scan_mem: "group_scan gs gid \<longleftrightarrow> gid \<in> set gs"
  by (induction gs) auto

lemma groupmember_iff:
  "groupmember gid cr \<longleftrightarrow> gid \<in> insert (cr_gid cr) (set (take (unat (cr_ngroups cr)) (cr_groups cr)))"
  by (auto simp: groupmember_def group_scan_mem)

text \<open>The holds of a process: one for itself and one for each of its threads.\<close>

definition proc_holds :: "cproc \<Rightarrow> cred_ptr multiset" where
  "proc_holds p = {#p_cred p#} + mset (map t_cred (p_lwps p))"

lemma crset_ok:
  assumes "cred_refs h M" "p_lwps p = t # ts" "t_cred t \<in># M"
  shows "\<exists>h'. crset h p cr = KRet (h', p\<lparr>p_lwps := t\<lparr>t_cred := cr\<rparr> # map (\<lambda>t. t\<lparr>t_pre_sys := True\<rparr>) ts\<rparr>) \<and>
    crfree h (t_cred t) = KRet h' \<and> cred_refs h' (M - {#t_cred t#})"
proof -
  obtain h' where "crfree h (t_cred t) = KRet h'" "cred_refs h' (M - {#t_cred t#})"
    using crfree_ok [OF assms(1,3)] by blast
  then show ?thesis using assms(2) by (cases ts) (simp_all add: crset_def)
qed

section \<open>Properties\<close>

text \<open>
  C32.  \<open>crcopy\<close> on credentials that are held: the new structure is a copy with two references,
  one for the process and one for the thread, the old one loses one reference and is freed with
  its last, and every other structure stays as it was.
\<close>
theorem crcopy_two_references:
  assumes "cred_refs h M" "cr \<in># M" "h newcr = None"
  shows "\<exists>h'. crcopy n h cr newcr = KRet h' \<and>
    cred_refs h' (M - {#cr#} + {#newcr, newcr#}) \<and>
    cred_val h' newcr = cred_val h cr \<and>
    (cred_val h' cr = None \<longleftrightarrow> count M cr = 1) \<and>
    (\<forall>a. a \<noteq> newcr \<longrightarrow> a \<noteq> cr \<longrightarrow> cred_val h' a = cred_val h a)"
proof -
  have nn: "newcr \<notin># M" using assms by (auto simp: cred_refs_def dest: spec [of _ newcr])
  then have ne: "cr \<noteq> newcr" using assms(2) by auto
  let ?M = "M + {#newcr#}" and ?h = "crget n h newcr"
  have g: "cred_refs ?h ?M" "cred_val ?h = (cred_val h)(newcr \<mapsto> zero_cred n)" by (rule crget_ok [OF assms(1,3)])+
  have c: "cr \<in># ?M" "count ?M newcr = 1" using assms(2) nn by (simp_all add: not_in_iff)
  obtain h' where h': "crcopy_to ?h cr newcr = KRet h'" "cred_refs h' (?M - {#cr#} + {#newcr#})"
    "cred_val h' = (if cr \<in># ?M - {#cr#} then cred_val ?h else (cred_val ?h)(cr := None))(newcr := cred_val ?h cr)"
    using crcopy_to_ok [OF g(1) c ne] by blast
  have m: "?M - {#cr#} + {#newcr#} = M - {#cr#} + {#newcr, newcr#}" using assms(2) by (simp add: multiset_eq_iff ne)
  have "count (?M - {#cr#}) cr = count M cr - 1" "count M cr \<noteq> 0" using assms(2) ne by simp_all
  then have i: "cr \<in># ?M - {#cr#} \<longleftrightarrow> count M cr \<noteq> 1" using count_eq_zero_iff [of "?M - {#cr#}" cr] by arith
  have "cred_val h cr \<noteq> None" using cred_refs_live [OF assms(1)] assms(2) by simp
  then have "cred_val h' cr = None \<longleftrightarrow> count M cr = 1" using h'(3) i g(2) ne by auto
  moreover have "cred_val h' newcr = cred_val h cr" using h'(3) g(2) ne by simp
  moreover have "cred_val h' a = cred_val h a" if "a \<noteq> newcr" "a \<noteq> cr" for a using h'(3) g(2) that by auto
  ultimately show ?thesis using h'(1,2) unfolding crcopy_alt m by (intro exI [of _ h']) simp
qed

theorem crcopy_two_references_witness:
  "let c = (zero_cred 2)\<lparr>cr_ref := 1\<rparr>; h = Map.empty(4 \<mapsto> c); M = {#4#} in
   \<exists>h'. crcopy 2 h 4 9 = KRet h' \<and>
    cred_refs h' (M - {#4#} + {#9, 9#}) \<and>
    cred_val h' 9 = cred_val h 4 \<and>
    (cred_val h' 4 = None \<longleftrightarrow> count M 4 = 1) \<and>
    (\<forall>a. a \<noteq> 9 \<longrightarrow> a \<noteq> 4 \<longrightarrow> cred_val h' a = cred_val h a)"
  unfolding Let_def by (rule crcopy_two_references) (auto simp: cred_refs_def)

end
