(* ===== verification/Upcount.thy ===== *)
theory Upcount
  imports Bitmap "HOL-Library.Multiset"
begin

text \<open>
  The number of processes of each user, the second half of \<^verbatim>\<open>uts/common/os/pid.c\<close>: a hash
  table of \<^verbatim>\<open>struct upcount\<close> chains, with a chain as a list.  The table is shown to implement
  a counter per user, the interface that the system calls which change the real user id rely on.
\<close>

section \<open>The table\<close>

type_synonym uid_t = "32 word"

record upcount =
  up_uid :: uid_t
  up_count :: uint_t

record upc_table =
  upc_hash :: "upcount list list"
  upc_hashmask :: ulong_t

definition UPC_HASH :: "upc_table \<Rightarrow> uid_t \<Rightarrow> nat" where
  "UPC_HASH t x = unat ((scast x :: ulong_t) AND upc_hashmask t)"

text \<open>\<open>space\<close> tells whether the allocation of the array succeeds.\<close>

definition upcount_init :: "ulong_t \<Rightarrow> bool \<Rightarrow> upc_table kres" where
  "upcount_init physmem space =
     (let upc_hashsize = scast (push_bit (highbit (drop_bit 8 physmem)) 1 :: int32_t) :: ulong_t in
      if \<not> space then KPanic ''could not alocate space fpr upc hash\<newline>''
      else KRet \<lparr>upc_hash = replicate (unat upc_hashsize) [], upc_hashmask = upc_hashsize - 1\<rparr>)"

definition upc_chain :: "upc_table \<Rightarrow> uid_t \<Rightarrow> upcount list kres" where
  "upc_chain t uid =
     (if length (upc_hash t) \<le> UPC_HASH t uid then KFault else KRet (upc_hash t ! UPC_HASH t uid))"

definition upc_store :: "upc_table \<Rightarrow> uid_t \<Rightarrow> upcount list \<Rightarrow> upc_table" where
  "upc_store t uid c = t\<lparr>upc_hash := (upc_hash t)[UPC_HASH t uid := c]\<rparr>"

text \<open>The loop of \<open>upcount_inc\<close>: \<open>None\<close> when the chain has no entry of the user.\<close>

fun upc_bump :: "upcount list \<Rightarrow> uid_t \<Rightarrow> upcount list option" where
  "upc_bump [] uid = None"
| "upc_bump (e # c) uid =
     (if up_uid e = uid then Some (e\<lparr>up_count := up_count e + 1\<rparr> # c)
      else map_option (Cons e) (upc_bump c uid))"

text \<open>
  \<open>interv\<close> is \<open>None\<close> when the allocation that may not sleep succeeds; otherwise it is what other
  threads do to the table while \<^verbatim>\<open>pidlock\<close> is dropped for the allocation that may.
\<close>

definition upcount_inc :: "(upc_table \<Rightarrow> upc_table) option \<Rightarrow> upc_table \<Rightarrow> uid_t \<Rightarrow> upc_table kres" where
  "upcount_inc interv t uid =
     (let front = (\<lambda>t c. KRet (upc_store t uid (\<lparr>up_uid = uid, up_count = 1\<rparr> # c))) in
      kbind (upc_chain t uid) (\<lambda>c.
        case upc_bump c uid of
          Some c' \<Rightarrow> KRet (upc_store t uid c')
        | None \<Rightarrow>
            (case interv of
               None \<Rightarrow> front t c
             | Some f \<Rightarrow>
                 let t' = f t in
                 kbind (upc_chain t' uid) (\<lambda>c.
                   case upc_bump c uid of
                     Some c' \<Rightarrow> KRet (upc_store t' uid c')
                   | None \<Rightarrow> front t' c))))"

fun upc_drop :: "upcount list \<Rightarrow> uid_t \<Rightarrow> upcount list kres" where
  "upc_drop [] uid = KPanic ''decr_upcount-off the end''"
| "upc_drop (e # c) uid =
     (if up_uid e = uid then
        let e' = e\<lparr>up_count := up_count e - 1\<rparr> in
        KRet (if up_count e' = 0 then c else e' # c)
      else kbind (upc_drop c uid) (\<lambda>c'. KRet (e # c')))"

definition upcount_dec :: "upc_table \<Rightarrow> uid_t \<Rightarrow> upc_table kres" where
  "upcount_dec t uid =
     kbind (upc_chain t uid) (\<lambda>c. kbind (upc_drop c uid) (\<lambda>c'. KRet (upc_store t uid c')))"

fun upc_find :: "upcount list \<Rightarrow> uid_t \<Rightarrow> uint_t" where
  "upc_find [] uid = 0"
| "upc_find (e # c) uid = (if up_uid e = uid then up_count e else upc_find c uid)"

definition upcount_get :: "upc_table \<Rightarrow> uid_t \<Rightarrow> uint_t kres" where
  "upcount_get t uid = kbind (upc_chain t uid) (\<lambda>c. KRet (upc_find c uid))"

section \<open>Chains\<close>

definition chain_wf :: "upcount list \<Rightarrow> bool" where
  "chain_wf c \<longleftrightarrow> distinct (map up_uid c) \<and> (\<forall>e \<in> set c. up_count e \<noteq> 0)"

definition in_chain :: "upcount list \<Rightarrow> uid_t \<Rightarrow> bool" where
  "in_chain c uid \<longleftrightarrow> uid \<in> up_uid ` set c"

lemma upc_find_absent: "\<not> in_chain c uid \<Longrightarrow> upc_find c uid = 0"
  by (induction c) (auto simp: in_chain_def)

lemma upc_find_zero: "chain_wf c \<Longrightarrow> upc_find c uid = 0 \<longleftrightarrow> \<not> in_chain c uid"
  by (induction c) (auto simp: in_chain_def chain_wf_def)

lemma upc_bump_None: "upc_bump c uid = None \<longleftrightarrow> \<not> in_chain c uid"
  by (induction c) (auto simp: in_chain_def)

lemma upc_bump_Some:
  assumes "upc_bump c uid = Some c'"
  shows "map up_uid c' = map up_uid c"
    and "upc_find c' v = (if v = uid then upc_find c v + 1 else upc_find c v)"
    and "chain_wf c \<Longrightarrow> upc_find c uid + 1 \<noteq> 0 \<Longrightarrow> chain_wf c'"
  using assms by (induction c arbitrary: c') (auto simp: chain_wf_def split: if_splits)

lemma upc_drop_ok:
  assumes "chain_wf c" "in_chain c uid"
  shows "\<exists>c'. upc_drop c uid = KRet c' \<and> chain_wf c' \<and> up_uid ` set c' \<subseteq> up_uid ` set c \<and>
    (\<forall>v. upc_find c' v = (if v = uid then upc_find c v - 1 else upc_find c v))"
  using assms
proof (induction c)
  case Nil
  then show ?case by (simp add: in_chain_def)
next
  case (Cons e c)
  show ?case
  proof (cases "up_uid e = uid")
    case True
    then have "\<not> in_chain c uid" using Cons.prems(1) by (auto simp: chain_wf_def in_chain_def)
    then show ?thesis using True Cons.prems(1)
      by (auto simp: chain_wf_def Let_def upc_find_absent)
  next
    case False
    then have "chain_wf c" "in_chain c uid" using Cons.prems by (auto simp: chain_wf_def in_chain_def)
    from Cons.IH [OF this] obtain c' where
      c': "upc_drop c uid = KRet c'" "chain_wf c'" "up_uid ` set c' \<subseteq> up_uid ` set c"
        "\<forall>v. upc_find c' v = (if v = uid then upc_find c v - 1 else upc_find c v)" by blast
    have "chain_wf (e # c')" using c'(2,3) Cons.prems(1) by (auto simp: chain_wf_def)
    then show ?thesis using c' False by (intro exI [of _ "e # c'"]) auto
  qed
qed

lemma upc_drop_panic: "\<not> in_chain c uid \<Longrightarrow> upc_drop c uid = KPanic ''decr_upcount-off the end''"
  by (induction c) (auto simp: in_chain_def)

section \<open>The table as a counter per user\<close>

definition upc_wf :: "upc_table \<Rightarrow> bool" where
  "upc_wf t \<longleftrightarrow> (\<exists>k < 64. upc_hashmask t = mask k \<and> length (upc_hash t) = 2 ^ k) \<and>
     (\<forall>i < length (upc_hash t). chain_wf (upc_hash t ! i) \<and>
        (\<forall>e \<in> set (upc_hash t ! i). UPC_HASH t (up_uid e) = i))"

definition upc_count :: "upc_table \<Rightarrow> uid_t \<Rightarrow> nat" where
  "upc_count t uid = unat (upc_find (upc_hash t ! UPC_HASH t uid) uid)"

lemma UPC_HASH_bound:
  assumes "upc_wf t"
  shows "UPC_HASH t uid < length (upc_hash t)"
proof -
  obtain k where k: "k < 64" "upc_hashmask t = mask k" "length (upc_hash t) = 2 ^ k"
    using assms by (auto simp: upc_wf_def)
  have "UPC_HASH t uid = unat (take_bit k (scast uid :: ulong_t))"
    unfolding UPC_HASH_def k(2) by (simp only: take_bit_eq_mask)
  also have "\<dots> < 2 ^ k" by (simp only: unsigned_take_bit_eq) (simp add: take_bit_eq_mod)
  finally show ?thesis using k(3) by simp
qed

lemma upc_chain_wf: "upc_wf t \<Longrightarrow> upc_chain t uid = KRet (upc_hash t ! UPC_HASH t uid)"
  using UPC_HASH_bound [of t uid] by (simp add: upc_chain_def)

lemma UPC_HASH_store [simp]: "UPC_HASH (upc_store t uid c) v = UPC_HASH t v"
  by (simp add: UPC_HASH_def upc_store_def)

lemma upc_store_wf:
  assumes "upc_wf t" "chain_wf c" "\<forall>e \<in> set c. UPC_HASH t (up_uid e) = UPC_HASH t uid"
  shows "upc_wf (upc_store t uid c)"
proof -
  have "upc_hash (upc_store t uid c) = (upc_hash t)[UPC_HASH t uid := c]"
    "upc_hashmask (upc_store t uid c) = upc_hashmask t" by (simp_all add: upc_store_def)
  moreover have "(upc_hash t)[UPC_HASH t uid := c] ! i = (if i = UPC_HASH t uid then c else upc_hash t ! i)" for i
    using UPC_HASH_bound [OF assms(1), of uid] by simp
  ultimately show ?thesis using assms by (simp add: upc_wf_def)
qed

lemma upc_count_store:
  assumes "upc_wf t" "\<And>v. v \<noteq> uid \<Longrightarrow> UPC_HASH t v = UPC_HASH t uid \<Longrightarrow>
     upc_find c v = upc_find (upc_hash t ! UPC_HASH t uid) v"
  shows "upc_count (upc_store t uid c) = (upc_count t)(uid := unat (upc_find c uid))"
proof
  fix v
  show "upc_count (upc_store t uid c) v = ((upc_count t)(uid := unat (upc_find c uid))) v"
    using UPC_HASH_bound [OF assms(1), of uid] assms(2) [of v]
    by (auto simp: upc_count_def nth_list_update) (auto simp: upc_store_def nth_list_update)
qed

lemma upcount_get_count: "upc_wf t \<Longrightarrow> \<exists>n. upcount_get t uid = KRet n \<and> unat n = upc_count t uid"
  by (simp add: upcount_get_def upc_chain_wf upc_count_def)

text \<open>One pass of \<open>upcount_inc\<close>, with the new entry at hand.\<close>

lemma upc_pass_bump:
  assumes wf: "upc_wf t" and b: "upc_bump (upc_hash t ! UPC_HASH t uid) uid = Some c"
    and small: "upc_count t uid + 1 < 2 ^ 32"
  shows "upc_wf (upc_store t uid c)" "upc_count (upc_store t uid c) = (upc_count t)(uid := upc_count t uid + 1)"
proof -
  let ?c = "upc_hash t ! UPC_HASH t uid"
  have cw: "chain_wf ?c" "\<forall>e \<in> set ?c. UPC_HASH t (up_uid e) = UPC_HASH t uid"
    using wf UPC_HASH_bound [OF wf, of uid] by (auto simp: upc_wf_def)
  have u: "unat (upc_find ?c uid + 1) = upc_count t uid + 1"
    using small unat_add_no_wrap [of "upc_find ?c uid" 1] by (simp add: upc_count_def)
  then have "upc_find ?c uid + 1 \<noteq> 0" by (metis Suc_eq_plus1 nat.distinct(1) unat_0)
  then have "chain_wf c" using upc_bump_Some(3) [OF b] cw(1) by simp
  moreover have "\<forall>e \<in> set c. UPC_HASH t (up_uid e) = UPC_HASH t uid"
  proof
    fix e assume "e \<in> set c"
    then have "up_uid e \<in> set (map up_uid ?c)" using upc_bump_Some(1) [OF b, symmetric] by simp
    then show "UPC_HASH t (up_uid e) = UPC_HASH t uid" using cw(2) by auto
  qed
  ultimately show "upc_wf (upc_store t uid c)" by (rule upc_store_wf [OF wf])
  have "upc_count (upc_store t uid c) = (upc_count t)(uid := unat (upc_find c uid))"
    by (rule upc_count_store [OF wf]) (simp add: upc_bump_Some(2) [OF b])
  then show "upc_count (upc_store t uid c) = (upc_count t)(uid := upc_count t uid + 1)"
    using u by (simp add: upc_bump_Some(2) [OF b])
qed

lemma upc_pass_front:
  assumes wf: "upc_wf t" and b: "upc_bump (upc_hash t ! UPC_HASH t uid) uid = None"
  defines "t' \<equiv> upc_store t uid (\<lparr>up_uid = uid, up_count = 1\<rparr> # upc_hash t ! UPC_HASH t uid)"
  shows "upc_wf t'" "upc_count t' = (upc_count t)(uid := upc_count t uid + 1)"
proof -
  let ?c = "upc_hash t ! UPC_HASH t uid"
  have cw: "chain_wf ?c" "\<forall>e \<in> set ?c. UPC_HASH t (up_uid e) = UPC_HASH t uid"
    using wf UPC_HASH_bound [OF wf, of uid] by (auto simp: upc_wf_def)
  have ni: "\<not> in_chain ?c uid" using b by (simp add: upc_bump_None)
  then have "chain_wf (\<lparr>up_uid = uid, up_count = 1\<rparr> # ?c)" using cw(1) by (auto simp: chain_wf_def in_chain_def)
  then show "upc_wf t'" unfolding t'_def using cw(2) by (intro upc_store_wf [OF wf]) auto
  have "upc_count t uid = 0" using upc_find_absent [OF ni] by (simp add: upc_count_def)
  then show "upc_count t' = (upc_count t)(uid := upc_count t uid + 1)"
    unfolding t'_def by (subst upc_count_store [OF wf]) auto
qed

lemmas upc_pass = upc_pass_bump upc_pass_front

lemma upcount_inc_none:
  assumes "upc_wf t" "upc_count t uid + 1 < 2 ^ 32"
  shows "\<exists>t'. upcount_inc None t uid = KRet t' \<and> upc_wf t' \<and> upc_count t' = (upc_count t)(uid := upc_count t uid + 1)"
  using upc_pass [OF assms(1), of uid] assms(2)
  by (cases "upc_bump (upc_hash t ! UPC_HASH t uid) uid")
     (simp_all add: upcount_inc_def upc_chain_wf [OF assms(1)] Let_def)

text \<open>
  With the lock dropped, the increment takes effect on the table the other threads leave, or on
  the original one when the user has an entry there and nothing is allocated.
\<close>

lemma upcount_inc_some:
  assumes "upc_wf t" "upc_wf (f t)" "upc_count t uid + 1 < 2 ^ 32" "upc_count (f t) uid + 1 < 2 ^ 32"
  shows "\<exists>t'. upcount_inc (Some f) t uid = KRet t' \<and> upc_wf t' \<and>
    (if upc_count t uid \<noteq> 0 then upc_count t' = (upc_count t)(uid := upc_count t uid + 1)
     else upc_count t' = (upc_count (f t))(uid := upc_count (f t) uid + 1))"
proof (cases "upc_bump (upc_hash t ! UPC_HASH t uid) uid")
  case (Some c)
  have "chain_wf (upc_hash t ! UPC_HASH t uid)"
    using assms(1) UPC_HASH_bound [OF assms(1), of uid] by (simp add: upc_wf_def)
  moreover have "in_chain (upc_hash t ! UPC_HASH t uid) uid" using Some upc_bump_None by (metis option.distinct(1))
  ultimately have "upc_count t uid \<noteq> 0" by (simp add: upc_count_def upc_find_zero unat_eq_zero)
  then show ?thesis using upc_pass_bump [OF assms(1) Some assms(3)] Some
    by (simp add: upcount_inc_def upc_chain_wf [OF assms(1)])
next
  case None
  then have "upc_count t uid = 0" by (simp add: upc_count_def upc_bump_None upc_find_absent)
  then show ?thesis using None upc_pass [OF assms(2), of uid] assms(4)
    by (cases "upc_bump (upc_hash (f t) ! UPC_HASH (f t) uid) uid")
       (simp_all add: upcount_inc_def upc_chain_wf [OF assms(1)] upc_chain_wf [OF assms(2)] Let_def)
qed

lemma upcount_dec_ok:
  assumes wf: "upc_wf t" and pos: "0 < upc_count t uid"
  shows "\<exists>t'. upcount_dec t uid = KRet t' \<and> upc_wf t' \<and> upc_count t' = (upc_count t)(uid := upc_count t uid - 1)"
proof -
  let ?c = "upc_hash t ! UPC_HASH t uid"
  have cw: "chain_wf ?c" "\<forall>e \<in> set ?c. UPC_HASH t (up_uid e) = UPC_HASH t uid"
    using wf UPC_HASH_bound [OF wf, of uid] by (auto simp: upc_wf_def)
  have nz: "upc_find ?c uid \<noteq> 0" using pos by (auto simp: upc_count_def)
  then have "in_chain ?c uid" using upc_find_absent by blast
  from upc_drop_ok [OF cw(1) this] obtain c' where
    c': "upc_drop ?c uid = KRet c'" "chain_wf c'" "up_uid ` set c' \<subseteq> up_uid ` set ?c"
      "\<forall>v. upc_find c' v = (if v = uid then upc_find ?c v - 1 else upc_find ?c v)" by blast
  have "\<forall>e \<in> set c'. UPC_HASH t (up_uid e) = UPC_HASH t uid"
  proof
    fix e assume "e \<in> set c'"
    then have "up_uid e \<in> up_uid ` set ?c" using c'(3) by blast
    then show "UPC_HASH t (up_uid e) = UPC_HASH t uid" using cw(2) by auto
  qed
  then have "upc_wf (upc_store t uid c')" using upc_store_wf [OF wf c'(2)] by simp
  moreover have "upc_count (upc_store t uid c') = (upc_count t)(uid := unat (upc_find c' uid))"
    by (rule upc_count_store [OF wf]) (simp add: c'(4))
  moreover have "unat (upc_find c' uid) = upc_count t uid - 1"
    using pos c'(4) unat_sub_le [of 1 "upc_find ?c uid"] by (simp add: upc_count_def word_le_nat_alt)
  ultimately show ?thesis using c'(1) by (simp add: upcount_dec_def upc_chain_wf [OF wf])
qed

lemma upcount_dec_panic:
  assumes wf: "upc_wf t" and "upc_count t uid = 0"
  shows "upcount_dec t uid = KPanic ''decr_upcount-off the end''"
proof -
  have "chain_wf (upc_hash t ! UPC_HASH t uid)" using wf UPC_HASH_bound [OF wf, of uid] by (simp add: upc_wf_def)
  then have "\<not> in_chain (upc_hash t ! UPC_HASH t uid) uid"
    using assms(2) upc_find_zero by (simp add: upc_count_def unat_eq_zero)
  then show ?thesis by (simp add: upcount_dec_def upc_chain_wf [OF wf] upc_drop_panic)
qed

lemma upcount_init_wf:
  assumes "unat physmem < 2 ^ 38"
  shows "\<exists>t. upcount_init physmem True = KRet t \<and> upc_wf t \<and> (\<forall>uid. upc_count t uid = 0)"
proof -
  define w where "w = drop_bit 8 physmem"
  define k where "k = highbit w"
  have k: "k \<le> 30"
  proof (cases "w = 0")
    case True
    then show ?thesis by (simp add: k_def highbit_def)
  next
    case False
    then obtain n where n: "top_bit w n" using top_bit_exists by blast
    have "unat w = unat physmem div 256"
      unfolding w_def unat_drop_bit_eq by (simp add: drop_bit_eq_div)
    then have "unat w < 2 ^ 30" using assms by simp
    moreover have "bit (unat w) n" using n by (simp add: top_bit_def bit_unsigned_iff)
    ultimately have "n < 30"
      by (metis (no_types, lifting) bit_take_bit_iff take_bit_nat_eq_self)
    then show ?thesis using highbit_top_bit [OF n] by (simp add: k_def)
  qed
  define sz where "sz = (scast (push_bit k 1 :: int32_t) :: ulong_t)"
  have sz: "sz = push_bit k 1"
    unfolding sz_def using k by (intro bit_word_eqI) (auto simp: bit_simps)
  then have "sz = of_nat (2 ^ k)" by (simp add: push_bit_eq_mult)
  moreover have "(2::nat) ^ k < 2 ^ 64" using k by (intro power_strict_increasing) simp_all
  ultimately have u: "unat sz = 2 ^ k" by (simp only: unat_of_nat) simp
  have m: "sz - 1 = mask k" using sz by (simp add: push_bit_eq_mult mask_eq_exp_minus_1)
  define t where "t = \<lparr>upc_hash = replicate (unat sz) ([] :: upcount list), upc_hashmask = sz - 1\<rparr>"
  have "upcount_init physmem True = KRet t" by (simp add: upcount_init_def t_def sz_def k_def w_def Let_def)
  moreover have wf: "upc_wf t" using k u m by (auto simp: upc_wf_def t_def chain_wf_def intro!: exI [of _ k])
  moreover have "upc_count t uid = 0" for uid
    using UPC_HASH_bound [OF wf, of uid] by (simp add: upc_count_def) (simp add: t_def)
  ultimately show ?thesis by blast
qed

section \<open>The interface of the counters\<close>

locale user_counter =
  fixes inv :: "'t \<Rightarrow> bool" and cnt :: "'t \<Rightarrow> uid_t \<Rightarrow> nat"
    and inc :: "'t \<Rightarrow> uid_t \<Rightarrow> 't kres" and dec :: "'t \<Rightarrow> uid_t \<Rightarrow> 't kres"
  assumes inc_ok: "inv t \<Longrightarrow> cnt t u + 1 < 2 ^ 32 \<Longrightarrow>
      \<exists>t'. inc t u = KRet t' \<and> inv t' \<and> cnt t' = (cnt t)(u := cnt t u + 1)"
    and dec_ok: "inv t \<Longrightarrow> 0 < cnt t u \<Longrightarrow>
      \<exists>t'. dec t u = KRet t' \<and> inv t' \<and> cnt t' = (cnt t)(u := cnt t u - 1)"
begin

definition census :: "'t \<Rightarrow> uid_t multiset \<Rightarrow> bool" where
  "census t M \<longleftrightarrow> inv t \<and> cnt t = count M"

lemma census_add:
  assumes "census t M" "size M + 1 < 2 ^ 32"
  shows "\<exists>t'. inc t u = KRet t' \<and> census t' (M + {#u#})"
proof -
  have "count M u \<le> size M" by (rule count_le_size)
  then have "cnt t u + 1 < 2 ^ 32" "inv t" using assms by (simp_all add: census_def)
  from inc_ok [OF this(2,1)] obtain t' where t': "inc t u = KRet t'" "inv t'" "cnt t' = (cnt t)(u := cnt t u + 1)" by blast
  then have "census t' (M + {#u#})" using assms(1) by (auto simp: census_def)
  then show ?thesis using t'(1) by blast
qed

lemma census_remove:
  assumes "census t M" "u \<in># M"
  shows "\<exists>t'. dec t u = KRet t' \<and> census t' (M - {#u#})"
proof -
  have "inv t" "0 < cnt t u" using assms by (simp_all add: census_def)
  from dec_ok [OF this] obtain t' where t': "dec t u = KRet t'" "inv t'" "cnt t' = (cnt t)(u := cnt t u - 1)" by blast
  then have "census t' (M - {#u#})" using assms(1) by (auto simp: census_def)
  then show ?thesis using t'(1) by blast
qed

lemma census_move:
  assumes "census t M" "u \<in># M" "size M < 2 ^ 32"
  shows "\<exists>t'. kbind (dec t u) (\<lambda>t. inc t v) = KRet t' \<and> census t' (M - {#u#} + {#v#})"
proof -
  obtain t1 where t1: "dec t u = KRet t1" "census t1 (M - {#u#})" using census_remove [OF assms(1,2)] by blast
  have "size (M - {#u#}) + 1 < 2 ^ 32" using assms(2,3) by (simp add: size_Diff_singleton)
  from census_add [OF t1(2) this] show ?thesis using t1(1) by simp
qed

end

text \<open>Threads that get the lock during an increment and leave the counts as they were.\<close>

definition quiet :: "(upc_table \<Rightarrow> upc_table) option \<Rightarrow> bool" where
  "quiet interv \<longleftrightarrow> (\<forall>f t. interv = Some f \<longrightarrow> upc_wf t \<longrightarrow> upc_wf (f t) \<and> upc_count (f t) = upc_count t)"

lemma quiet_counter: "quiet interv \<Longrightarrow> user_counter upc_wf upc_count (upcount_inc interv) upcount_dec"
proof unfold_locales
  fix t uid
  assume q: "quiet interv" and t: "upc_wf t" "upc_count t uid + 1 < 2 ^ 32"
  show "\<exists>t'. upcount_inc interv t uid = KRet t' \<and> upc_wf t' \<and> upc_count t' = (upc_count t)(uid := upc_count t uid + 1)"
  proof (cases interv)
    case None
    then show ?thesis using upcount_inc_none [OF t] by simp
  next
    case (Some f)
    then have f: "upc_wf (f t)" "upc_count (f t) = upc_count t" using q t(1) by (simp_all add: quiet_def)
    then have "upc_count (f t) uid + 1 < 2 ^ 32" using t(2) by simp
    from upcount_inc_some [where f = f, OF t(1) f(1) t(2) this] show ?thesis unfolding f(2) Some if_cancel .
  qed
qed (rule upcount_dec_ok)

interpretation upc: user_counter upc_wf upc_count "upcount_inc None" upcount_dec
  by (rule quiet_counter) (simp add: quiet_def)

section \<open>Properties\<close>

text \<open>
  C8.  The hash table of user counts implements a multiset of real user ids: on a table that
  agrees with \<open>M\<close>, \<open>upcount_get\<close> returns the multiplicity, \<open>upcount_inc\<close> adds one occurrence and
  \<open>upcount_dec\<close> removes one, or panics exactly when there is none.
\<close>
theorem upcount_refines_multiset:
  assumes "upc_wf t" "upc_count t = count M" "size M + 1 < 2 ^ 32"
  shows "(\<exists>n. upcount_get t u = KRet n \<and> unat n = count M u) \<and>
    (\<exists>t'. upcount_inc None t u = KRet t' \<and> upc_wf t' \<and> upc_count t' = count (M + {#u#})) \<and>
    (if u \<in># M then \<exists>t'. upcount_dec t u = KRet t' \<and> upc_wf t' \<and> upc_count t' = count (M - {#u#})
     else upcount_dec t u = KPanic ''decr_upcount-off the end'')"
proof (intro conjI)
  have c: "upc.census t M" using assms by (simp add: upc.census_def)
  show "\<exists>n. upcount_get t u = KRet n \<and> unat n = count M u"
    using upcount_get_count [OF assms(1), of u] assms(2) by simp
  show "\<exists>t'. upcount_inc None t u = KRet t' \<and> upc_wf t' \<and> upc_count t' = count (M + {#u#})"
    using upc.census_add [OF c assms(3)] unfolding upc.census_def .
  show "if u \<in># M then \<exists>t'. upcount_dec t u = KRet t' \<and> upc_wf t' \<and> upc_count t' = count (M - {#u#})
     else upcount_dec t u = KPanic ''decr_upcount-off the end''"
    using upc.census_remove [OF c, of u] upcount_dec_panic [OF assms(1), of u] assms(2)
    by (auto simp: upc.census_def not_in_iff)
qed

theorem upcount_refines_multiset_witness:
  "let t = \<lparr>upc_hash = [[], [\<lparr>up_uid = 7, up_count = 2\<rparr>]], upc_hashmask = 1\<rparr>; M = {#7, 7#} in
    (\<exists>n. upcount_get t 5 = KRet n \<and> unat n = count M 5) \<and>
    (\<exists>t'. upcount_inc None t 5 = KRet t' \<and> upc_wf t' \<and> upc_count t' = count (M + {#5#})) \<and>
    (if 5 \<in># M then \<exists>t'. upcount_dec t 5 = KRet t' \<and> upc_wf t' \<and> upc_count t' = count (M - {#5#})
     else upcount_dec t 5 = KPanic ''decr_upcount-off the end'')"
proof -
  let ?t = "\<lparr>upc_hash = [[], [\<lparr>up_uid = 7, up_count = 2\<rparr>]], upc_hashmask = 1\<rparr>"
  have h: "UPC_HASH ?t 7 = 1" by (simp add: UPC_HASH_def)
  have wf: "upc_wf ?t"
    by (auto simp: upc_wf_def chain_wf_def less_Suc_eq h intro!: exI [of _ 1])
  have "upc_count ?t = count {#7, 7#}"
  proof
    fix u
    have "UPC_HASH ?t u < 2" using UPC_HASH_bound [OF wf, of u] by simp
    then consider "UPC_HASH ?t u = 0" "u \<noteq> 7" | "UPC_HASH ?t u = 1" using h by fastforce
    then show "upc_count ?t u = count {#7, 7#} u" by cases (auto simp: upc_count_def h)
  qed
  from upcount_refines_multiset [OF wf this, of 5] show ?thesis by (simp only: Let_def) simp
qed

end
