(* ===== verification/Uid.thy ===== *)
theory Uid
  imports Cred Upcount
begin

text \<open>
  The system calls that read and change the ids of a process, \<^verbatim>\<open>uts/common/syscall/uid.c\<close>,
  \<^verbatim>\<open>gid.c\<close> and \<^verbatim>\<open>groups.c\<close>, with the part of \<^verbatim>\<open>pre_syscall\<close> in \<^verbatim>\<open>uts/i86/os/syscall.c\<close>
  that gives a thread the credentials of its process.  They compose the credentials of
  \<^verbatim>\<open>Cred\<close> with the per-user process counts of \<^verbatim>\<open>Upcount\<close>.

  The state is that of the current process; the locks that each call takes keep other threads
  out of the steps below.  A call returns \<open>None\<close> for 0 and the error number otherwise.
\<close>

section \<open>State\<close>

record uidsys =
  us_creds :: cred_heap
  us_proc :: cproc
  us_upc :: upc_table
  us_ngroups_max :: nat

definition MAXUID :: int where
  "MAXUID = 2147483647"

definition bad_id :: "32 word \<Rightarrow> bool" where
  "bad_id i \<longleftrightarrow> sint i < 0 \<or> MAXUID < sint i"

text \<open>
  The C conditions \<^verbatim>\<open>c && suser(cr)\<close> and \<^verbatim>\<open>c && !suser(cr)\<close>: \<^verbatim>\<open>suser\<close>, which marks the
  accounting flag, is called only when the first operand holds.
\<close>

definition and_suser :: "bool \<Rightarrow> cred \<Rightarrow> uidsys \<Rightarrow> bool \<times> uidsys" where
  "and_suser c cr s =
     (if c then let (b, p) = suser cr (us_proc s) in (b, s\<lparr>us_proc := p\<rparr>) else (False, s))"

definition and_not_suser :: "bool \<Rightarrow> cred \<Rightarrow> uidsys \<Rightarrow> bool \<times> uidsys" where
  "and_not_suser c cr s =
     (if c then let (b, p) = suser cr (us_proc s) in (\<not> b, s\<lparr>us_proc := p\<rparr>) else (False, s))"

text \<open>The allocation of the new credentials, and the release that undoes it on an error.\<close>

definition us_crget :: "cred_ptr \<Rightarrow> uidsys \<Rightarrow> uidsys" where
  "us_crget newcr s = s\<lparr>us_creds := crget (us_ngroups_max s) (us_creds s) newcr\<rparr>"

definition us_crfree :: "cred_ptr \<Rightarrow> uidsys \<Rightarrow> uidsys kres" where
  "us_crfree cr s = kbind (crfree (us_creds s) cr) (\<lambda>h. KRet (s\<lparr>us_creds := h\<rparr>))"

definition us_crhold :: "cred_ptr \<Rightarrow> uidsys \<Rightarrow> uidsys kres" where
  "us_crhold cr s = kbind (crhold (us_creds s) cr) (\<lambda>h. KRet (s\<lparr>us_creds := h\<rparr>))"

definition us_error :: "errno \<Rightarrow> cred_ptr \<Rightarrow> uidsys \<Rightarrow> (errno option \<times> uidsys) kres" where
  "us_error e newcr s = kbind (us_crfree newcr s) (\<lambda>s. KRet (Some e, s))"

definition us_update :: "cred_ptr \<Rightarrow> (cred \<Rightarrow> cred) \<Rightarrow> uidsys \<Rightarrow> uidsys kres" where
  "us_update a f s = kbind (cred_at (us_creds s) a) (\<lambda>c. KRet (s\<lparr>us_creds := (us_creds s)(a \<mapsto> f c)\<rparr>))"

text \<open>
  The steps the calls share: \<^verbatim>\<open>crcopy_to(cr, newcr); p->p_cred = newcr;\<close> with the stores to the
  new structure, and, on success, the flag that forbids a core dump and the broadcast.
\<close>

definition us_switch :: "cred_ptr \<Rightarrow> (cred \<Rightarrow> cred) \<Rightarrow> uidsys \<Rightarrow> uidsys kres" where
  "us_switch newcr f s =
     kbind (crcopy_to (us_creds s) (p_cred (us_proc s)) newcr) (\<lambda>h.
       us_update newcr f (s\<lparr>us_creds := h, us_proc := (us_proc s)\<lparr>p_cred := newcr\<rparr>\<rparr>))"

definition us_commit :: "bool \<Rightarrow> cred_ptr \<Rightarrow> uidsys \<Rightarrow> (errno option \<times> uidsys) kres" where
  "us_commit do_nocd newcr s =
     (let p = (if do_nocd then (us_proc s)\<lparr>p_flag := p_flag (us_proc s) OR NOCD\<rparr> else us_proc s) in
      kbind (crset (us_creds s) p newcr) (\<lambda>(h, p). KRet (None, s\<lparr>us_creds := h, us_proc := p\<rparr>)))"

definition us_recount :: "(upc_table \<Rightarrow> upc_table) option \<Rightarrow> uid_t \<Rightarrow> uid_t \<Rightarrow> uidsys \<Rightarrow> uidsys kres" where
  "us_recount interv oldruid uid s =
     (if oldruid \<noteq> uid then
        kbind (kbind (upcount_dec (us_upc s) oldruid) (\<lambda>t. upcount_inc interv t uid))
          (\<lambda>t. KRet (s\<lparr>us_upc := t\<rparr>))
      else KRet s)"

section \<open>User ids\<close>

definition setuid :: "cred_ptr \<Rightarrow> (upc_table \<Rightarrow> upc_table) option \<Rightarrow> uid_t \<Rightarrow> uidsys \<Rightarrow> (errno option \<times> uidsys) kres" where
  "setuid newcr interv uid s =
     (if bad_id uid then KRet (Some EINVAL, s)
      else
        let s = us_crget newcr s in
        kbind (cred_at (us_creds s) (p_cred (us_proc s))) (\<lambda>cr.
          if cr_uid cr \<noteq> 0 \<and> (uid = cr_ruid cr \<or> uid = cr_suid cr) then
            kbind (us_switch newcr (\<lambda>c. c\<lparr>cr_uid := uid\<rparr>) s) (us_commit False newcr)
          else
            let (su, s) = and_suser True cr s in
            if su then
              let do_nocd = (cr_uid cr \<noteq> uid \<or> cr_ruid cr \<noteq> uid \<or> cr_suid cr \<noteq> uid);
                  oldruid = cr_ruid cr in
              kbind (us_switch newcr (\<lambda>c. c\<lparr>cr_ruid := uid, cr_suid := uid, cr_uid := uid\<rparr>) s) (\<lambda>s.
              kbind (us_recount interv oldruid uid s) (us_commit do_nocd newcr))
            else us_error EPERM newcr s))"

definition getuid :: "uidsys \<Rightarrow> (uid_t \<times> uid_t) kres" where
  "getuid s =
     (case p_lwps (us_proc s) of
        [] \<Rightarrow> KFault
      | t # _ \<Rightarrow> kbind (cred_at (us_creds s) (t_cred t)) (\<lambda>cr. KRet (cr_ruid cr, cr_uid cr)))"

definition seteuid :: "cred_ptr \<Rightarrow> uid_t \<Rightarrow> uidsys \<Rightarrow> (errno option \<times> uidsys) kres" where
  "seteuid newcr uid s =
     (if bad_id uid then KRet (Some EINVAL, s)
      else
        let s = us_crget newcr s in
        kbind (cred_at (us_creds s) (p_cred (us_proc s))) (\<lambda>cr.
          let own = (uid = cr_ruid cr \<or> uid = cr_uid cr \<or> uid = cr_suid cr);
              (su, s) = and_suser (\<not> own) cr s in
          if own \<or> su then
            let (do_nocd, s) = and_suser (cr_uid cr \<noteq> uid) cr s in
            kbind (us_switch newcr (\<lambda>c. c\<lparr>cr_uid := uid\<rparr>) s) (us_commit do_nocd newcr)
          else us_error EPERM newcr s))"

definition reuid_update :: "uid_t \<Rightarrow> uid_t \<Rightarrow> cred \<Rightarrow> cred" where
  "reuid_update ruid euid c =
     (let c = (if euid \<noteq> - 1 then c\<lparr>cr_uid := euid\<rparr> else c);
          c = (if ruid \<noteq> - 1 then c\<lparr>cr_ruid := ruid\<rparr> else c)
      in if ruid \<noteq> - 1 \<or> (euid \<noteq> - 1 \<and> cr_uid c \<noteq> cr_ruid c) then c\<lparr>cr_suid := cr_uid c\<rparr> else c)"

definition setreuid :: "cred_ptr \<Rightarrow> (upc_table \<Rightarrow> upc_table) option \<Rightarrow> uid_t \<Rightarrow> uid_t \<Rightarrow> uidsys \<Rightarrow> (errno option \<times> uidsys) kres" where
  "setreuid newcr interv ruid euid s =
     (if (ruid \<noteq> - 1 \<and> bad_id ruid) \<or> (euid \<noteq> - 1 \<and> bad_id euid) then KRet (Some EINVAL, s)
      else
        let s = us_crget newcr s; crp = p_cred (us_proc s) in
        kbind (cred_at (us_creds s) crp) (\<lambda>cr.
          let (eperm, s) = and_not_suser (ruid \<noteq> - 1 \<and> ruid \<noteq> cr_ruid cr \<and> ruid \<noteq> cr_uid cr) cr s in
          if eperm then us_error EPERM newcr s
          else
            let (eperm, s) = and_not_suser (euid \<noteq> - 1 \<and> euid \<noteq> cr_ruid cr \<and> euid \<noteq> cr_uid cr \<and> euid \<noteq> cr_suid cr) cr s in
            if eperm then us_error EPERM newcr s
            else
              kbind (us_crhold crp s) (\<lambda>s.
              kbind (us_switch newcr (reuid_update ruid euid) s) (\<lambda>s.
              kbind (cred_at (us_creds s) crp) (\<lambda>cr.
              kbind (cred_at (us_creds s) newcr) (\<lambda>new.
                let oldruid = (if ruid \<noteq> - 1 then cr_ruid cr else ruid);
                    (do_nocd, s) = and_suser (cr_uid cr \<noteq> cr_uid new \<or> cr_ruid cr \<noteq> cr_ruid new \<or> cr_suid cr \<noteq> cr_suid new) cr s in
                kbind (us_crfree crp s) (\<lambda>s.
                kbind (us_recount interv oldruid ruid s) (us_commit do_nocd newcr))))))))"

section \<open>Group ids\<close>

definition setgid :: "cred_ptr \<Rightarrow> gid_t \<Rightarrow> uidsys \<Rightarrow> (errno option \<times> uidsys) kres" where
  "setgid newcr gid s =
     (if bad_id gid then KRet (Some EINVAL, s)
      else
        let s = us_crget newcr s in
        kbind (cred_at (us_creds s) (p_cred (us_proc s))) (\<lambda>cr.
          if cr_uid cr \<noteq> 0 \<and> (gid = cr_rgid cr \<or> gid = cr_sgid cr) then
            kbind (us_switch newcr (\<lambda>c. c\<lparr>cr_gid := gid\<rparr>) s) (us_commit False newcr)
          else
            let (su, s) = and_suser True cr s in
            if su then
              let do_nocd = (cr_gid cr \<noteq> gid \<or> cr_rgid cr \<noteq> gid \<or> cr_sgid cr \<noteq> gid) in
              kbind (us_switch newcr (\<lambda>c. c\<lparr>cr_gid := gid, cr_rgid := gid, cr_sgid := gid\<rparr>) s) (us_commit do_nocd newcr)
            else us_error EPERM newcr s))"

definition getgid :: "uidsys \<Rightarrow> (gid_t \<times> gid_t) kres" where
  "getgid s =
     (case p_lwps (us_proc s) of
        [] \<Rightarrow> KFault
      | t # _ \<Rightarrow> kbind (cred_at (us_creds s) (t_cred t)) (\<lambda>cr. KRet (cr_rgid cr, cr_gid cr)))"

definition setegid :: "cred_ptr \<Rightarrow> gid_t \<Rightarrow> uidsys \<Rightarrow> (errno option \<times> uidsys) kres" where
  "setegid newcr gid s =
     (if bad_id gid then KRet (Some EINVAL, s)
      else
        let s = us_crget newcr s in
        kbind (cred_at (us_creds s) (p_cred (us_proc s))) (\<lambda>cr.
          let own = (gid = cr_rgid cr \<or> gid = cr_gid cr \<or> gid = cr_sgid cr);
              (su, s) = and_suser (\<not> own) cr s in
          if own \<or> su then
            let (do_nocd, s) = and_suser (cr_gid cr \<noteq> gid) cr s in
            kbind (us_switch newcr (\<lambda>c. c\<lparr>cr_gid := gid\<rparr>) s) (us_commit do_nocd newcr)
          else us_error EPERM newcr s))"

definition regid_update :: "gid_t \<Rightarrow> gid_t \<Rightarrow> cred \<Rightarrow> cred" where
  "regid_update rgid egid c =
     (let c = (if egid \<noteq> - 1 then c\<lparr>cr_gid := egid\<rparr> else c);
          c = (if rgid \<noteq> - 1 then c\<lparr>cr_rgid := rgid\<rparr> else c)
      in if rgid \<noteq> - 1 \<or> (egid \<noteq> - 1 \<and> cr_gid c \<noteq> cr_rgid c) then c\<lparr>cr_sgid := cr_gid c\<rparr> else c)"

definition setregid :: "cred_ptr \<Rightarrow> gid_t \<Rightarrow> gid_t \<Rightarrow> uidsys \<Rightarrow> (errno option \<times> uidsys) kres" where
  "setregid newcr rgid egid s =
     (if (rgid \<noteq> - 1 \<and> bad_id rgid) \<or> (egid \<noteq> - 1 \<and> bad_id egid) then KRet (Some EINVAL, s)
      else
        let s = us_crget newcr s; crp = p_cred (us_proc s) in
        kbind (cred_at (us_creds s) crp) (\<lambda>cr.
          let (eperm, s) = and_not_suser (rgid \<noteq> - 1 \<and> rgid \<noteq> cr_rgid cr \<and> rgid \<noteq> cr_gid cr \<and> rgid \<noteq> cr_sgid cr) cr s in
          if eperm then us_error EPERM newcr s
          else
            let (eperm, s) = and_not_suser (egid \<noteq> - 1 \<and> egid \<noteq> cr_rgid cr \<and> egid \<noteq> cr_gid cr \<and> egid \<noteq> cr_sgid cr) cr s in
            if eperm then us_error EPERM newcr s
            else
              kbind (us_crhold crp s) (\<lambda>s.
              kbind (us_switch newcr (regid_update rgid egid) s) (\<lambda>s.
              kbind (cred_at (us_creds s) crp) (\<lambda>cr.
              kbind (cred_at (us_creds s) newcr) (\<lambda>new.
                let (do_nocd, s) = and_suser (cr_gid cr \<noteq> cr_gid new \<or> cr_rgid cr \<noteq> cr_rgid new \<or> cr_sgid cr \<noteq> cr_sgid new) cr s in
                kbind (us_crfree crp s) (us_commit do_nocd newcr)))))))"

section \<open>Supplementary groups\<close>

text \<open>
  \<open>ugids\<close> is the caller's memory at \<^verbatim>\<open>gidset\<close>: the group ids that can be read there, or
  \<open>None\<close> for an address outside the address space; \<^verbatim>\<open>copyin\<close> fails when it runs out of them.
\<close>

definition copyin_gids :: "gid_t list option \<Rightarrow> nat \<Rightarrow> gid_t list option" where
  "copyin_gids ugids n =
     (case ugids of None \<Rightarrow> None | Some gs \<Rightarrow> if length gs < n then None else Some (take n gs))"

fun bad_group :: "gid_t list \<Rightarrow> bool" where
  "bad_group [] = False"
| "bad_group (g # gs) = (if bad_id g then True else bad_group gs)"

definition setgroups :: "cred_ptr \<Rightarrow> uint_t \<Rightarrow> gid_t list option \<Rightarrow> uidsys \<Rightarrow> (errno option \<times> uidsys) kres" where
  "setgroups newcr gidsetsize ugids s =
     (let n = (ucast gidsetsize :: ushort_t);
          ngmax = (of_nat (us_ngroups_max s) :: ushort_t);
          groups = (if n \<noteq> 0 \<and> n \<le> ngmax then copyin_gids ugids (unat n) else Some []) in
      case groups of
        None \<Rightarrow> KRet (Some EFAULT, s)
      | Some groups \<Rightarrow>
          let s = us_crget newcr s; crp = p_cred (us_proc s) in
          kbind (cred_at (us_creds s) crp) (\<lambda>cr.
            let (notsu, s) = and_not_suser True cr s in
            if notsu then us_error EPERM newcr s
            else if ngmax < n then us_error EINVAL newcr s
            else
              kbind (crdup_to (us_creds s) crp newcr) (\<lambda>h.
              kbind (us_update newcr (\<lambda>c. c\<lparr>cr_groups := groups @ drop (unat n) (cr_groups c)\<rparr>) (s\<lparr>us_creds := h\<rparr>)) (\<lambda>s.
              kbind (cred_at (us_creds s) newcr) (\<lambda>new.
                if bad_group (take (unat n) (cr_groups new)) then us_error EINVAL newcr s
                else
                  kbind (us_update newcr (\<lambda>c. c\<lparr>cr_ngroups := ucast n\<rparr>) s) (\<lambda>s.
                  let s = s\<lparr>us_proc := (us_proc s)\<lparr>p_cred := newcr\<rparr>\<rparr> in
                  kbind (us_crhold newcr s) (\<lambda>s.
                  kbind (us_crfree crp s) (us_commit False newcr))))))))"

text \<open>\<open>room\<close> tells whether \<^verbatim>\<open>copyout\<close> succeeds; the result is the number of groups and what is copied out.\<close>

definition getgroups :: "int32_t \<Rightarrow> bool \<Rightarrow> uidsys \<Rightarrow> (errno + uint_t \<times> gid_t list) kres" where
  "getgroups gidsetsize room s =
     (case p_lwps (us_proc s) of
        [] \<Rightarrow> KFault
      | t # _ \<Rightarrow>
          kbind (cred_at (us_creds s) (t_cred t)) (\<lambda>cr.
            let n = cr_ngroups cr in
            if gidsetsize \<noteq> 0 then
              if sint gidsetsize < sint n then KRet (Inl EINVAL)
              else if \<not> room then KRet (Inl EFAULT)
              else KRet (Inr (n, take (unat n) (cr_groups cr)))
            else KRet (Inr (n, []))))"

section \<open>Entry to a system call\<close>

text \<open>The current thread takes over the credentials of its process.\<close>

definition pre_syscall_cred :: "uidsys \<Rightarrow> uidsys kres" where
  "pre_syscall_cred s =
     (case p_lwps (us_proc s) of
        [] \<Rightarrow> KFault
      | t # ts \<Rightarrow>
          let t = t\<lparr>t_pre_sys := False\<rparr> in
          if t_cred t \<noteq> p_cred (us_proc s) then
            kbind (us_crfree (t_cred t) s) (\<lambda>s.
            kbind (crgetcred (us_creds s) (us_proc s)) (\<lambda>(cr, h).
              KRet (s\<lparr>us_creds := h, us_proc := (us_proc s)\<lparr>p_lwps := t\<lparr>t_cred := cr\<rparr> # ts\<rparr>\<rparr>)))
          else KRet (s\<lparr>us_proc := (us_proc s)\<lparr>p_lwps := t # ts\<rparr>\<rparr>))"

section \<open>Invariant\<close>

text \<open>
  \<open>cur\<close> is the content of the credentials of the process.  \<open>cred_wf\<close> bounds the group list and
  keeps every id non-negative.
\<close>

definition cur :: "uidsys \<Rightarrow> cred" where
  "cur s = the (cred_val (us_creds s) (p_cred (us_proc s)))"

definition cred_wf :: "nat \<Rightarrow> cred \<Rightarrow> bool" where
  "cred_wf n c \<longleftrightarrow> length (cr_groups c) = n \<and> unat (cr_ngroups c) \<le> n \<and>
     (\<forall>i \<in> {cr_uid c, cr_ruid c, cr_suid c, cr_gid c, cr_rgid c, cr_sgid c}. \<not> bad_id i) \<and>
     (\<forall>g \<in> set (take (unat (cr_ngroups c)) (cr_groups c)). \<not> bad_id g)"

text \<open>
  The state between the calls.  \<open>ext\<close> are the holds on credentials from outside of the process
  and \<open>others\<close> the real user ids of the other processes.  Every reference count is the number
  of holders, a thread with outdated credentials is marked to renew them, and the user counts
  include this process under its real user id.
\<close>

definition holds :: "cred_ptr multiset \<Rightarrow> uidsys \<Rightarrow> cred_ptr multiset" where
  "holds ext s = proc_holds (us_proc s) + ext"

definition creds_wf :: "uidsys \<Rightarrow> bool" where
  "creds_wf s \<longleftrightarrow> (\<forall>a c. cred_val (us_creds s) a = Some c \<longrightarrow> cred_wf (us_ngroups_max s) c)"

definition threads_marked :: "cproc \<Rightarrow> bool" where
  "threads_marked p \<longleftrightarrow> p_lwps p \<noteq> [] \<and> (\<forall>t \<in> set (p_lwps p). t_cred t = p_cred p \<or> t_pre_sys t)"

definition uid_inv :: "cred_ptr multiset \<Rightarrow> uid_t multiset \<Rightarrow> uidsys \<Rightarrow> bool" where
  "uid_inv ext others s \<longleftrightarrow>
     cred_refs (us_creds s) (holds ext s) \<and> length (p_lwps (us_proc s)) + size ext + 4 < 2 ^ 32 \<and>
     creds_wf s \<and> threads_marked (us_proc s) \<and> us_ngroups_max s < 2 ^ 16 \<and>
     upc.census (us_upc s) (others + {#cr_ruid (cur s)#}) \<and> size others + 1 < 2 ^ 32"

text \<open>The state between a switch and the broadcast: the new credentials have one hold more.\<close>

definition switched :: "cred_ptr multiset \<Rightarrow> cred_ptr \<Rightarrow> uidsys \<Rightarrow> bool" where
  "switched ext newcr s \<longleftrightarrow>
     cred_refs (us_creds s) (holds ext s + {#newcr#}) \<and>
     creds_wf s \<and> p_cred (us_proc s) = newcr \<and> p_lwps (us_proc s) \<noteq> [] \<and> us_ngroups_max s < 2 ^ 16"

text \<open>What the steps below leave alone.\<close>

definition same_rest :: "uidsys \<Rightarrow> uidsys \<Rightarrow> bool" where
  "same_rest s s' \<longleftrightarrow> us_upc s' = us_upc s \<and> us_ngroups_max s' = us_ngroups_max s \<and>
     length (p_lwps (us_proc s')) = length (p_lwps (us_proc s)) \<and> u_acflag (us_proc s') = u_acflag (us_proc s)"

lemma same_rest_trans: "same_rest s s' \<Longrightarrow> same_rest s' s'' \<Longrightarrow> same_rest s s''"
  by (simp add: same_rest_def)

lemma p_cred_held: "p_cred (us_proc s) \<in># holds ext s"
  by (simp add: holds_def proc_holds_def)

lemma cur_val:
  assumes "cred_refs (us_creds s) M" "p_cred (us_proc s) \<in># M"
  shows "cred_val (us_creds s) (p_cred (us_proc s)) = Some (cur s)"
  using cred_refs_live [OF assms(1)] assms(2) by (auto simp: cur_def)

lemma cred_val_ref: "cred_val h a = Some c \<Longrightarrow> c\<lparr>cr_ref := 0\<rparr> = c"
  by (auto simp: cred_val_def)

lemma cred_at_val:
  assumes "cred_val h a = Some c"
  obtains r where "h a = Some (c\<lparr>cr_ref := r\<rparr>)" "cred_at h a = KRet (c\<lparr>cr_ref := r\<rparr>)"
proof -
  obtain d where d: "h a = Some d" "c = d\<lparr>cr_ref := 0\<rparr>" using assms by (auto simp: cred_val_def)
  then have "d = c\<lparr>cr_ref := cr_ref d\<rparr>" by simp
  then show thesis using that [of "cr_ref d"] d(1) by (simp add: cred_at_def)
qed

lemma us_commit_ok:
  assumes sw: "switched ext newcr s"
  shows "\<exists>s'. us_commit nocd newcr s = KRet (None, s') \<and>
    cred_refs (us_creds s') (holds ext s') \<and> creds_wf s' \<and>
    threads_marked (us_proc s') \<and> same_rest s s' \<and> cur s' = cur s \<and>
    p_flag (us_proc s') = (if nocd then p_flag (us_proc s) OR NOCD else p_flag (us_proc s))"
proof -
  define p where "p = (if nocd then (us_proc s)\<lparr>p_flag := p_flag (us_proc s) OR NOCD\<rparr> else us_proc s)"
  have refs: "cred_refs (us_creds s) (holds ext s + {#newcr#})" and pc: "p_cred (us_proc s) = newcr"
    and wf: "creds_wf s" using sw by (simp_all add: switched_def)
  obtain t ts where ts: "p_lwps (us_proc s) = t # ts" using sw by (auto simp: switched_def neq_Nil_conv)
  then have ts': "p_lwps p = t # ts" by (simp add: p_def)
  have "t_cred t \<in># holds ext s + {#newcr#}" using ts by (simp add: holds_def proc_holds_def)
  then obtain h' where h': "crset (us_creds s) p newcr =
      KRet (h', p\<lparr>p_lwps := t\<lparr>t_cred := newcr\<rparr> # map (\<lambda>t. t\<lparr>t_pre_sys := True\<rparr>) ts\<rparr>)"
    "crfree (us_creds s) (t_cred t) = KRet h'" "cred_refs h' (holds ext s + {#newcr#} - {#t_cred t#})"
    using crset_ok [OF refs ts', of newcr] by blast
  define s' where "s' = s\<lparr>us_creds := h', us_proc := p\<lparr>p_lwps := t\<lparr>t_cred := newcr\<rparr> # map (\<lambda>t. t\<lparr>t_pre_sys := True\<rparr>) ts\<rparr>\<rparr>"
  have eq: "us_commit nocd newcr s = KRet (None, s')" using h'(1) by (simp add: us_commit_def s'_def p_def [symmetric])
  have hold: "holds ext s' = holds ext s + {#newcr#} - {#t_cred t#}"
    using ts pc by (simp add: holds_def proc_holds_def s'_def p_def comp_def)
  then have refs': "cred_refs (us_creds s') (holds ext s')" using h'(3) by (simp add: s'_def)
  have "t_cred t \<in># holds ext s + {#newcr#}" by fact
  from crfree_ok [OF refs this] h'(2) have val: "cred_val h' = (if t_cred t \<in># holds ext s'
      then cred_val (us_creds s) else (cred_val (us_creds s))(t_cred t := None))"
    unfolding hold by auto
  then have wf': "creds_wf s'" using wf by (auto simp: creds_wf_def s'_def split: if_splits)
  have pc': "p_cred (us_proc s') = newcr" using pc by (simp add: s'_def p_def)
  then have "newcr \<in># holds ext s'" using p_cred_held [of s' ext] by simp
  then have "cred_val h' newcr = cred_val (us_creds s) newcr" using val by (auto split: if_splits)
  then have "cur s' = cur s" using pc pc' by (simp add: cur_def) (simp add: s'_def)
  moreover have "threads_marked (us_proc s')" using pc by (auto simp: threads_marked_def s'_def p_def)
  moreover have "same_rest s s'" using ts by (simp add: same_rest_def s'_def p_def)
  moreover have "p_flag (us_proc s') = (if nocd then p_flag (us_proc s) OR NOCD else p_flag (us_proc s))"
    by (simp add: s'_def p_def)
  ultimately show ?thesis using eq refs' sw wf' by (intro exI [of _ s']) (simp add: switched_def)
qed

text \<open>A new structure is allocated: the state before a switch.\<close>

definition fetched :: "cred_ptr multiset \<Rightarrow> cred_ptr \<Rightarrow> uidsys \<Rightarrow> bool" where
  "fetched ext newcr s \<longleftrightarrow>
     cred_refs (us_creds s) (holds ext s + {#newcr#}) \<and> newcr \<notin># holds ext s \<and>
     creds_wf s \<and> p_lwps (us_proc s) \<noteq> [] \<and> us_ngroups_max s < 2 ^ 16"

lemma zero_cred_wf: "cred_wf n (zero_cred n)"
  by (simp add: cred_wf_def zero_cred_def bad_id_def MAXUID_def)

lemma us_crget_fetched:
  assumes "uid_inv ext others s" "us_creds s newcr = None"
  shows "fetched ext newcr (us_crget newcr s)" "cur (us_crget newcr s) = cur s"
proof -
  have refs: "cred_refs (us_creds s) (holds ext s)" and wf: "creds_wf s" using assms(1) by (simp_all add: uid_inv_def)
  note g = crget_ok [OF refs assms(2), of "us_ngroups_max s"]
  have nn: "newcr \<notin># holds ext s" using refs assms(2) by (auto simp: cred_refs_def dest: spec [of _ newcr])
  have "holds ext (us_crget newcr s) = holds ext s" by (simp add: holds_def us_crget_def)
  then show "fetched ext newcr (us_crget newcr s)"
    using g nn wf assms(1) zero_cred_wf
    by (auto simp: fetched_def uid_inv_def us_crget_def creds_wf_def threads_marked_def)
  have "p_cred (us_proc s) \<noteq> newcr" using nn p_cred_held [of s ext] by metis
  then show "cur (us_crget newcr s) = cur s" using g(2) by (simp add: cur_def us_crget_def)
qed

text \<open>Giving it back leaves the state as it was.\<close>

lemma us_error_undoes:
  assumes "us_creds s newcr = None"
  shows "us_error e newcr (us_crget newcr s) = KRet (Some e, s)"
  using assms by (simp add: us_error_def us_crfree_def us_crget_def crfree_def crget_def cred_at_def Let_def fun_upd_idem)

lemma count_holds: "count (holds ext s) a \<le> length (p_lwps (us_proc s)) + size ext + 1"
  using count_le_size [of "holds ext s" a] by (simp add: holds_def proc_holds_def)

text \<open>Stores that do not look at the reference count.\<close>

definition ref_free :: "(cred \<Rightarrow> cred) \<Rightarrow> bool" where
  "ref_free f \<longleftrightarrow> (\<forall>c r. f (c\<lparr>cr_ref := r\<rparr>) = (f c)\<lparr>cr_ref := r\<rparr>)"

lemma us_switch_ok:
  assumes fe: "fetched ext newcr s" and f: "ref_free f" "cred_wf (us_ngroups_max s) (f (cur s))"
  shows "\<exists>s'. us_switch newcr f s = KRet s' \<and> switched ext newcr s' \<and> same_rest s s' \<and>
    cur s' = f (cur s) \<and> p_flag (us_proc s') = p_flag (us_proc s) \<and>
    (\<forall>a. a \<noteq> newcr \<longrightarrow> a \<in># holds ext s' \<longrightarrow> cred_val (us_creds s') a = cred_val (us_creds s) a)"
proof -
  let ?p = "p_cred (us_proc s)" and ?M = "holds ext s + {#newcr#}" and ?h = "us_creds s"
  have refs: "cred_refs ?h ?M" and nn: "newcr \<notin># holds ext s" and wf: "creds_wf s" using fe by (simp_all add: fetched_def)
  have old: "?p \<in># ?M" and ne: "?p \<noteq> newcr" using p_cred_held [of s ext] nn by auto
  have cnt: "count ?M newcr = 1" using nn by (simp add: not_in_iff)
  obtain h' where h': "crcopy_to ?h ?p newcr = KRet h'" "cred_refs h' (?M - {#?p#} + {#newcr#})"
    "cred_val h' = (if ?p \<in># ?M - {#?p#} then cred_val ?h else (cred_val ?h)(?p := None))(newcr := cred_val ?h ?p)"
    using crcopy_to_ok [OF refs old cnt ne] by blast
  have cv: "cred_val ?h ?p = Some (cur s)" using cur_val [OF refs old] .
  then have "cred_val h' newcr = Some (cur s)" using h'(3) by simp
  then obtain r where r: "h' newcr = Some ((cur s)\<lparr>cr_ref := r\<rparr>)" "cred_at h' newcr = KRet ((cur s)\<lparr>cr_ref := r\<rparr>)"
    by (rule cred_at_val)
  let ?c = "(f (cur s))\<lparr>cr_ref := r\<rparr>"
  define s' where "s' = s\<lparr>us_creds := h'(newcr \<mapsto> ?c), us_proc := (us_proc s)\<lparr>p_cred := newcr\<rparr>\<rparr>"
  have eq: "us_switch newcr f s = KRet s'" using h'(1) r(2) f(1) by (simp add: us_switch_def us_update_def s'_def ref_free_def)
  have hold: "?M - {#?p#} + {#newcr#} = holds ext s' + {#newcr#}" by (simp add: holds_def proc_holds_def s'_def)
  have "unat r = count (holds ext s' + {#newcr#}) newcr"
    using h'(2) r(1) unfolding hold by (auto simp: cred_refs_def dest: spec [of _ newcr])
  then have refs': "cred_refs (us_creds s') (holds ext s' + {#newcr#})"
    unfolding s'_def using h'(2) hold by (simp add: s'_def) (intro cred_refs_upd, auto)
  have "(cur s)\<lparr>cr_ref := 0\<rparr> = cur s" using cv by (rule cred_val_ref)
  then have f0: "(f (cur s))\<lparr>cr_ref := 0\<rparr> = f (cur s)" using f(1) unfolding ref_free_def by metis
  have val: "cred_val (us_creds s') = (cred_val h')(newcr \<mapsto> f (cur s))" using f0 by (simp add: s'_def cred_val_upd)
  have "cred_val h' a = Some c \<Longrightarrow> a \<noteq> newcr \<Longrightarrow> cred_val ?h a = Some c" for a c using h'(3) by (auto split: if_splits)
  then have "creds_wf s'" using wf f(2) val unfolding creds_wf_def by (auto simp: s'_def split: if_splits)
  then have "switched ext newcr s'" using refs' fe by (simp add: switched_def fetched_def s'_def)
  moreover have "cur s' = f (cur s)" using val by (simp add: cur_def) (simp add: s'_def)
  moreover have "same_rest s s'" by (simp add: same_rest_def s'_def)
  moreover have "cred_val (us_creds s') a = cred_val ?h a" if "a \<noteq> newcr" "a \<in># holds ext s'" for a
  proof -
    have "?p \<in># ?M - {#?p#}" if "a = ?p" using \<open>a \<in># holds ext s'\<close> \<open>a \<noteq> newcr\<close> that by (auto simp: holds_def proc_holds_def s'_def)
    then show ?thesis using val h'(3) \<open>a \<noteq> newcr\<close> by auto
  qed
  moreover have "p_flag (us_proc s') = p_flag (us_proc s)" by (simp add: s'_def)
  ultimately show ?thesis using eq by (intro exI [of _ s']) simp
qed

lemma holds_more [simp]: "holds (add_mset a ext) s = add_mset a (holds ext s)"
  by (simp add: holds_def)

text \<open>The switch of \<open>setreuid\<close> and \<open>setregid\<close>, which keeps the old credentials for a comparison.\<close>

lemma us_hold_switch_ok:
  assumes fe: "fetched ext newcr s" and small: "length (p_lwps (us_proc s)) + size ext + 4 < 2 ^ 32"
    and f: "ref_free f" "cred_wf (us_ngroups_max s) (f (cur s))"
  shows "\<exists>s1 s2 r r'. us_crhold (p_cred (us_proc s)) s = KRet s1 \<and> us_switch newcr f s1 = KRet s2 \<and>
    cred_at (us_creds s2) (p_cred (us_proc s)) = KRet ((cur s)\<lparr>cr_ref := r\<rparr>) \<and>
    cred_at (us_creds s2) newcr = KRet ((f (cur s))\<lparr>cr_ref := r'\<rparr>) \<and>
    switched (ext + {#p_cred (us_proc s)#}) newcr s2 \<and> same_rest s s2 \<and> cur s2 = f (cur s) \<and>
    p_flag (us_proc s2) = p_flag (us_proc s)"
proof -
  let ?p = "p_cred (us_proc s)" and ?M = "holds ext s + {#newcr#}"
  have refs: "cred_refs (us_creds s) ?M" and nn: "newcr \<notin># holds ext s" using fe by (simp_all add: fetched_def)
  have old: "?p \<in># ?M" and ne: "?p \<noteq> newcr" using p_cred_held [of s ext] nn by auto
  have "count ?M ?p + 1 < 2 ^ 32" using count_holds [of ext s ?p] small ne by simp
  from crhold_ok [OF refs old this] obtain h1 where
    h1: "crhold (us_creds s) ?p = KRet h1" "cred_refs h1 (?M + {#?p#})" "cred_val h1 = cred_val (us_creds s)" by blast
  define s1 where "s1 = s\<lparr>us_creds := h1\<rparr>"
  have e1: "us_crhold ?p s = KRet s1" using h1(1) by (simp add: us_crhold_def s1_def)
  have c1: "cur s1 = cur s" using h1(3) by (simp add: cur_def s1_def)
  have hs: "holds (ext + {#?p#}) s1 = holds ext s + {#?p#}" by (simp add: holds_def s1_def)
  have "fetched (ext + {#?p#}) newcr s1"
    using fe h1 ne unfolding fetched_def hs by (simp add: s1_def creds_wf_def add_mset_commute)
  moreover have "cred_wf (us_ngroups_max s1) (f (cur s1))" using f(2) c1 by (simp add: s1_def)
  ultimately obtain s2 where s2: "us_switch newcr f s1 = KRet s2" "switched (ext + {#?p#}) newcr s2" "same_rest s1 s2"
    "cur s2 = f (cur s1)" "p_flag (us_proc s2) = p_flag (us_proc s1)"
    "\<forall>a. a \<noteq> newcr \<longrightarrow> a \<in># holds (ext + {#?p#}) s2 \<longrightarrow> cred_val (us_creds s2) a = cred_val (us_creds s1) a"
    using us_switch_ok [OF _ f(1), of "ext + {#?p#}" newcr s1] by blast
  have "cred_val (us_creds s2) ?p = cred_val (us_creds s1) ?p" using s2(6) ne by simp
  also have "\<dots> = Some (cur s)" using h1(3) cur_val [OF refs old] by (simp add: s1_def)
  finally obtain r where r: "cred_at (us_creds s2) ?p = KRet ((cur s)\<lparr>cr_ref := r\<rparr>)" by (rule cred_at_val)
  have pc: "p_cred (us_proc s2) = newcr" and refs2: "cred_refs (us_creds s2) (holds (ext + {#?p#}) s2 + {#newcr#})"
    using s2(2) by (simp_all add: switched_def)
  then have "cred_val (us_creds s2) newcr = Some (f (cur s))"
    using cur_val [OF refs2] s2(4) c1 by simp
  then obtain r' where "cred_at (us_creds s2) newcr = KRet ((f (cur s))\<lparr>cr_ref := r'\<rparr>)" by (rule cred_at_val)
  moreover have "same_rest s s2" using s2(3) by (simp add: same_rest_def s1_def)
  moreover have "p_flag (us_proc s2) = p_flag (us_proc s)" using s2(5) by (simp add: s1_def)
  ultimately show ?thesis using e1 s2(1,2,4) r c1 by auto
qed

lemma us_crfree_switched:
  assumes sw: "switched (ext + {#a#}) newcr s"
  shows "\<exists>s'. us_crfree a s = KRet s' \<and> switched ext newcr s' \<and> same_rest s s' \<and> cur s' = cur s \<and>
    p_flag (us_proc s') = p_flag (us_proc s)"
proof -
  let ?M = "holds ext s + {#newcr#}"
  have refs: "cred_refs (us_creds s) (?M + {#a#})" and pc: "p_cred (us_proc s) = newcr"
    using sw by (simp_all add: switched_def add_mset_commute)
  have "a \<in># ?M + {#a#}" by simp
  from crfree_ok [OF refs this] obtain h' where h': "crfree (us_creds s) a = KRet h'" "cred_refs h' ?M"
    "cred_val h' = (if a \<in># ?M then cred_val (us_creds s) else (cred_val (us_creds s))(a := None))" by auto
  define s' where "s' = s\<lparr>us_creds := h'\<rparr>"
  have "creds_wf s'" using sw h'(3) by (auto simp: switched_def creds_wf_def s'_def split: if_splits)
  then have "switched ext newcr s'" using sw h'(2) by (simp add: switched_def s'_def holds_def)
  moreover have "cur s' = cur s" using h'(3) pc by (auto simp: cur_def s'_def)
  ultimately show ?thesis using h'(1) by (intro exI [of _ s']) (simp add: us_crfree_def s'_def same_rest_def)
qed

lemma switched_upc [simp]: "switched ext newcr (s\<lparr>us_upc := t\<rparr>) = switched ext newcr s"
  by (simp add: switched_def holds_def creds_wf_def)

lemma cur_upc [simp]: "cur (s\<lparr>us_upc := t\<rparr>) = cur s"
  by (simp add: cur_def)

text \<open>The counts follow the real user id.\<close>

lemma us_recount_ok:
  assumes q: "quiet interv" and c: "upc.census (us_upc s) (others + {#old#})" and small: "size others + 1 < 2 ^ 32"
  shows "\<exists>t. us_recount interv old uid s = KRet (s\<lparr>us_upc := t\<rparr>) \<and> upc.census t (others + {#uid#})"
proof (cases "old = uid")
  case True
  then show ?thesis using c by (intro exI [of _ "us_upc s"]) (simp add: us_recount_def)
next
  case False
  have "old \<in># others + {#old#}" "size (others + {#old#}) < 2 ^ 32" using small by simp_all
  from user_counter.census_move [OF quiet_counter [OF q] c this, of uid]
  show ?thesis using False by (auto simp: us_recount_def)
qed

section \<open>Outcomes of the calls\<close>

text \<open>Equal up to the accounting flag.\<close>

definition acf :: "uidsys \<Rightarrow> uidsys \<Rightarrow> bool" where
  "acf s s' \<longleftrightarrow> (\<exists>w. s' = s\<lparr>us_proc := (us_proc s)\<lparr>u_acflag := w\<rparr>\<rparr>)"

lemma acf_refl [simp]: "acf s s"
  unfolding acf_def by (rule exI [of _ "u_acflag (us_proc s)"]) simp

lemma acf_trans: "acf s s' \<Longrightarrow> acf s' s'' \<Longrightarrow> acf s s''"
  by (auto simp: acf_def)

lemma acf_fields:
  assumes "acf s s'"
  shows "us_creds s' = us_creds s" "us_upc s' = us_upc s" "us_ngroups_max s' = us_ngroups_max s"
    "p_cred (us_proc s') = p_cred (us_proc s)" "p_lwps (us_proc s') = p_lwps (us_proc s)"
    "p_flag (us_proc s') = p_flag (us_proc s)"
  using assms by (auto simp: acf_def)

lemma acf_holds [simp]: "acf s s' \<Longrightarrow> holds ext s' = holds ext s"
  by (simp add: holds_def proc_holds_def acf_fields)

lemma acf_cur [simp]: "acf s s' \<Longrightarrow> cur s' = cur s"
  by (simp add: cur_def acf_fields)

lemma acf_fetched: "acf s s' \<Longrightarrow> fetched ext newcr s \<Longrightarrow> fetched ext newcr s'"
  by (simp add: fetched_def creds_wf_def acf_fields)

lemma acf_switched: "acf s s' \<Longrightarrow> switched ext newcr s \<Longrightarrow> switched ext newcr s'"
  by (simp add: switched_def creds_wf_def acf_fields)

lemma suser_acf: "\<exists>p. suser cr (us_proc s) = (cr_uid cr = 0, p) \<and> acf s (s\<lparr>us_proc := p\<rparr>) \<and> (cr_uid cr \<noteq> 0 \<longrightarrow> p = us_proc s)"
  by (auto simp: suser_def) (auto simp: acf_def)

lemma and_suser_acf: "\<exists>s'. and_suser c cr s = (c \<and> cr_uid cr = 0, s') \<and> acf s s'"
  using suser_acf [of cr s] by (cases c) (auto simp: and_suser_def)

lemma and_not_suser_acf: "\<exists>s'. and_not_suser c cr s = (c \<and> cr_uid cr \<noteq> 0, s') \<and> acf s s' \<and> (c \<and> cr_uid cr \<noteq> 0 \<longrightarrow> s' = s)"
  using suser_acf [of cr s] by (cases c) (auto simp: and_not_suser_def)

definition succeeds :: "cred_ptr multiset \<Rightarrow> uid_t multiset \<Rightarrow> uidsys \<Rightarrow> (cred \<Rightarrow> cred) \<Rightarrow> bool \<Rightarrow> (errno option \<times> uidsys) kres \<Rightarrow> bool" where
  "succeeds ext others s f nocd r \<longleftrightarrow> (\<exists>s'. r = KRet (None, s') \<and> uid_inv ext others s' \<and> cur s' = f (cur s) \<and>
     p_flag (us_proc s') = (if nocd then p_flag (us_proc s) OR NOCD else p_flag (us_proc s)))"

lemma commit_succeeds:
  assumes inv: "uid_inv ext others s" and sw: "switched ext newcr s2"
    and c: "cur s2 = f (cur s)" "us_upc s2 = us_upc s" "p_flag (us_proc s2) = p_flag (us_proc s)"
      "length (p_lwps (us_proc s2)) = length (p_lwps (us_proc s))"
    and q: "quiet interv" and old: "old = cr_ruid (cur s)" "uid = cr_ruid (f (cur s))"
  shows "succeeds ext others s f nocd (kbind (us_recount interv old uid s2) (us_commit nocd newcr))"
proof -
  have cen: "upc.census (us_upc s2) (others + {#old#})" and sz: "size others + 1 < 2 ^ 32"
    using inv c(2) old(1) by (simp_all add: uid_inv_def)
  from us_recount_ok [OF q cen sz, of uid] obtain t where
    t: "us_recount interv old uid s2 = KRet (s2\<lparr>us_upc := t\<rparr>)" "upc.census t (others + {#uid#})" by blast
  have "switched ext newcr (s2\<lparr>us_upc := t\<rparr>)" using sw by simp
  from us_commit_ok [OF this, of nocd] obtain s' where s': "us_commit nocd newcr (s2\<lparr>us_upc := t\<rparr>) = KRet (None, s')"
    "cred_refs (us_creds s') (holds ext s')" "creds_wf s'" "threads_marked (us_proc s')" "same_rest (s2\<lparr>us_upc := t\<rparr>) s'"
    "cur s' = cur s2" "p_flag (us_proc s') = (if nocd then p_flag (us_proc s2) OR NOCD else p_flag (us_proc s2))" by auto
  have "uid_inv ext others s'"
    using inv sw c s' t(2) old(2) unfolding uid_inv_def by (simp add: same_rest_def switched_def)
  then show ?thesis using s'(1,6,7) t(1) c by (simp add: succeeds_def)
qed

lemma switch_succeeds:
  assumes inv: "uid_inv ext others s" "us_creds s newcr = None" and s1: "acf (us_crget newcr s) s1"
    and f: "ref_free f" "cred_wf (us_ngroups_max s) (f (cur s))"
    and q: "quiet interv" and old: "old = cr_ruid (cur s)" "uid = cr_ruid (f (cur s))"
  shows "succeeds ext others s f nocd
    (kbind (us_switch newcr f s1) (\<lambda>s. kbind (us_recount interv old uid s) (us_commit nocd newcr)))"
proof -
  have fe: "fetched ext newcr s1" using us_crget_fetched(1) [OF inv] s1 by (rule acf_fetched [rotated])
  have c1: "cur s1 = cur s" using us_crget_fetched(2) [OF inv] s1 by simp
  have f1: "cred_wf (us_ngroups_max s1) (f (cur s1))" using f(2) c1 acf_fields(3) [OF s1] by (simp add: us_crget_def)
  obtain s2 where s2: "us_switch newcr f s1 = KRet s2" "switched ext newcr s2" "same_rest s1 s2" "cur s2 = f (cur s)"
    "p_flag (us_proc s2) = p_flag (us_proc s1)"
    using us_switch_ok [OF fe f(1) f1] c1 by auto
  have "us_upc s2 = us_upc s" "p_flag (us_proc s2) = p_flag (us_proc s)" "length (p_lwps (us_proc s2)) = length (p_lwps (us_proc s))"
    using s2(3,5) acf_fields [OF s1] by (simp_all add: same_rest_def us_crget_def)
  from commit_succeeds [where f = f, OF inv(1) s2(2,4) this q old, of nocd] show ?thesis using s2(1) by simp
qed

text \<open>The same, where the real user id stays.\<close>

lemma switch_succeeds_same:
  assumes "uid_inv ext others s" "us_creds s newcr = None" "acf (us_crget newcr s) s1"
    "ref_free f" "cred_wf (us_ngroups_max s) (f (cur s))" "cr_ruid (f (cur s)) = cr_ruid (cur s)"
  shows "succeeds ext others s f nocd (kbind (us_switch newcr f s1) (us_commit nocd newcr))"
proof -
  have "quiet None" by (simp add: quiet_def)
  from switch_succeeds [OF assms(1-5) this refl assms(6) [symmetric], of nocd] show ?thesis by (simp add: us_recount_def)
qed

text \<open>The credentials that the calls look at.\<close>

lemma us_crget_cur:
  assumes "uid_inv ext others s" "us_creds s newcr = None"
  obtains r where "cred_at (us_creds (us_crget newcr s)) (p_cred (us_proc (us_crget newcr s))) = KRet ((cur s)\<lparr>cr_ref := r\<rparr>)"
proof -
  have "cred_refs (us_creds (us_crget newcr s)) (holds ext (us_crget newcr s) + {#newcr#})"
    using us_crget_fetched(1) [OF assms] by (simp add: fetched_def)
  moreover have "p_cred (us_proc (us_crget newcr s)) \<in># holds ext (us_crget newcr s) + {#newcr#}"
    using p_cred_held [of "us_crget newcr s" ext] by simp
  ultimately have "cred_val (us_creds (us_crget newcr s)) (p_cred (us_proc (us_crget newcr s))) = Some (cur s)"
    using cur_val us_crget_fetched(2) [OF assms] by metis
  then show thesis using that by (rule cred_at_val)
qed

lemma cur_wf: "uid_inv ext others s \<Longrightarrow> cred_wf (us_ngroups_max s) (cur s)"
  using cur_val [of s "holds ext s"] p_cred_held [of s ext] by (auto simp: uid_inv_def creds_wf_def)

section \<open>Setuid and seteuid\<close>

lemma setuid_spec:
  assumes inv: "uid_inv ext others s" "us_creds s newcr = None" and q: "quiet interv"
  shows "if bad_id uid then setuid newcr interv uid s = KRet (Some EINVAL, s)
    else if cr_uid (cur s) = 0 then
      succeeds ext others s (\<lambda>c. c\<lparr>cr_ruid := uid, cr_suid := uid, cr_uid := uid\<rparr>)
        (cr_uid (cur s) \<noteq> uid \<or> cr_ruid (cur s) \<noteq> uid \<or> cr_suid (cur s) \<noteq> uid) (setuid newcr interv uid s)
    else if uid = cr_ruid (cur s) \<or> uid = cr_suid (cur s) then
      succeeds ext others s (\<lambda>c. c\<lparr>cr_uid := uid\<rparr>) False (setuid newcr interv uid s)
    else setuid newcr interv uid s = KRet (Some EPERM, s)"
proof (cases "bad_id uid")
  case True
  then show ?thesis by (simp add: setuid_def)
next
  case False
  obtain r where r: "cred_at (us_creds (us_crget newcr s)) (p_cred (us_proc (us_crget newcr s))) = KRet ((cur s)\<lparr>cr_ref := r\<rparr>)"
    using us_crget_cur [OF inv] .
  obtain s1 where s1: "and_suser True ((cur s)\<lparr>cr_ref := r\<rparr>) (us_crget newcr s) = (cr_uid (cur s) = 0, s1)" "acf (us_crget newcr s) s1"
    using and_suser_acf [of True "(cur s)\<lparr>cr_ref := r\<rparr>" "us_crget newcr s"] by auto
  show ?thesis
  proof (cases "cr_uid (cur s) = 0")
    case True
    let ?f = "\<lambda>c. c\<lparr>cr_ruid := uid, cr_suid := uid, cr_uid := uid\<rparr>"
    have "ref_free ?f" "cred_wf (us_ngroups_max s) (?f (cur s))"
      using cur_wf [OF inv(1)] False by (auto simp: ref_free_def cred_wf_def)
    from switch_succeeds [OF inv s1(2) this q] show ?thesis
      using False True r s1(1) by (simp add: setuid_def)
  next
    case nz: False
    let ?f = "\<lambda>c. c\<lparr>cr_uid := uid\<rparr>"
    have f: "ref_free ?f" "cred_wf (us_ngroups_max s) (?f (cur s))"
      using cur_wf [OF inv(1)] False by (auto simp: ref_free_def cred_wf_def)
    show ?thesis
      using switch_succeeds_same [OF inv acf_refl f, of False] False nz r
      by (simp add: setuid_def and_suser_def suser_def us_error_undoes [OF inv(2)] Let_def)
  qed
qed

lemma seteuid_spec:
  assumes inv: "uid_inv ext others s" "us_creds s newcr = None"
  shows "if bad_id uid then seteuid newcr uid s = KRet (Some EINVAL, s)
    else if uid \<in> {cr_ruid (cur s), cr_uid (cur s), cr_suid (cur s)} \<or> cr_uid (cur s) = 0 then
      succeeds ext others s (\<lambda>c. c\<lparr>cr_uid := uid\<rparr>) (cr_uid (cur s) \<noteq> uid \<and> cr_uid (cur s) = 0) (seteuid newcr uid s)
    else seteuid newcr uid s = KRet (Some EPERM, s)"
proof (cases "bad_id uid")
  case True
  then show ?thesis by (simp add: seteuid_def)
next
  case False
  obtain r where r: "cred_at (us_creds (us_crget newcr s)) (p_cred (us_proc (us_crget newcr s))) = KRet ((cur s)\<lparr>cr_ref := r\<rparr>)"
    using us_crget_cur [OF inv] .
  let ?c = "(cur s)\<lparr>cr_ref := r\<rparr>"
  define own where "own \<longleftrightarrow> uid = cr_ruid (cur s) \<or> uid = cr_uid (cur s) \<or> uid = cr_suid (cur s)"
  define chg where "chg \<longleftrightarrow> cr_uid (cur s) \<noteq> uid"
  obtain s1 where s1: "and_suser (\<not> own) ?c (us_crget newcr s) = (\<not> own \<and> cr_uid (cur s) = 0, s1)" "acf (us_crget newcr s) s1"
    using and_suser_acf [of "\<not> own" ?c "us_crget newcr s"] by auto
  obtain s2 where s2: "and_suser chg ?c s1 = (chg \<and> cr_uid (cur s) = 0, s2)" "acf s1 s2"
    using and_suser_acf [of chg ?c s1] by auto
  have s12: "acf (us_crget newcr s) s2" by (rule acf_trans [OF s1(2) s2(2)])
  let ?f = "\<lambda>c. c\<lparr>cr_uid := uid\<rparr>"
  have f: "ref_free ?f" "cred_wf (us_ngroups_max s) (?f (cur s))"
    using cur_wf [OF inv(1)] False by (auto simp: ref_free_def cred_wf_def)
  have "seteuid newcr uid s = (case and_suser (\<not> own) ?c (us_crget newcr s) of (su, s) \<Rightarrow>
      if own \<or> su then case and_suser chg ?c s of (n, s) \<Rightarrow> kbind (us_switch newcr ?f s) (us_commit n newcr)
      else us_error EPERM newcr s)"
    using False r by (simp add: seteuid_def Let_def own_def chg_def cong: if_cong)
  also have "\<dots> = (if own \<or> cr_uid (cur s) = 0
      then kbind (us_switch newcr ?f s2) (us_commit (chg \<and> cr_uid (cur s) = 0) newcr) else us_error EPERM newcr s1)"
    unfolding s1(1) using s2(1) by simp
  finally have eq: "seteuid newcr uid s = \<dots>" .
  show ?thesis
  proof (cases "own \<or> cr_uid (cur s) = 0")
    case True
    then have "uid \<in> {cr_ruid (cur s), cr_uid (cur s), cr_suid (cur s)} \<or> cr_uid (cur s) = 0" by (auto simp: own_def)
    moreover have "succeeds ext others s ?f (chg \<and> cr_uid (cur s) = 0) (seteuid newcr uid s)"
      using switch_succeeds_same [OF inv s12 f] eq True by simp
    ultimately show ?thesis using False by (simp only: chg_def if_True if_False)
  next
    case no: False
    then have "\<not> (uid \<in> {cr_ruid (cur s), cr_uid (cur s), cr_suid (cur s)} \<or> cr_uid (cur s) = 0)" by (auto simp: own_def)
    moreover have "s1 = us_crget newcr s" using s1(1) no by (simp add: and_suser_def suser_def)
    then have "seteuid newcr uid s = KRet (Some EPERM, s)" using eq no us_error_undoes [OF inv(2)] by simp
    ultimately show ?thesis using False by (simp only: if_False)
  qed
qed

section \<open>Setreuid\<close>

lemma held_switch_succeeds:
  assumes inv: "uid_inv ext others s" "us_creds s newcr = None" and s1: "acf (us_crget newcr s) s1"
    and f: "ref_free f" "cred_wf (us_ngroups_max s) (f (cur s))" and q: "quiet interv"
    and chg: "\<And>r r'. chg ((cur s)\<lparr>cr_ref := r\<rparr>) ((f (cur s))\<lparr>cr_ref := r'\<rparr>) = b"
    and old: "\<And>r. old ((cur s)\<lparr>cr_ref := r\<rparr>) = x"
    and upc: "x = cr_ruid (cur s) \<and> uid = cr_ruid (f (cur s)) \<or> x = uid \<and> cr_ruid (f (cur s)) = cr_ruid (cur s)"
  shows "succeeds ext others s f (b \<and> cr_uid (cur s) = 0)
    (kbind (us_crhold (p_cred (us_proc s)) s1) (\<lambda>s1.
     kbind (us_switch newcr f s1) (\<lambda>s1.
     kbind (cred_at (us_creds s1) (p_cred (us_proc s))) (\<lambda>cr.
     kbind (cred_at (us_creds s1) newcr) (\<lambda>new.
       case and_suser (chg cr new) cr s1 of (n, s1) \<Rightarrow>
       kbind (us_crfree (p_cred (us_proc s)) s1) (\<lambda>s1.
       kbind (us_recount interv (old cr) uid s1) (us_commit n newcr)))))))"
proof -
  let ?p = "p_cred (us_proc s)"
  have fe: "fetched ext newcr s1" using us_crget_fetched(1) [OF inv] s1 by (rule acf_fetched [rotated])
  have c1: "cur s1 = cur s" using us_crget_fetched(2) [OF inv] s1 by simp
  have p1: "p_cred (us_proc s1) = ?p" using acf_fields(4) [OF s1] by (simp add: us_crget_def)
  have f1: "cred_wf (us_ngroups_max s1) (f (cur s1))" using f(2) c1 acf_fields(3) [OF s1] by (simp add: us_crget_def)
  have small: "length (p_lwps (us_proc s1)) + size ext + 4 < 2 ^ 32"
    using inv(1) acf_fields(5) [OF s1] by (simp add: uid_inv_def us_crget_def)
  obtain s2 s3 r r' where s3: "us_crhold ?p s1 = KRet s2" "us_switch newcr f s2 = KRet s3"
    "cred_at (us_creds s3) ?p = KRet ((cur s)\<lparr>cr_ref := r\<rparr>)"
    "cred_at (us_creds s3) newcr = KRet ((f (cur s))\<lparr>cr_ref := r'\<rparr>)"
    "switched (ext + {#?p#}) newcr s3" "same_rest s1 s3" "cur s3 = f (cur s)" "p_flag (us_proc s3) = p_flag (us_proc s1)"
    using us_hold_switch_ok [OF fe small f(1) f1] unfolding p1 c1 by blast
  obtain s4 where s4: "and_suser b ((cur s)\<lparr>cr_ref := r\<rparr>) s3 = (b \<and> cr_uid (cur s) = 0, s4)" "acf s3 s4"
    using and_suser_acf [of b "(cur s)\<lparr>cr_ref := r\<rparr>" s3] by auto
  obtain s5 where s5: "us_crfree ?p s4 = KRet s5" "switched ext newcr s5" "same_rest s4 s5" "cur s5 = cur s4"
    "p_flag (us_proc s5) = p_flag (us_proc s4)"
    using us_crfree_switched [OF acf_switched [OF s4(2) s3(5)]] by blast
  have fr: "us_upc s5 = us_upc s" "p_flag (us_proc s5) = p_flag (us_proc s)"
    "length (p_lwps (us_proc s5)) = length (p_lwps (us_proc s))"
    using s3(6,8) s5(3,5) acf_fields [OF s4(2)] acf_fields [OF s1] by (simp_all add: same_rest_def us_crget_def)
  have c5: "cur s5 = f (cur s)" using s5(4) s4(2) s3(7) by simp
  from upc have "succeeds ext others s f (b \<and> cr_uid (cur s) = 0)
      (kbind (us_recount interv x uid s5) (us_commit (b \<and> cr_uid (cur s) = 0) newcr))"
  proof
    assume "x = cr_ruid (cur s) \<and> uid = cr_ruid (f (cur s))"
    then show ?thesis using commit_succeeds [where f = f, OF inv(1) s5(2) c5 fr q] by blast
  next
    assume xu: "x = uid \<and> cr_ruid (f (cur s)) = cr_ruid (cur s)"
    have "us_recount interv x uid s5 = us_recount interv (cr_ruid (cur s)) (cr_ruid (cur s)) s5"
      using xu by (simp add: us_recount_def)
    then show ?thesis
      using commit_succeeds [where f = f, OF inv(1) s5(2) c5 fr q refl sym [OF conjunct2 [OF xu]]] by metis
  qed
  then show ?thesis using s3(1-4) s4(1) s5(1) by (simp add: chg old)
qed

lemma reuid_update_wf:
  assumes "cred_wf n c" "ruid = - 1 \<or> \<not> bad_id ruid" "euid = - 1 \<or> \<not> bad_id euid"
  shows "cred_wf n (reuid_update ruid euid c)" "ref_free (reuid_update ruid euid)"
  using assms by (auto simp: cred_wf_def reuid_update_def ref_free_def Let_def)

lemma reuid_update_ref [simp]:
  "reuid_update ruid euid (c\<lparr>cr_ref := r\<rparr>) = (reuid_update ruid euid c)\<lparr>cr_ref := r\<rparr>"
  by (simp add: reuid_update_def Let_def)

definition reuid_perm :: "uid_t \<Rightarrow> uid_t \<Rightarrow> cred \<Rightarrow> bool" where
  "reuid_perm ruid euid c \<longleftrightarrow> cr_uid c = 0 \<or>
     ruid \<in> {- 1, cr_ruid c, cr_uid c} \<and> euid \<in> {- 1, cr_ruid c, cr_uid c, cr_suid c}"

definition uids_differ :: "cred \<Rightarrow> cred \<Rightarrow> bool" where
  "uids_differ c d \<longleftrightarrow> cr_uid c \<noteq> cr_uid d \<or> cr_ruid c \<noteq> cr_ruid d \<or> cr_suid c \<noteq> cr_suid d"

lemma setreuid_spec:
  assumes inv: "uid_inv ext others s" "us_creds s newcr = None" and q: "quiet interv"
  shows "if (ruid \<noteq> - 1 \<and> bad_id ruid) \<or> (euid \<noteq> - 1 \<and> bad_id euid) then
      setreuid newcr interv ruid euid s = KRet (Some EINVAL, s)
    else if reuid_perm ruid euid (cur s) then
      succeeds ext others s (reuid_update ruid euid)
        (uids_differ (cur s) (reuid_update ruid euid (cur s)) \<and> cr_uid (cur s) = 0) (setreuid newcr interv ruid euid s)
    else setreuid newcr interv ruid euid s = KRet (Some EPERM, s)"
proof (cases "(ruid \<noteq> - 1 \<and> bad_id ruid) \<or> (euid \<noteq> - 1 \<and> bad_id euid)")
  case True
  then show ?thesis by (simp add: setreuid_def)
next
  case False
  let ?f = "reuid_update ruid euid" and ?p = "p_cred (us_proc s)" and ?s = "us_crget newcr s"
  obtain r where r: "cred_at (us_creds ?s) (p_cred (us_proc ?s)) = KRet ((cur s)\<lparr>cr_ref := r\<rparr>)"
    using us_crget_cur [OF inv] .
  have p: "p_cred (us_proc ?s) = ?p" by (simp add: us_crget_def)
  let ?c = "(cur s)\<lparr>cr_ref := r\<rparr>"
  define b1 where "b1 \<longleftrightarrow> ruid \<noteq> - 1 \<and> ruid \<noteq> cr_ruid (cur s) \<and> ruid \<noteq> cr_uid (cur s)"
  define b2 where "b2 \<longleftrightarrow> euid \<noteq> - 1 \<and> euid \<noteq> cr_ruid (cur s) \<and> euid \<noteq> cr_uid (cur s) \<and> euid \<noteq> cr_suid (cur s)"
  define go where "go = (\<lambda>s1. kbind (us_crhold ?p s1) (\<lambda>s1.
     kbind (us_switch newcr ?f s1) (\<lambda>s1.
     kbind (cred_at (us_creds s1) ?p) (\<lambda>cr.
     kbind (cred_at (us_creds s1) newcr) (\<lambda>new.
       case and_suser (uids_differ cr new) cr s1 of (n, s1) \<Rightarrow>
       kbind (us_crfree ?p s1) (\<lambda>s1.
       kbind (us_recount interv (if ruid \<noteq> - 1 then cr_ruid cr else ruid) ruid s1) (us_commit n newcr)))))))"
  obtain s1 where s1: "and_not_suser b1 ?c ?s = (b1 \<and> cr_uid (cur s) \<noteq> 0, s1)" "acf ?s s1" "b1 \<and> cr_uid (cur s) \<noteq> 0 \<longrightarrow> s1 = ?s"
    using and_not_suser_acf [of b1 ?c ?s] by auto
  obtain s2 where s2: "and_not_suser b2 ?c s1 = (b2 \<and> cr_uid (cur s) \<noteq> 0, s2)" "acf s1 s2" "b2 \<and> cr_uid (cur s) \<noteq> 0 \<longrightarrow> s2 = s1"
    using and_not_suser_acf [of b2 ?c s1] by auto
  have "setreuid newcr interv ruid euid s = (case and_not_suser b1 ?c ?s of (e, s) \<Rightarrow>
      if e then us_error EPERM newcr s
      else case and_not_suser b2 ?c s of (e, s) \<Rightarrow> if e then us_error EPERM newcr s else go s)"
    unfolding setreuid_def if_not_P [OF False]
    using r by (simp add: Let_def b1_def b2_def go_def uids_differ_def p cong: if_cong)
  also have "\<dots> = (if b1 \<and> cr_uid (cur s) \<noteq> 0 then us_error EPERM newcr s1
      else if b2 \<and> cr_uid (cur s) \<noteq> 0 then us_error EPERM newcr s2 else go s2)"
    unfolding s1(1) prod.case s2(1) by (rule refl)
  finally have eq: "setreuid newcr interv ruid euid s = \<dots>" .
  have perm: "reuid_perm ruid euid (cur s) \<longleftrightarrow> \<not> (b1 \<and> cr_uid (cur s) \<noteq> 0) \<and> \<not> (b2 \<and> cr_uid (cur s) \<noteq> 0)"
    by (auto simp: reuid_perm_def b1_def b2_def)
  show ?thesis
  proof (cases "reuid_perm ruid euid (cur s)")
    case True
    have "succeeds ext others s ?f (uids_differ (cur s) (?f (cur s)) \<and> cr_uid (cur s) = 0) (go s2)"
      unfolding go_def
    proof (rule held_switch_succeeds [OF inv acf_trans [OF s1(2) s2(2)] _ _ q])
      show "ref_free ?f" "cred_wf (us_ngroups_max s) (?f (cur s))"
        using reuid_update_wf [OF cur_wf [OF inv(1)]] False by auto
      show "(if ruid \<noteq> - 1 then cr_ruid (cur s) else ruid) = cr_ruid (cur s) \<and> ruid = cr_ruid (?f (cur s)) \<or>
          (if ruid \<noteq> - 1 then cr_ruid (cur s) else ruid) = ruid \<and> cr_ruid (?f (cur s)) = cr_ruid (cur s)"
        by (simp add: reuid_update_def Let_def)
    qed (simp_all add: uids_differ_def)
    then show ?thesis using eq False True perm by (simp only: if_False if_True) simp
  next
    case no: False
    have "setreuid newcr interv ruid euid s = us_error EPERM newcr ?s"
      using eq no perm s1(3) s2(3) acf_refl s2(1) s1(1) by (auto simp: and_not_suser_def suser_def split: if_splits)
    then show ?thesis using no False us_error_undoes [OF inv(2)] by simp
  qed
qed

section \<open>Group ids\<close>

lemma setgid_spec:
  assumes inv: "uid_inv ext others s" "us_creds s newcr = None"
  shows "if bad_id gid then setgid newcr gid s = KRet (Some EINVAL, s)
    else if cr_uid (cur s) = 0 then
      succeeds ext others s (\<lambda>c. c\<lparr>cr_gid := gid, cr_rgid := gid, cr_sgid := gid\<rparr>)
        (cr_gid (cur s) \<noteq> gid \<or> cr_rgid (cur s) \<noteq> gid \<or> cr_sgid (cur s) \<noteq> gid) (setgid newcr gid s)
    else if gid = cr_rgid (cur s) \<or> gid = cr_sgid (cur s) then
      succeeds ext others s (\<lambda>c. c\<lparr>cr_gid := gid\<rparr>) False (setgid newcr gid s)
    else setgid newcr gid s = KRet (Some EPERM, s)"
proof (cases "bad_id gid")
  case True
  then show ?thesis by (simp add: setgid_def)
next
  case False
  obtain r where r: "cred_at (us_creds (us_crget newcr s)) (p_cred (us_proc (us_crget newcr s))) = KRet ((cur s)\<lparr>cr_ref := r\<rparr>)"
    using us_crget_cur [OF inv] .
  obtain s1 where s1: "and_suser True ((cur s)\<lparr>cr_ref := r\<rparr>) (us_crget newcr s) = (cr_uid (cur s) = 0, s1)" "acf (us_crget newcr s) s1"
    using and_suser_acf [of True "(cur s)\<lparr>cr_ref := r\<rparr>" "us_crget newcr s"] by auto
  show ?thesis
  proof (cases "cr_uid (cur s) = 0")
    case True
    let ?f = "\<lambda>c. c\<lparr>cr_gid := gid, cr_rgid := gid, cr_sgid := gid\<rparr>"
    have "ref_free ?f" "cred_wf (us_ngroups_max s) (?f (cur s))"
      using cur_wf [OF inv(1)] False by (auto simp: ref_free_def cred_wf_def)
    from switch_succeeds_same [OF inv s1(2) this] show ?thesis
      using False True r s1(1) by (simp add: setgid_def)
  next
    case nz: False
    let ?f = "\<lambda>c. c\<lparr>cr_gid := gid\<rparr>"
    have f: "ref_free ?f" "cred_wf (us_ngroups_max s) (?f (cur s))"
      using cur_wf [OF inv(1)] False by (auto simp: ref_free_def cred_wf_def)
    show ?thesis
      using switch_succeeds_same [OF inv acf_refl f, of False] False nz r
      by (simp add: setgid_def and_suser_def suser_def us_error_undoes [OF inv(2)] Let_def)
  qed
qed

lemma setegid_spec:
  assumes inv: "uid_inv ext others s" "us_creds s newcr = None"
  shows "if bad_id gid then setegid newcr gid s = KRet (Some EINVAL, s)
    else if gid \<in> {cr_rgid (cur s), cr_gid (cur s), cr_sgid (cur s)} \<or> cr_uid (cur s) = 0 then
      succeeds ext others s (\<lambda>c. c\<lparr>cr_gid := gid\<rparr>) (cr_gid (cur s) \<noteq> gid \<and> cr_uid (cur s) = 0) (setegid newcr gid s)
    else setegid newcr gid s = KRet (Some EPERM, s)"
proof (cases "bad_id gid")
  case True
  then show ?thesis by (simp add: setegid_def)
next
  case False
  obtain r where r: "cred_at (us_creds (us_crget newcr s)) (p_cred (us_proc (us_crget newcr s))) = KRet ((cur s)\<lparr>cr_ref := r\<rparr>)"
    using us_crget_cur [OF inv] .
  let ?c = "(cur s)\<lparr>cr_ref := r\<rparr>"
  define own where "own \<longleftrightarrow> gid = cr_rgid (cur s) \<or> gid = cr_gid (cur s) \<or> gid = cr_sgid (cur s)"
  define chg where "chg \<longleftrightarrow> cr_gid (cur s) \<noteq> gid"
  obtain s1 where s1: "and_suser (\<not> own) ?c (us_crget newcr s) = (\<not> own \<and> cr_uid (cur s) = 0, s1)" "acf (us_crget newcr s) s1"
    using and_suser_acf [of "\<not> own" ?c "us_crget newcr s"] by auto
  obtain s2 where s2: "and_suser chg ?c s1 = (chg \<and> cr_uid (cur s) = 0, s2)" "acf s1 s2"
    using and_suser_acf [of chg ?c s1] by auto
  have s12: "acf (us_crget newcr s) s2" by (rule acf_trans [OF s1(2) s2(2)])
  let ?f = "\<lambda>c. c\<lparr>cr_gid := gid\<rparr>"
  have f: "ref_free ?f" "cred_wf (us_ngroups_max s) (?f (cur s))"
    using cur_wf [OF inv(1)] False by (auto simp: ref_free_def cred_wf_def)
  have "setegid newcr gid s = (case and_suser (\<not> own) ?c (us_crget newcr s) of (su, s) \<Rightarrow>
      if own \<or> su then case and_suser chg ?c s of (n, s) \<Rightarrow> kbind (us_switch newcr ?f s) (us_commit n newcr)
      else us_error EPERM newcr s)"
    using False r by (simp add: setegid_def Let_def own_def chg_def cong: if_cong)
  also have "\<dots> = (if own \<or> cr_uid (cur s) = 0
      then kbind (us_switch newcr ?f s2) (us_commit (chg \<and> cr_uid (cur s) = 0) newcr) else us_error EPERM newcr s1)"
    unfolding s1(1) using s2(1) by simp
  finally have eq: "setegid newcr gid s = \<dots>" .
  show ?thesis
  proof (cases "own \<or> cr_uid (cur s) = 0")
    case True
    then have "gid \<in> {cr_rgid (cur s), cr_gid (cur s), cr_sgid (cur s)} \<or> cr_uid (cur s) = 0" by (auto simp: own_def)
    moreover have "succeeds ext others s ?f (chg \<and> cr_uid (cur s) = 0) (setegid newcr gid s)"
      using switch_succeeds_same [OF inv s12 f] eq True by simp
    ultimately show ?thesis using False by (simp only: chg_def if_True if_False)
  next
    case no: False
    then have "\<not> (gid \<in> {cr_rgid (cur s), cr_gid (cur s), cr_sgid (cur s)} \<or> cr_uid (cur s) = 0)" by (auto simp: own_def)
    moreover have "s1 = us_crget newcr s" using s1(1) no by (simp add: and_suser_def suser_def)
    then have "setegid newcr gid s = KRet (Some EPERM, s)" using eq no us_error_undoes [OF inv(2)] by simp
    ultimately show ?thesis using False by (simp only: if_False)
  qed
qed

lemma regid_update_wf:
  assumes "cred_wf n c" "rgid = - 1 \<or> \<not> bad_id rgid" "egid = - 1 \<or> \<not> bad_id egid"
  shows "cred_wf n (regid_update rgid egid c)" "ref_free (regid_update rgid egid)"
  using assms by (auto simp: cred_wf_def regid_update_def ref_free_def Let_def)

lemma regid_update_ref [simp]:
  "regid_update rgid egid (c\<lparr>cr_ref := r\<rparr>) = (regid_update rgid egid c)\<lparr>cr_ref := r\<rparr>"
  by (simp add: regid_update_def Let_def)

definition regid_perm :: "gid_t \<Rightarrow> gid_t \<Rightarrow> cred \<Rightarrow> bool" where
  "regid_perm rgid egid c \<longleftrightarrow> cr_uid c = 0 \<or>
     rgid \<in> {- 1, cr_rgid c, cr_gid c, cr_sgid c} \<and> egid \<in> {- 1, cr_rgid c, cr_gid c, cr_sgid c}"

definition gids_differ :: "cred \<Rightarrow> cred \<Rightarrow> bool" where
  "gids_differ c d \<longleftrightarrow> cr_gid c \<noteq> cr_gid d \<or> cr_rgid c \<noteq> cr_rgid d \<or> cr_sgid c \<noteq> cr_sgid d"

lemma setregid_spec:
  assumes inv: "uid_inv ext others s" "us_creds s newcr = None"
  shows "if (rgid \<noteq> - 1 \<and> bad_id rgid) \<or> (egid \<noteq> - 1 \<and> bad_id egid) then
      setregid newcr rgid egid s = KRet (Some EINVAL, s)
    else if regid_perm rgid egid (cur s) then
      succeeds ext others s (regid_update rgid egid)
        (gids_differ (cur s) (regid_update rgid egid (cur s)) \<and> cr_uid (cur s) = 0) (setregid newcr rgid egid s)
    else setregid newcr rgid egid s = KRet (Some EPERM, s)"
proof (cases "(rgid \<noteq> - 1 \<and> bad_id rgid) \<or> (egid \<noteq> - 1 \<and> bad_id egid)")
  case True
  then show ?thesis by (simp add: setregid_def)
next
  case False
  let ?f = "regid_update rgid egid" and ?p = "p_cred (us_proc s)" and ?s = "us_crget newcr s"
  obtain r where r: "cred_at (us_creds ?s) (p_cred (us_proc ?s)) = KRet ((cur s)\<lparr>cr_ref := r\<rparr>)"
    using us_crget_cur [OF inv] .
  have p: "p_cred (us_proc ?s) = ?p" by (simp add: us_crget_def)
  let ?c = "(cur s)\<lparr>cr_ref := r\<rparr>"
  define b1 where "b1 \<longleftrightarrow> rgid \<noteq> - 1 \<and> rgid \<noteq> cr_rgid (cur s) \<and> rgid \<noteq> cr_gid (cur s) \<and> rgid \<noteq> cr_sgid (cur s)"
  define b2 where "b2 \<longleftrightarrow> egid \<noteq> - 1 \<and> egid \<noteq> cr_rgid (cur s) \<and> egid \<noteq> cr_gid (cur s) \<and> egid \<noteq> cr_sgid (cur s)"
  define go where "go = (\<lambda>s1. kbind (us_crhold ?p s1) (\<lambda>s1.
     kbind (us_switch newcr ?f s1) (\<lambda>s1.
     kbind (cred_at (us_creds s1) ?p) (\<lambda>cr.
     kbind (cred_at (us_creds s1) newcr) (\<lambda>new.
       case and_suser (gids_differ cr new) cr s1 of (n, s1) \<Rightarrow>
       kbind (us_crfree ?p s1) (\<lambda>s1.
       kbind (us_recount None 0 0 s1) (us_commit n newcr)))))))"
  obtain s1 where s1: "and_not_suser b1 ?c ?s = (b1 \<and> cr_uid (cur s) \<noteq> 0, s1)" "acf ?s s1" "b1 \<and> cr_uid (cur s) \<noteq> 0 \<longrightarrow> s1 = ?s"
    using and_not_suser_acf [of b1 ?c ?s] by auto
  obtain s2 where s2: "and_not_suser b2 ?c s1 = (b2 \<and> cr_uid (cur s) \<noteq> 0, s2)" "acf s1 s2" "b2 \<and> cr_uid (cur s) \<noteq> 0 \<longrightarrow> s2 = s1"
    using and_not_suser_acf [of b2 ?c s1] by auto
  have "setregid newcr rgid egid s = (case and_not_suser b1 ?c ?s of (e, s) \<Rightarrow>
      if e then us_error EPERM newcr s
      else case and_not_suser b2 ?c s of (e, s) \<Rightarrow> if e then us_error EPERM newcr s else go s)"
    unfolding setregid_def if_not_P [OF False]
    using r by (simp add: Let_def b1_def b2_def go_def gids_differ_def p us_recount_def cong: if_cong)
  also have "\<dots> = (if b1 \<and> cr_uid (cur s) \<noteq> 0 then us_error EPERM newcr s1
      else if b2 \<and> cr_uid (cur s) \<noteq> 0 then us_error EPERM newcr s2 else go s2)"
    unfolding s1(1) prod.case s2(1) by (rule refl)
  finally have eq: "setregid newcr rgid egid s = \<dots>" .
  have perm: "regid_perm rgid egid (cur s) \<longleftrightarrow> \<not> (b1 \<and> cr_uid (cur s) \<noteq> 0) \<and> \<not> (b2 \<and> cr_uid (cur s) \<noteq> 0)"
    by (auto simp: regid_perm_def b1_def b2_def)
  show ?thesis
  proof (cases "regid_perm rgid egid (cur s)")
    case True
    have "succeeds ext others s ?f (gids_differ (cur s) (?f (cur s)) \<and> cr_uid (cur s) = 0) (go s2)"
      unfolding go_def
    proof (rule held_switch_succeeds [OF inv acf_trans [OF s1(2) s2(2)]])
      show "ref_free ?f" "cred_wf (us_ngroups_max s) (?f (cur s))"
        using regid_update_wf [OF cur_wf [OF inv(1)]] False by auto
      show "quiet None" by (simp add: quiet_def)
      show "0 = cr_ruid (cur s) \<and> 0 = cr_ruid (?f (cur s)) \<or> (0 :: uid_t) = 0 \<and> cr_ruid (?f (cur s)) = cr_ruid (cur s)"
        by (simp add: regid_update_def Let_def)
    qed (simp_all add: gids_differ_def)
    then show ?thesis using eq False True perm by (simp only: if_False if_True) simp
  next
    case no: False
    have "setregid newcr rgid egid s = us_error EPERM newcr ?s"
      using eq no perm s1(3) s2(3) acf_refl s2(1) s1(1) by (auto simp: and_not_suser_def suser_def split: if_splits)
    then show ?thesis using no False us_error_undoes [OF inv(2)] by simp
  qed
qed

section \<open>Supplementary groups\<close>

lemma bad_group_iff: "bad_group gs \<longleftrightarrow> (\<exists>g \<in> set gs. bad_id g)"
  by (induction gs) auto

lemma copyin_gids_length: "copyin_gids ugids n = Some gs \<Longrightarrow> length gs = n"
  by (auto simp: copyin_gids_def split: option.splits if_splits)

text \<open>The part of \<open>setgroups\<close> after the checks, on a process whose credentials are \<open>c\<close>.\<close>

lemma setgroups_install:
  assumes inv: "uid_inv ext others s" "us_creds s newcr = None" and s1: "acf (us_crget newcr s) s1"
    and h: "us_creds s (p_cred (us_proc s)) = Some c" and f: "ref_free f" "cred_wf (us_ngroups_max s) (f (cur s))" "cr_ruid (f (cur s)) = cr_ruid (cur s)"
  defines "s2 \<equiv> s1\<lparr>us_creds := (us_creds s1)(newcr \<mapsto> f (c\<lparr>cr_ref := 1\<rparr>)), us_proc := (us_proc s1)\<lparr>p_cred := newcr\<rparr>\<rparr>"
  shows "succeeds ext others s f False (kbind (us_crhold newcr s2) (\<lambda>s2.
    kbind (us_crfree (p_cred (us_proc s)) s2) (us_commit False newcr)))"
proof -
  let ?p = "p_cred (us_proc s)"
  have fe: "fetched ext newcr s1" using us_crget_fetched(1) [OF inv] s1 by (rule acf_fetched [rotated])
  have c1: "cur s1 = cur s" using us_crget_fetched(2) [OF inv] s1 by simp
  have cc: "cur s = c\<lparr>cr_ref := 0\<rparr>" using h by (simp add: cur_def cred_val_def)
  then have fc: "f (c\<lparr>cr_ref := 1\<rparr>) = (f (cur s))\<lparr>cr_ref := 1\<rparr>" "(f (cur s))\<lparr>cr_ref := 0\<rparr> = f (cur s)"
    using f(1) by (simp_all add: ref_free_def)
  have p1: "p_cred (us_proc s1) = ?p" using acf_fields(4) [OF s1] by (simp add: us_crget_def)
  have refs: "cred_refs (us_creds s1) (holds ext s1 + {#newcr#})" and nn: "newcr \<notin># holds ext s1"
    and wf: "creds_wf s1" using fe by (simp_all add: fetched_def)
  have cnt: "count (holds ext s1 + {#newcr#}) newcr = 1" using nn by (simp add: not_in_iff)
  have r2: "cred_refs (us_creds s2) (holds ext s1 + {#newcr#})"
    using cnt unfolding s2_def fc(1) by simp (rule cred_refs_upd [OF refs], simp_all add: not_in_iff)
  have "count (holds ext s1 + {#newcr#}) newcr + 1 < 2 ^ 32" using cnt by simp
  then obtain h3 where h3: "crhold (us_creds s2) newcr = KRet h3" "cred_refs h3 (holds ext s1 + {#newcr#} + {#newcr#})"
    "cred_val h3 = cred_val (us_creds s2)" using crhold_ok [OF r2, of newcr] by auto
  define s3 where "s3 = s2\<lparr>us_creds := h3\<rparr>"
  have e3: "us_crhold newcr s2 = KRet s3" using h3(1) by (simp add: us_crhold_def s3_def)
  have hold: "holds ext s1 + {#newcr#} + {#newcr#} = holds (ext + {#?p#}) s3 + {#newcr#}"
    using p1 by (simp add: holds_def proc_holds_def s3_def s2_def add_mset_commute)
  have v3: "cred_val h3 = (cred_val (us_creds s1))(newcr \<mapsto> f (cur s))"
    using h3(3) by (simp add: s2_def cred_val_upd fc)
  have "creds_wf s3" using wf v3 f(2) acf_fields(3) [OF s1] by (auto simp: creds_wf_def s3_def s2_def us_crget_def)
  then have "switched (ext + {#?p#}) newcr s3"
    using h3(2) fe unfolding hold by (simp add: switched_def fetched_def s3_def s2_def)
  from us_crfree_switched [OF this] obtain s4 where s4: "us_crfree ?p s3 = KRet s4" "switched ext newcr s4" "same_rest s3 s4"
    "cur s4 = cur s3" "p_flag (us_proc s4) = p_flag (us_proc s3)" by blast
  have "cur s3 = f (cur s)" using v3 by (simp add: cur_def) (simp add: s3_def s2_def)
  then have c4: "cur s4 = f (cur s)" using s4(4) by simp
  have fr: "us_upc s4 = us_upc s" "p_flag (us_proc s4) = p_flag (us_proc s)"
    "length (p_lwps (us_proc s4)) = length (p_lwps (us_proc s))"
    using s4(3,5) acf_fields [OF s1] by (simp_all add: same_rest_def us_crget_def s3_def s2_def)
  have "quiet None" by (simp add: quiet_def)
  from commit_succeeds [where f = f, OF inv(1) s4(2) c4 fr this refl f(3) [symmetric], of False]
  show ?thesis using e3 s4(1) by (simp add: us_recount_def)
qed

lemma setgroups_spec:
  fixes gidsetsize :: uint_t and ugids :: "gid_t list option"
  assumes inv: "uid_inv ext others s" "us_creds s newcr = None"
  defines "n \<equiv> (ucast gidsetsize :: ushort_t)"
  defines "groups \<equiv> if n \<noteq> 0 \<and> unat n \<le> us_ngroups_max s then copyin_gids ugids (unat n) else Some []"
  shows "if groups = None then setgroups newcr gidsetsize ugids s = KRet (Some EFAULT, s)
    else if cr_uid (cur s) \<noteq> 0 then setgroups newcr gidsetsize ugids s = KRet (Some EPERM, s)
    else if us_ngroups_max s < unat n \<or> (\<exists>g \<in> set (the groups). bad_id g) then
      \<exists>s'. setgroups newcr gidsetsize ugids s = KRet (Some EINVAL, s') \<and> acf s s'
    else succeeds ext others s
      (\<lambda>c. c\<lparr>cr_groups := the groups @ drop (unat n) (cr_groups c), cr_ngroups := ucast n\<rparr>) False
      (setgroups newcr gidsetsize ugids s)"
proof -
  have ng: "unat (of_nat (us_ngroups_max s) :: ushort_t) = us_ngroups_max s"
    using inv(1) by (simp add: uid_inv_def unat_of_nat)
  have le: "n \<le> of_nat (us_ngroups_max s) \<longleftrightarrow> unat n \<le> us_ngroups_max s"
    "of_nat (us_ngroups_max s) < n \<longleftrightarrow> us_ngroups_max s < unat n"
    by (simp_all only: word_le_nat_alt word_less_nat_alt ng)
  show ?thesis
  proof (cases groups)
    case None
    then show ?thesis unfolding setgroups_def Let_def n_def [symmetric] le groups_def [symmetric] by simp
  next
    case (Some gs)
    let ?s = "us_crget newcr s" and ?p = "p_cred (us_proc s)"
    have p: "p_cred (us_proc ?s) = ?p" by (simp add: us_crget_def)
    have nn: "?p \<noteq> newcr" using inv p_cred_held [of s ext] by (auto simp: uid_inv_def cred_refs_def dest: spec [of _ newcr])
    obtain r where r0: "cred_at (us_creds ?s) ?p = KRet ((cur s)\<lparr>cr_ref := r\<rparr>)" using us_crget_cur [OF inv] p by metis
    define c where "c = (cur s)\<lparr>cr_ref := r\<rparr>"
    have c: "cred_at (us_creds ?s) ?p = KRet c" using r0 by (simp add: c_def)
    then have hc: "us_creds s ?p = Some c" using nn by (auto simp: cred_at_def us_crget_def crget_def split: option.splits)
    have cu: "cr_uid c = cr_uid (cur s)" by (simp add: c_def)
    define rest where "rest = (\<lambda>s. if us_ngroups_max ?s < unat n then us_error EINVAL newcr s
       else kbind (crdup_to (us_creds s) ?p newcr) (\<lambda>h.
              kbind (us_update newcr (\<lambda>c. c\<lparr>cr_groups := gs @ drop (unat n) (cr_groups c)\<rparr>) (s\<lparr>us_creds := h\<rparr>)) (\<lambda>s.
              kbind (cred_at (us_creds s) newcr) (\<lambda>new.
                if bad_group (take (unat n) (cr_groups new)) then us_error EINVAL newcr s
                else
                  kbind (us_update newcr (\<lambda>c. c\<lparr>cr_ngroups := ucast n\<rparr>) s) (\<lambda>s.
                  let s = s\<lparr>us_proc := (us_proc s)\<lparr>p_cred := newcr\<rparr>\<rparr> in
                  kbind (us_crhold newcr s) (\<lambda>s.
                  kbind (us_crfree ?p s) (us_commit False newcr)))))))"
    have ngs: "us_ngroups_max ?s = us_ngroups_max s" by (simp add: us_crget_def)
    have eq: "setgroups newcr gidsetsize ugids s =
        (case and_not_suser True c ?s of (e, s) \<Rightarrow> if e then us_error EPERM newcr s else rest s)"
      unfolding setgroups_def Let_def n_def [symmetric] le groups_def [symmetric] Some option.case p c kbind.simps rest_def ngs
      by (rule refl)
    show ?thesis
    proof (cases "cr_uid (cur s) = 0")
      case False
      then have "setgroups newcr gidsetsize ugids s = us_error EPERM newcr ?s" using eq cu by (simp add: and_not_suser_def suser_def)
      then show ?thesis using Some False us_error_undoes [OF inv(2)] by simp
    next
      case su: True
      obtain s1 where s1: "and_not_suser True c ?s = (False, s1)" "acf ?s s1" using and_not_suser_acf [of True c ?s] su cu by auto
      have es: "setgroups newcr gidsetsize ugids s = rest s1" using eq s1(1) by simp
      obtain w where w: "s1 = ?s\<lparr>us_proc := (us_proc s)\<lparr>u_acflag := w\<rparr>\<rparr>" using s1(2) by (auto simp: acf_def us_crget_def)
      define t where "t = s\<lparr>us_proc := (us_proc s)\<lparr>u_acflag := w\<rparr>\<rparr>"
      have st: "acf s t" unfolding t_def acf_def by blast
      have s1t: "s1 = us_crget newcr t" by (simp add: w t_def us_crget_def)
      have tn: "us_creds t newcr = None" using inv(2) by (simp add: t_def)
      let ?g = "\<lambda>c. c\<lparr>cr_groups := gs @ drop (unat n) (cr_groups c)\<rparr>"
      have dup: "crdup_to (us_creds s1) ?p newcr = KRet ((us_creds s1)(newcr \<mapsto> c\<lparr>cr_ref := 1\<rparr>))"
        using nn hc by (simp add: w us_crget_def crget_def crdup_to_def cr_bcopy_def cr_setref_def cred_at_def)
      show ?thesis
      proof (cases "us_ngroups_max s < unat n")
        case True
        then have "setgroups newcr gidsetsize ugids s = KRet (Some EINVAL, t)"
          using es us_error_undoes [OF tn] by (simp add: rest_def s1t ngs)
        then show ?thesis using Some su True st by auto
      next
        case small: False
        have gl: "length gs = unat n"
          using Some small copyin_gids_length [of ugids "unat n" gs] by (auto simp: groups_def split: if_splits)
        define s2 where "s2 = s1\<lparr>us_creds := (us_creds s1)(newcr \<mapsto> ?g (c\<lparr>cr_ref := 1\<rparr>))\<rparr>"
        have rs: "rest s1 = (if bad_group gs then us_error EINVAL newcr s2
            else kbind (us_update newcr (\<lambda>c. c\<lparr>cr_ngroups := ucast n\<rparr>) s2) (\<lambda>s.
                  let s = s\<lparr>us_proc := (us_proc s)\<lparr>p_cred := newcr\<rparr>\<rparr> in
                  kbind (us_crhold newcr s) (\<lambda>s. kbind (us_crfree ?p s) (us_commit False newcr))))"
          using small dup gl by (simp add: rest_def ngs us_update_def cred_at_def s2_def)
        show ?thesis
        proof (cases "bad_group gs")
          case True
          have "us_error EINVAL newcr s2 = KRet (Some EINVAL, t)"
            using tn by (simp add: us_error_def us_crfree_def crfree_def s2_def s1t us_crget_def crget_def cred_at_def fun_upd_idem)
          then have "setgroups newcr gidsetsize ugids s = KRet (Some EINVAL, t)" using es rs True by simp
          then show ?thesis using Some su True st by (auto simp: bad_group_iff)
        next
          case False
          let ?f = "\<lambda>c. c\<lparr>cr_groups := gs @ drop (unat n) (cr_groups c), cr_ngroups := ucast n\<rparr>"
          have "ref_free ?f" by (simp add: ref_free_def)
          moreover have un: "unat (ucast n :: uint_t) = unat n" using unat_bound [of n] by (intro unat_ucast_small) simp
          have "cred_wf (us_ngroups_max s) (?f (cur s))"
            using cur_wf [OF inv(1)] gl small False by (auto simp: cred_wf_def bad_group_iff un)
          ultimately have "succeeds ext others s ?f False (rest s1)"
            using setgroups_install [OF inv s1(2) hc, of ?f] False rs
            by (simp add: us_update_def cred_at_def s2_def Let_def)
          then show ?thesis using es Some su small False by (simp add: bad_group_iff)
        qed
      qed
    qed
  qed
qed

end
