(* ===== verification/Uid_Runs.thy ===== *)
theory Uid_Runs
  imports Uid
begin

text \<open>
  The calls of \<^verbatim>\<open>Uid\<close> together: their refinement of a reference on bare credentials, and the
  runs of a process whose threads make them.
\<close>

section \<open>The calls against a reference on bare credentials\<close>

datatype uid_call =
    Setuid uid_t | Seteuid uid_t | Setreuid uid_t uid_t
  | Setgid gid_t | Setegid gid_t | Setregid gid_t gid_t
  | Setgroups uint_t "gid_t list option"

fun do_call :: "cred_ptr \<Rightarrow> (upc_table \<Rightarrow> upc_table) option \<Rightarrow> uid_call \<Rightarrow> uidsys \<Rightarrow> (errno option \<times> uidsys) kres" where
  "do_call newcr interv (Setuid uid) s = setuid newcr interv uid s"
| "do_call newcr interv (Seteuid uid) s = seteuid newcr uid s"
| "do_call newcr interv (Setreuid ruid euid) s = setreuid newcr interv ruid euid s"
| "do_call newcr interv (Setgid gid) s = setgid newcr gid s"
| "do_call newcr interv (Setegid gid) s = setegid newcr gid s"
| "do_call newcr interv (Setregid rgid egid) s = setregid newcr rgid egid s"
| "do_call newcr interv (Setgroups n ugids) s = setgroups newcr n ugids s"

text \<open>
  The reference: an error, or the new ids and whether the process may no longer dump core.
  It knows nothing of sharing, reference counts, threads or user counts.
\<close>

definition groups_arg :: "nat \<Rightarrow> uint_t \<Rightarrow> gid_t list option \<Rightarrow> gid_t list option" where
  "groups_arg ngmax n ugids =
     (let k = unat (ucast n :: ushort_t) in if k \<noteq> 0 \<and> k \<le> ngmax then copyin_gids ugids k else Some [])"

fun call_spec :: "nat \<Rightarrow> uid_call \<Rightarrow> cred \<Rightarrow> errno + cred \<times> bool" where
  "call_spec ngmax (Setuid uid) c =
     (if bad_id uid then Inl EINVAL
      else if cr_uid c = 0 then
        let d = c\<lparr>cr_ruid := uid, cr_suid := uid, cr_uid := uid\<rparr> in Inr (d, uids_differ c d)
      else if uid = cr_ruid c \<or> uid = cr_suid c then Inr (c\<lparr>cr_uid := uid\<rparr>, False)
      else Inl EPERM)"
| "call_spec ngmax (Seteuid uid) c =
     (if bad_id uid then Inl EINVAL
      else if uid \<in> {cr_ruid c, cr_uid c, cr_suid c} \<or> cr_uid c = 0
        then Inr (c\<lparr>cr_uid := uid\<rparr>, cr_uid c \<noteq> uid \<and> cr_uid c = 0)
      else Inl EPERM)"
| "call_spec ngmax (Setreuid ruid euid) c =
     (if (ruid \<noteq> - 1 \<and> bad_id ruid) \<or> (euid \<noteq> - 1 \<and> bad_id euid) then Inl EINVAL
      else if reuid_perm ruid euid c
        then let d = reuid_update ruid euid c in Inr (d, uids_differ c d \<and> cr_uid c = 0)
      else Inl EPERM)"
| "call_spec ngmax (Setgid gid) c =
     (if bad_id gid then Inl EINVAL
      else if cr_uid c = 0 then
        let d = c\<lparr>cr_gid := gid, cr_rgid := gid, cr_sgid := gid\<rparr> in Inr (d, gids_differ c d)
      else if gid = cr_rgid c \<or> gid = cr_sgid c then Inr (c\<lparr>cr_gid := gid\<rparr>, False)
      else Inl EPERM)"
| "call_spec ngmax (Setegid gid) c =
     (if bad_id gid then Inl EINVAL
      else if gid \<in> {cr_rgid c, cr_gid c, cr_sgid c} \<or> cr_uid c = 0
        then Inr (c\<lparr>cr_gid := gid\<rparr>, cr_gid c \<noteq> gid \<and> cr_uid c = 0)
      else Inl EPERM)"
| "call_spec ngmax (Setregid rgid egid) c =
     (if (rgid \<noteq> - 1 \<and> bad_id rgid) \<or> (egid \<noteq> - 1 \<and> bad_id egid) then Inl EINVAL
      else if regid_perm rgid egid c
        then let d = regid_update rgid egid c in Inr (d, gids_differ c d \<and> cr_uid c = 0)
      else Inl EPERM)"
| "call_spec ngmax (Setgroups n ugids) c =
     (case groups_arg ngmax n ugids of
        None \<Rightarrow> Inl EFAULT
      | Some gs \<Rightarrow>
          let k = (ucast n :: ushort_t) in
          if cr_uid c \<noteq> 0 then Inl EPERM
          else if ngmax < unat k \<or> (\<exists>g \<in> set gs. bad_id g) then Inl EINVAL
          else Inr (c\<lparr>cr_groups := gs @ drop (unat k) (cr_groups c), cr_ngroups := ucast k\<rparr>, False))"

definition implements :: "cred_ptr multiset \<Rightarrow> uid_t multiset \<Rightarrow> uidsys \<Rightarrow> errno + cred \<times> bool \<Rightarrow> (errno option \<times> uidsys) kres \<Rightarrow> bool" where
  "implements ext others s spec r \<longleftrightarrow>
     (case spec of
        Inl e \<Rightarrow> \<exists>s'. r = KRet (Some e, s') \<and> acf s s'
      | Inr (c, nocd) \<Rightarrow> \<exists>s'. r = KRet (None, s') \<and> uid_inv ext others s' \<and> cur s' = c \<and>
          p_flag (us_proc s') = (if nocd then p_flag (us_proc s) OR NOCD else p_flag (us_proc s)))"

lemma implements_Inr: "succeeds ext others s f nocd r \<Longrightarrow> c = f (cur s) \<Longrightarrow> implements ext others s (Inr (c, nocd)) r"
  by (simp add: implements_def succeeds_def)

lemma implements_Inl: "r = KRet (Some e, s) \<Longrightarrow> implements ext others s (Inl e) r"
  by (simp add: implements_def)

lemma do_call_implements:
  assumes inv: "uid_inv ext others s" "us_creds s newcr = None" and q: "quiet interv"
  shows "implements ext others s (call_spec (us_ngroups_max s) c (cur s)) (do_call newcr interv c s)"
proof (cases c)
  case (Setuid uid)
  then show ?thesis using setuid_spec [OF inv q, of uid]
    by (auto simp: uids_differ_def split: if_splits intro: implements_Inr implements_Inl)
next
  case (Seteuid uid)
  then show ?thesis using seteuid_spec [OF inv, of uid]
    by (simp split: if_splits) (auto intro: implements_Inr implements_Inl)
next
  case (Setreuid ruid euid)
  then show ?thesis using setreuid_spec [OF inv q, of ruid euid]
    by (simp split: if_splits add: Let_def) (auto intro: implements_Inr implements_Inl)
next
  case (Setgid gid)
  then show ?thesis using setgid_spec [OF inv, of gid]
    by (auto simp: gids_differ_def split: if_splits intro: implements_Inr implements_Inl)
next
  case (Setegid gid)
  then show ?thesis using setegid_spec [OF inv, of gid]
    by (simp split: if_splits) (auto intro: implements_Inr implements_Inl)
next
  case (Setregid rgid egid)
  then show ?thesis using setregid_spec [OF inv, of rgid egid]
    by (simp split: if_splits add: Let_def) (auto intro: implements_Inr implements_Inl)
next
  case (Setgroups n ugids)
  have g: "groups_arg (us_ngroups_max s) n ugids =
      (if (ucast n :: ushort_t) \<noteq> 0 \<and> unat (ucast n :: ushort_t) \<le> us_ngroups_max s
       then copyin_gids ugids (unat (ucast n :: ushort_t)) else Some [])"
    by (simp add: groups_arg_def Let_def unat_eq_zero)
  show ?thesis
  proof (cases "groups_arg (us_ngroups_max s) n ugids")
    case None
    then show ?thesis using Setgroups setgroups_spec [OF inv, of n ugids, folded g] by (simp add: implements_def)
  next
    case (Some gs)
    note sp = setgroups_spec [OF inv, of n ugids, folded g, unfolded Some option.sel]
    show ?thesis
    proof (cases "cr_uid (cur s) = 0 \<and> \<not> (us_ngroups_max s < unat (ucast n :: ushort_t) \<or> (\<exists>g \<in> set gs. bad_id g))")
      case True
      then show ?thesis using Setgroups Some sp by (simp add: Let_def) (rule implements_Inr, assumption, simp)
    next
      case False
      then show ?thesis using Setgroups Some sp by (auto simp: implements_def Let_def)
    qed
  qed
qed

lemma acf_inv: "acf s s' \<Longrightarrow> uid_inv ext others s \<Longrightarrow> uid_inv ext others s'"
  by (simp add: uid_inv_def acf_fields creds_wf_def threads_marked_def)

section \<open>Entry to a system call\<close>

lemma pre_syscall_ok:
  assumes inv: "uid_inv ext others s"
  shows "\<exists>s'. pre_syscall_cred s = KRet s' \<and> uid_inv ext others s' \<and> cur s' = cur s \<and>
    (\<exists>t ts. p_lwps (us_proc s') = t # ts \<and> t_cred t = p_cred (us_proc s'))"
proof -
  obtain t ts where ts: "p_lwps (us_proc s) = t # ts" using inv by (auto simp: uid_inv_def threads_marked_def neq_Nil_conv)
  have refs: "cred_refs (us_creds s) (holds ext s)" using inv by (simp add: uid_inv_def)
  let ?p = "p_cred (us_proc s)"
  show ?thesis
  proof (cases "t_cred t = ?p")
    case True
    let ?s = "s\<lparr>us_proc := (us_proc s)\<lparr>p_lwps := t\<lparr>t_pre_sys := False\<rparr> # ts\<rparr>\<rparr>"
    have "holds ext ?s = holds ext s" using ts by (simp add: holds_def proc_holds_def)
    moreover have c: "cur ?s = cur s" by (simp add: cur_def)
    ultimately have "uid_inv ext others ?s"
      using inv ts True by (auto simp: uid_inv_def threads_marked_def creds_wf_def)
    then show ?thesis using ts True c by (simp add: pre_syscall_cred_def)
  next
    case False
    have in_s: "t_cred t \<in># holds ext s" using ts by (simp add: holds_def proc_holds_def)
    obtain h1 where h1: "crfree (us_creds s) (t_cred t) = KRet h1" "cred_refs h1 (holds ext s - {#t_cred t#})"
      "cred_val h1 = (if t_cred t \<in># holds ext s - {#t_cred t#} then cred_val (us_creds s) else (cred_val (us_creds s))(t_cred t := None))"
      using crfree_ok [OF refs in_s] by blast
    have pin: "?p \<in># holds ext s - {#t_cred t#}" using False p_cred_held [of s ext] by (simp add: in_diff_count)
    have "count (holds ext s - {#t_cred t#}) ?p + 1 < 2 ^ 32"
      using count_holds [of ext s ?p] inv False by (simp add: uid_inv_def)
    from crhold_ok [OF h1(2) pin this] obtain h2 where h2: "crhold h1 ?p = KRet h2"
      "cred_refs h2 (holds ext s - {#t_cred t#} + {#?p#})" "cred_val h2 = cred_val h1" by blast
    define s' where "s' = s\<lparr>us_creds := h2, us_proc := (us_proc s)\<lparr>p_lwps := t\<lparr>t_pre_sys := False, t_cred := ?p\<rparr> # ts\<rparr>\<rparr>"
    have "pre_syscall_cred s = KRet s'"
      using ts False h1(1) h2(1) by (simp add: pre_syscall_cred_def us_crfree_def crgetcred_def s'_def)
    moreover have hs: "holds ext s' = holds ext s - {#t_cred t#} + {#?p#}"
      using ts by (simp add: holds_def proc_holds_def s'_def add_mset_commute)
    moreover have "cred_val h2 ?p = cred_val (us_creds s) ?p" using h1(3) h2(3) pin by (auto split: if_splits)
    then have cu: "cur s' = cur s" by (simp add: cur_def s'_def)
    moreover have "creds_wf s'" using inv h1(3) h2(3) by (auto simp: uid_inv_def creds_wf_def s'_def split: if_splits)
    then have "uid_inv ext others s'"
      using inv h2(2) hs cu ts unfolding uid_inv_def by (auto simp: threads_marked_def s'_def)
    ultimately show ?thesis by (intro exI [of _ s']) (simp add: s'_def)
  qed
qed

section \<open>Runs\<close>

text \<open>
  What the threads of a process do to the state: a call of the current thread, the entry to a
  system call, and a switch to the next thread.
\<close>

inductive uid_step :: "uidsys \<Rightarrow> uidsys \<Rightarrow> bool" where
  call: "do_call newcr interv c s = KRet (e, s') \<Longrightarrow> us_creds s newcr = None \<Longrightarrow> quiet interv \<Longrightarrow> uid_step s s'"
| enter: "pre_syscall_cred s = KRet s' \<Longrightarrow> uid_step s s'"
| resume: "p_lwps (us_proc s) = t # ts \<Longrightarrow> uid_step s (s\<lparr>us_proc := (us_proc s)\<lparr>p_lwps := ts @ [t]\<rparr>\<rparr>)"

lemma do_call_cases:
  assumes "do_call newcr interv c s = KRet (e, s')" "uid_inv ext others s" "us_creds s newcr = None" "quiet interv"
  shows "acf s s' \<or> uid_inv ext others s' \<and> (\<exists>nocd. call_spec (us_ngroups_max s) c (cur s) = Inr (cur s', nocd))"
  using do_call_implements [OF assms(2-4), of c] assms(1)
  by (cases "call_spec (us_ngroups_max s) c (cur s)") (auto simp: implements_def)

lemma resume_inv:
  assumes "uid_inv ext others s" "p_lwps (us_proc s) = t # ts"
  defines "s' \<equiv> s\<lparr>us_proc := (us_proc s)\<lparr>p_lwps := ts @ [t]\<rparr>\<rparr>"
  shows "uid_inv ext others s'" "cur s' = cur s"
proof -
  have "holds ext s' = holds ext s" using assms(2) by (simp add: holds_def proc_holds_def s'_def)
  moreover show "cur s' = cur s" by (simp add: cur_def s'_def)
  ultimately show "uid_inv ext others s'"
    using assms(1,2) by (auto simp: uid_inv_def threads_marked_def creds_wf_def s'_def)
qed

lemma uid_step_inv:
  assumes "uid_step s s'" "uid_inv ext others s"
  shows "uid_inv ext others s'"
  using assms(1)
proof cases
  case (call newcr interv c e)
  then show ?thesis using do_call_cases [OF call(1) assms(2) call(2,3)] acf_inv assms(2) by blast
next
  case enter
  then show ?thesis using pre_syscall_ok [OF assms(2)] by auto
next
  case (resume t ts)
  then show ?thesis using resume_inv(1) [OF assms(2) resume(2)] by simp
qed

text \<open>The ids an unprivileged process can reach.\<close>

definition uids :: "cred \<Rightarrow> uid_t set" where
  "uids c = {cr_uid c, cr_ruid c, cr_suid c}"

definition gids :: "cred \<Rightarrow> gid_t set" where
  "gids c = {cr_gid c, cr_rgid c, cr_sgid c}"

lemma call_spec_confined:
  assumes "call_spec ngmax k c = Inr (d, nocd)" "cr_uid c \<noteq> 0"
  shows "uids d \<subseteq> uids c" "gids d \<subseteq> gids c" "cr_groups d = cr_groups c" "cr_ngroups d = cr_ngroups c"
  using assms
  by (cases k; auto simp: uids_def gids_def reuid_update_def regid_update_def reuid_perm_def regid_perm_def Let_def
      split: if_splits option.splits)+

lemma uid_step_confined:
  assumes "uid_step s s'" "uid_inv ext others s" "cr_uid (cur s) \<noteq> 0"
  shows "uids (cur s') \<subseteq> uids (cur s) \<and> gids (cur s') \<subseteq> gids (cur s) \<and>
    cr_groups (cur s') = cr_groups (cur s) \<and> cr_ngroups (cur s') = cr_ngroups (cur s)"
  using assms(1)
proof cases
  case (call newcr interv c e)
  from do_call_cases [OF call(1) assms(2) call(2,3)] show ?thesis
  proof
    assume "acf s s'"
    then show ?thesis by simp
  next
    assume "uid_inv ext others s' \<and> (\<exists>nocd. call_spec (us_ngroups_max s) c (cur s) = Inr (cur s', nocd))"
    then obtain nocd where "call_spec (us_ngroups_max s) c (cur s) = Inr (cur s', nocd)" by blast
    from call_spec_confined [OF this assms(3)] show ?thesis by blast
  qed
next
  case enter
  then show ?thesis using pre_syscall_ok [OF assms(2)] by auto
next
  case (resume t ts)
  then show ?thesis using resume_inv(2) [OF assms(2) resume(2)] by simp
qed

lemma uid_steps_confined:
  assumes "uid_step\<^sup>*\<^sup>* s s'" "uid_inv ext others s" "0 \<notin> uids (cur s)"
  shows "uid_inv ext others s' \<and> uids (cur s') \<subseteq> uids (cur s) \<and> gids (cur s') \<subseteq> gids (cur s) \<and>
    cr_groups (cur s') = cr_groups (cur s) \<and> cr_ngroups (cur s') = cr_ngroups (cur s)"
  using assms(1)
proof (induction rule: rtranclp_induct)
  case base
  then show ?case using assms(2) by simp
next
  case (step s1 s2)
  have "cr_uid (cur s1) \<in> uids (cur s1)" by (simp add: uids_def)
  then have "cr_uid (cur s1) \<noteq> 0" using step.IH assms(3) by auto
  then have "uids (cur s2) \<subseteq> uids (cur s1) \<and> gids (cur s2) \<subseteq> gids (cur s1) \<and>
    cr_groups (cur s2) = cr_groups (cur s1) \<and> cr_ngroups (cur s2) = cr_ngroups (cur s1)"
    using uid_step_confined [OF step.hyps(2)] step.IH by blast
  moreover have "uid_inv ext others s2" using uid_step_inv [OF step.hyps(2)] step.IH by blast
  ultimately show ?case using step.IH by auto
qed

section \<open>Properties\<close>

text \<open>A state to run the calls on: one process of two threads, with ordinary credentials.\<close>

definition sample_cred :: "uid_t \<Rightarrow> cred" where
  "sample_cred u = \<lparr>cr_ref = 3, cr_uid = u, cr_gid = 10, cr_ruid = u, cr_rgid = 10, cr_suid = u, cr_sgid = 10,
     cr_ngroups = 1, cr_groups = [10, 0]\<rparr>"

definition sample_sys :: "uid_t \<Rightarrow> uidsys" where
  "sample_sys u = \<lparr>us_creds = Map.empty(1 \<mapsto> sample_cred u),
     us_proc = \<lparr>p_cred = 1, p_flag = 0, p_lwps = [\<lparr>t_cred = 1, t_pre_sys = False\<rparr>, \<lparr>t_cred = 1, t_pre_sys = False\<rparr>],
       u_acflag = 0\<rparr>,
     us_upc = \<lparr>upc_hash = [[\<lparr>up_uid = u, up_count = 1\<rparr>]], upc_hashmask = 0\<rparr>, us_ngroups_max = 2\<rparr>"

lemma sample_inv:
  assumes "\<not> bad_id u"
  shows "uid_inv {#} {#} (sample_sys u)"
proof -
  have v: "cred_val (us_creds (sample_sys u)) = Map.empty(1 \<mapsto> (sample_cred u)\<lparr>cr_ref := 0\<rparr>)"
    by (auto simp: sample_sys_def cred_val_def)
  have c: "cur (sample_sys u) = (sample_cred u)\<lparr>cr_ref := 0\<rparr>" by (simp add: cur_def v) (simp add: sample_sys_def)
  have h: "UPC_HASH (us_upc (sample_sys u)) w = 0" for w by (simp add: UPC_HASH_def sample_sys_def)
  have "upc_wf (us_upc (sample_sys u))"
    unfolding upc_wf_def by (auto simp: sample_sys_def chain_wf_def UPC_HASH_def intro!: exI [of _ 0])
  moreover have "upc_count (us_upc (sample_sys u)) = count {#u#}"
    by (rule ext) (simp add: upc_count_def h, simp add: sample_sys_def)
  ultimately have "upc.census (us_upc (sample_sys u)) {#u#}" by (simp add: upc.census_def)
  moreover have "creds_wf (sample_sys u)"
    using assms unfolding creds_wf_def v by (auto simp: cred_wf_def sample_cred_def sample_sys_def bad_id_def MAXUID_def)
  moreover have "cred_refs (us_creds (sample_sys u)) (holds {#} (sample_sys u))"
    by (auto simp: cred_refs_def sample_sys_def sample_cred_def holds_def proc_holds_def)
  ultimately show ?thesis unfolding uid_inv_def c
    by (simp add: threads_marked_def) (simp add: sample_sys_def sample_cred_def)
qed

lemma sample_cur: "cur (sample_sys u) = (sample_cred u)\<lparr>cr_ref := 0\<rparr>"
  by (simp add: cur_def cred_val_def sample_sys_def)

text \<open>
  C3.  The seven calls that change the ids of a process implement the reference on bare
  credentials.  When the reference gives an error, the call returns it and changes nothing but
  the accounting flag; otherwise the call returns 0, the process has the new ids, it is barred
  from dumping core exactly as the reference says, and the reference counts, the marks of the
  threads and the user counts are right again.
\<close>
theorem id_calls_refine:
  assumes "uid_inv ext others s" "us_creds s newcr = None" "quiet interv"
  shows "case call_spec (us_ngroups_max s) c (cur s) of
      Inl e \<Rightarrow> \<exists>s'. do_call newcr interv c s = KRet (Some e, s') \<and> acf s s'
    | Inr (d, nocd) \<Rightarrow> \<exists>s'. do_call newcr interv c s = KRet (None, s') \<and> uid_inv ext others s' \<and> cur s' = d \<and>
        p_flag (us_proc s') = (if nocd then p_flag (us_proc s) OR NOCD else p_flag (us_proc s))"
  using do_call_implements [OF assms, of c] unfolding implements_def .

theorem id_calls_refine_witness:
  "case call_spec 2 (Setuid 5) (cur (sample_sys 0)) of
      Inl e \<Rightarrow> \<exists>s'. do_call 9 None (Setuid 5) (sample_sys 0) = KRet (Some e, s') \<and> acf (sample_sys 0) s'
    | Inr (d, nocd) \<Rightarrow> \<exists>s'. do_call 9 None (Setuid 5) (sample_sys 0) = KRet (None, s') \<and> uid_inv {#} {#} s' \<and> cur s' = d \<and>
        p_flag (us_proc s') = (if nocd then p_flag (us_proc (sample_sys 0)) OR NOCD else p_flag (us_proc (sample_sys 0)))"
proof -
  have "uid_inv {#} {#} (sample_sys 0)" by (rule sample_inv) (simp add: bad_id_def MAXUID_def)
  moreover have "us_creds (sample_sys 0) 9 = None" "us_ngroups_max (sample_sys 0) = 2" by (simp_all add: sample_sys_def)
  moreover have "quiet None" by (simp add: quiet_def)
  ultimately show ?thesis using id_calls_refine [of "{#}" "{#}" "sample_sys 0" 9 None "Setuid 5"] by simp
qed

text \<open>
  C7.  Along every run of calls, entries and thread switches, each credential structure has as
  many references as holders, every id in use is non-negative, a thread with outdated
  credentials is marked to renew them, and the user counts include the process under its real
  user id.
\<close>
theorem id_runs_invariant:
  assumes "uid_step\<^sup>*\<^sup>* s s'" "uid_inv ext others s"
  shows "uid_inv ext others s'"
  using assms by (induction rule: rtranclp_induct) (auto intro: uid_step_inv)

theorem id_runs_invariant_witness:
  "\<exists>s'. do_call 9 None (Setuid 5) (sample_sys 0) = KRet (None, s') \<and> uid_inv {#} {#} s'"
proof -
  have inv: "uid_inv {#} {#} (sample_sys 0)" by (rule sample_inv) (simp add: bad_id_def MAXUID_def)
  have n: "us_creds (sample_sys 0) 9 = None" by (simp add: sample_sys_def)
  have q: "quiet None" by (simp add: quiet_def)
  obtain s' where s': "do_call 9 None (Setuid 5) (sample_sys 0) = KRet (None, s')"
    using do_call_implements [OF inv n q, of "Setuid 5"]
    by (auto simp: implements_def sample_cur sample_cred_def bad_id_def MAXUID_def Let_def)
  then have "uid_step (sample_sys 0) s'" using n q by (rule uid_step.call)
  then have "uid_step\<^sup>*\<^sup>* (sample_sys 0) s'" by blast
  from id_runs_invariant [OF this inv] show ?thesis using s' by blast
qed

text \<open>
  C6.  A process none of whose user ids is 0 never acquires an id: along every run its user ids
  and group ids stay among those it started with, and its supplementary groups stay the same.
\<close>
theorem unprivileged_ids_confined:
  assumes "uid_step\<^sup>*\<^sup>* s s'" "uid_inv ext others s" "0 \<notin> uids (cur s)"
  shows "uids (cur s') \<subseteq> uids (cur s) \<and> gids (cur s') \<subseteq> gids (cur s) \<and>
    cr_groups (cur s') = cr_groups (cur s) \<and> cr_ngroups (cur s') = cr_ngroups (cur s)"
  using uid_steps_confined [OF assms] by blast

theorem unprivileged_ids_confined_witness:
  "\<exists>s'. do_call 9 None (Setregid 10 (- 1)) (sample_sys 7) = KRet (None, s') \<and>
     uids (cur s') \<subseteq> uids (cur (sample_sys 7)) \<and> gids (cur s') \<subseteq> gids (cur (sample_sys 7)) \<and>
     cr_groups (cur s') = cr_groups (cur (sample_sys 7)) \<and> cr_ngroups (cur s') = cr_ngroups (cur (sample_sys 7))"
proof -
  have inv: "uid_inv {#} {#} (sample_sys 7)" by (rule sample_inv) (simp add: bad_id_def MAXUID_def)
  have n: "us_creds (sample_sys 7) 9 = None" by (simp add: sample_sys_def)
  have q: "quiet None" by (simp add: quiet_def)
  have "\<exists>d nocd. call_spec (us_ngroups_max (sample_sys 7)) (Setregid 10 (- 1)) (cur (sample_sys 7)) = Inr (d, nocd)"
    by (simp add: sample_cur sample_cred_def regid_perm_def bad_id_def MAXUID_def Let_def)
      (rule exI [of _ False], simp)
  then obtain s' where s': "do_call 9 None (Setregid 10 (- 1)) (sample_sys 7) = KRet (None, s')"
    using do_call_implements [OF inv n q, of "Setregid 10 (- 1)"] by (auto simp: implements_def)
  then have "uid_step (sample_sys 7) s'" using n q by (rule uid_step.call)
  then have st: "uid_step\<^sup>*\<^sup>* (sample_sys 7) s'" by blast
  have "0 \<notin> uids (cur (sample_sys 7))" by (simp add: uids_def sample_cur sample_cred_def)
  from unprivileged_ids_confined [OF st inv this] show ?thesis using s' by blast
qed

text \<open>
  C33.  After the entry to a system call the current thread sees the ids of its process, even if
  another thread changed them since its last call: \<open>getuid\<close> and \<open>getgid\<close> return them.
\<close>
theorem pre_syscall_refreshes:
  assumes "uid_inv ext others s"
  shows "\<exists>s'. pre_syscall_cred s = KRet s' \<and> uid_inv ext others s' \<and> cur s' = cur s \<and>
    getuid s' = KRet (cr_ruid (cur s), cr_uid (cur s)) \<and> getgid s' = KRet (cr_rgid (cur s), cr_gid (cur s))"
proof -
  obtain s' t ts where s': "pre_syscall_cred s = KRet s'" "uid_inv ext others s'" "cur s' = cur s"
    "p_lwps (us_proc s') = t # ts" "t_cred t = p_cred (us_proc s')"
    using pre_syscall_ok [OF assms] by blast
  have "cred_val (us_creds s') (p_cred (us_proc s')) = Some (cur s')"
    using s'(2) p_cred_held [of s' ext] by (intro cur_val [of _ "holds ext s'"]) (simp_all add: uid_inv_def)
  then obtain r where "cred_at (us_creds s') (p_cred (us_proc s')) = KRet ((cur s')\<lparr>cr_ref := r\<rparr>)" by (rule cred_at_val)
  then show ?thesis using s' by (simp add: getuid_def getgid_def)
qed

theorem pre_syscall_refreshes_witness:
  "\<exists>s'. pre_syscall_cred (sample_sys 7) = KRet s' \<and> uid_inv {#} {#} s' \<and> cur s' = cur (sample_sys 7) \<and>
    getuid s' = KRet (cr_ruid (cur (sample_sys 7)), cr_uid (cur (sample_sys 7))) \<and>
    getgid s' = KRet (cr_rgid (cur (sample_sys 7)), cr_gid (cur (sample_sys 7)))"
  by (rule pre_syscall_refreshes, rule sample_inv) (simp add: bad_id_def MAXUID_def)

text \<open>
  C34.  \<open>setgroups\<close> keeps the size of the set in a \<^verbatim>\<open>u_short\<close>: a super-user that asks for a
  multiple of 65536 groups gets no error, without a look at its array, and ends up with none.
\<close>
theorem setgroups_size_truncated:
  assumes "uid_inv ext others s" "us_creds s newcr = None" "cr_uid (cur s) = 0" "unat gidsetsize mod 65536 = 0"
  shows "\<exists>s'. setgroups newcr gidsetsize ugids s = KRet (None, s') \<and> cr_ngroups (cur s') = 0"
proof -
  have "unat (ucast gidsetsize :: ushort_t) = unat gidsetsize mod 2 ^ 16"
    by (simp add: unsigned_ucast_eq take_bit_eq_mod)
  then have "(ucast gidsetsize :: ushort_t) = 0" using assms(4) by (simp add: unat_eq_zero)
  then show ?thesis
    using setgroups_spec [OF assms(1,2), of gidsetsize ugids] assms(3) by (auto simp: succeeds_def)
qed

theorem setgroups_size_truncated_witness:
  "\<exists>s'. setgroups 9 0x10000 None (sample_sys 0) = KRet (None, s') \<and> cr_ngroups (cur s') = 0"
proof (rule setgroups_size_truncated)
  show "uid_inv {#} {#} (sample_sys 0)" by (rule sample_inv) (simp add: bad_id_def MAXUID_def)
  show "us_creds (sample_sys 0) 9 = None" by (simp add: sample_sys_def)
  show "cr_uid (cur (sample_sys 0)) = 0" by (simp add: sample_cur sample_cred_def)
qed simp

end
