(* ===== verification/Ipc.thy ===== *)
theory Ipc
  imports Cred
begin

text \<open>
  The routines the System V facilities share, \<^verbatim>\<open>uts/common/os/ipc.c\<close> and
  \<^verbatim>\<open>uts/common/sys/ipc.h\<close>: the permission check and the search for a key.  \<open>ipcget\<close> walks an
  array of structures that begin with an \<^verbatim>\<open>ipc_perm\<close>; the model gets the list of these heads.
\<close>

section \<open>Data\<close>

type_synonym key_t = "32 word"
type_synonym mode_t = "32 word"

record ipc_perm =
  ipc_uid :: "32 word"
  ipc_gid :: gid_t
  ipc_cuid :: "32 word"
  ipc_cgid :: gid_t
  ipc_mode :: mode_t
  ipc_seq :: uint_t
  ipc_key :: key_t

definition IPC_ALLOC :: "32 word" where "IPC_ALLOC = 0x8000"
definition IPC_CREAT :: "32 word" where "IPC_CREAT = 0x200"
definition IPC_EXCL :: "32 word" where "IPC_EXCL = 0x400"
definition IPC_NOWAIT :: "32 word" where "IPC_NOWAIT = 0x800"
definition IPC_PRIVATE :: key_t where "IPC_PRIVATE = 0"

text \<open>The nine permission bits, \<^verbatim>\<open>0777\<close>.\<close>

definition PERM_BITS :: mode_t where "PERM_BITS = 0x1ff"

section \<open>Operations\<close>

definition ipcaccess :: "ipc_perm \<Rightarrow> int32_t \<Rightarrow> cred \<Rightarrow> errno option" where
  "ipcaccess p mode cr =
     (if cr_uid cr = 0 then None
      else
        let mode = (if cr_uid cr \<noteq> ipc_uid p \<and> cr_uid cr \<noteq> ipc_cuid p then
                      let mode = signed_drop_bit 3 mode in
                      if \<not> groupmember (ipc_gid p) cr \<and> \<not> groupmember (ipc_cgid p) cr
                      then signed_drop_bit 3 mode else mode
                    else mode)
        in if mode AND ipc_mode p \<noteq> 0 then None else Some EACCES)"

definition ipc_allocated :: "ipc_perm \<Rightarrow> bool" where
  "ipc_allocated p \<longleftrightarrow> ipc_mode p AND IPC_ALLOC \<noteq> 0"

text \<open>The loop for a private key: the first entry that is not allocated.\<close>

fun ipc_first_free :: "ipc_perm list \<Rightarrow> nat \<Rightarrow> nat option" where
  "ipc_first_free [] i = None"
| "ipc_first_free (p # ps) i = (if ipc_allocated p then ipc_first_free ps (Suc i) else Some i)"

text \<open>
  The loop for any other key: an error or an entry with the key, or else the first free entry
  seen, \<open>a\<close>.
\<close>

datatype ipc_search = Ipc_error errno | Ipc_found nat | Ipc_absent "nat option"

fun ipc_search_key :: "key_t \<Rightarrow> int32_t \<Rightarrow> ipc_perm list \<Rightarrow> nat \<Rightarrow> nat option \<Rightarrow> ipc_search" where
  "ipc_search_key key flag [] i a = Ipc_absent a"
| "ipc_search_key key flag (p # ps) i a =
     (if ipc_allocated p then
        if ipc_key p = key then
          if flag AND (IPC_CREAT OR IPC_EXCL) = (IPC_CREAT OR IPC_EXCL) then Ipc_error EEXIST
          else if (flag AND PERM_BITS) AND NOT (ipc_mode p) \<noteq> 0 then Ipc_error EACCES
          else Ipc_found i
        else ipc_search_key key flag ps (Suc i) a
      else ipc_search_key key flag ps (Suc i) (if a = None then Some i else a))"

definition ipc_init :: "key_t \<Rightarrow> int32_t \<Rightarrow> cred \<Rightarrow> ipc_perm \<Rightarrow> ipc_perm" where
  "ipc_init key flag cr p = p\<lparr>ipc_mode := IPC_ALLOC OR (flag AND PERM_BITS), ipc_key := key,
     ipc_cuid := cr_uid cr, ipc_uid := cr_uid cr, ipc_cgid := cr_gid cr, ipc_gid := cr_gid cr\<rparr>"

text \<open>On success, the status (\<open>True\<close> for a new entry), the index of the entry and the array.\<close>

definition ipcget :: "cred \<Rightarrow> key_t \<Rightarrow> int32_t \<Rightarrow> ipc_perm list \<Rightarrow> errno + bool \<times> nat \<times> ipc_perm list" where
  "ipcget cr key flag base =
     (let init = (\<lambda>i. Inr (True, i, base[i := ipc_init key flag cr (base ! i)])) in
      if key = IPC_PRIVATE then
        case ipc_first_free base 0 of None \<Rightarrow> Inl ENOSPC | Some i \<Rightarrow> init i
      else
        case ipc_search_key key flag base 0 None of
          Ipc_error e \<Rightarrow> Inl e
        | Ipc_found i \<Rightarrow> Inr (False, i, base)
        | Ipc_absent a \<Rightarrow>
            if flag AND IPC_CREAT = 0 then Inl ENOENT
            else (case a of None \<Rightarrow> Inl ENOSPC | Some i \<Rightarrow> init i))"

section \<open>The search\<close>

lemma ipc_first_free_Some:
  "ipc_first_free ps i = Some k \<Longrightarrow>
   \<exists>j < length ps. k = i + j \<and> \<not> ipc_allocated (ps ! j) \<and> (\<forall>l < j. ipc_allocated (ps ! l))"
proof (induction ps i rule: ipc_first_free.induct)
  case (1 i)
  then show ?case by simp
next
  case (2 p ps i)
  show ?case
  proof (cases "ipc_allocated p")
    case True
    then obtain j where "j < length ps" "k = Suc i + j" "\<not> ipc_allocated (ps ! j)" "\<forall>l < j. ipc_allocated (ps ! l)"
      using 2 by auto
    then show ?thesis using True by (intro exI [of _ "Suc j"]) (auto simp: less_Suc_eq_0_disj)
  next
    case False
    then show ?thesis using 2 by auto
  qed
qed

lemma ipc_first_free_None: "ipc_first_free ps i = None \<longleftrightarrow> (\<forall>p \<in> set ps. ipc_allocated p)"
  by (induction ps i rule: ipc_first_free.induct) auto

text \<open>An allocated entry with the key, which need not be the only one.\<close>

definition has_key :: "key_t \<Rightarrow> ipc_perm \<Rightarrow> bool" where
  "has_key key p \<longleftrightarrow> ipc_allocated p \<and> ipc_key p = key"

lemma ipc_search_absent:
  "\<forall>p \<in> set ps. \<not> has_key key p \<Longrightarrow>
   ipc_search_key key flag ps i a = Ipc_absent (case a of None \<Rightarrow> ipc_first_free ps i | Some k \<Rightarrow> Some k)"
  by (induction ps arbitrary: i a) (auto simp: has_key_def split: option.splits)

lemma ipc_search_present:
  assumes "j < length ps" "has_key key (ps ! j)" "\<forall>k < j. \<not> has_key key (ps ! k)"
  shows "ipc_search_key key flag ps i a =
    (if flag AND (IPC_CREAT OR IPC_EXCL) = (IPC_CREAT OR IPC_EXCL) then Ipc_error EEXIST
     else if (flag AND PERM_BITS) AND NOT (ipc_mode (ps ! j)) \<noteq> 0 then Ipc_error EACCES
     else Ipc_found (i + j))"
  using assms
proof (induction ps arbitrary: i j a)
  case Nil
  then show ?case by simp
next
  case (Cons p ps)
  show ?case
  proof (cases j)
    case 0
    then show ?thesis using Cons.prems by (simp add: has_key_def)
  next
    case (Suc j')
    then have p: "\<not> has_key key p" using Cons.prems(3) by auto
    have "\<forall>k < j'. \<not> has_key key (ps ! k)" using Cons.prems(3) Suc by auto
    then have "ipc_search_key key flag ps (Suc i) b =
      (if flag AND (IPC_CREAT OR IPC_EXCL) = (IPC_CREAT OR IPC_EXCL) then Ipc_error EEXIST
       else if (flag AND PERM_BITS) AND NOT (ipc_mode (ps ! j')) \<noteq> 0 then Ipc_error EACCES
       else Ipc_found (Suc i + j'))" for b
      using Cons.IH [of j' "Suc i" b] Cons.prems Suc by simp
    then show ?thesis using p Suc by (auto simp: has_key_def)
  qed
qed

section \<open>The contract of the key search\<close>

text \<open>
  What a facility relies on: a search returns an entry in use with the key, or takes a free
  entry for it when no entry in use has it.
\<close>

locale keyed_table =
  fixes used :: "'p \<Rightarrow> bool" and key_of :: "'p \<Rightarrow> key_t"
    and get :: "'c \<Rightarrow> key_t \<Rightarrow> int32_t \<Rightarrow> 'p list \<Rightarrow> errno + bool \<times> nat \<times> 'p list"
  assumes get_old: "get c key flag ps = Inr (False, i, ps') \<Longrightarrow>
      key \<noteq> IPC_PRIVATE \<and> ps' = ps \<and> i < length ps \<and> used (ps ! i) \<and> key_of (ps ! i) = key"
    and get_new: "get c key flag ps = Inr (True, i, ps') \<Longrightarrow>
      i < length ps \<and> \<not> used (ps ! i) \<and> (\<exists>p. ps' = ps[i := p] \<and> used p \<and> key_of p = key) \<and>
      (key \<noteq> IPC_PRIVATE \<longrightarrow> (\<forall>p \<in> set ps. used p \<longrightarrow> key_of p \<noteq> key))"
begin

definition keys_unique :: "'p list \<Rightarrow> bool" where
  "keys_unique ps \<longleftrightarrow> (\<forall>i < length ps. \<forall>j < length ps.
     used (ps ! i) \<longrightarrow> used (ps ! j) \<longrightarrow> key_of (ps ! i) = key_of (ps ! j) \<longrightarrow> key_of (ps ! i) \<noteq> IPC_PRIVATE \<longrightarrow> i = j)"

lemma keys_unique_get:
  assumes "keys_unique ps" "get c key flag ps = Inr (b, i, ps')"
  shows "keys_unique ps'"
proof (cases b)
  case False
  then have "ps' = ps" using assms(2) get_old [of c key flag ps i ps'] by simp
  then show ?thesis using assms(1) by simp
next
  case True
  then have g: "get c key flag ps = Inr (True, i, ps')" using assms(2) by simp
  obtain p where p: "i < length ps" "ps' = ps[i := p]" "key_of p = key"
    "key \<noteq> IPC_PRIVATE \<longrightarrow> (\<forall>p \<in> set ps. used p \<longrightarrow> key_of p \<noteq> key)"
    using get_new [OF g] by blast
  show ?thesis unfolding keys_unique_def
  proof (intro allI impI)
    fix j k
    assume jk: "j < length ps'" "k < length ps'" "used (ps' ! j)" "used (ps' ! k)"
      "key_of (ps' ! j) = key_of (ps' ! k)" "key_of (ps' ! j) \<noteq> IPC_PRIVATE"
    have no: "key_of (ps ! l) \<noteq> key" if "key \<noteq> IPC_PRIVATE" "l < length ps" "used (ps ! l)" for l using p(4) that by auto
    show "j = k"
    proof (rule ccontr)
      assume ne: "j \<noteq> k"
      consider "j = i" | "k = i" | "j \<noteq> i" "k \<noteq> i" by blast
      then show False
      proof cases
        case 1
        then have "ps' ! k = ps ! k" "ps' ! j = p" using p(1,2) ne by simp_all
        then show False using jk p no [of k] by simp
      next
        case 2
        then have "ps' ! j = ps ! j" "ps' ! k = p" using p(1,2) ne by simp_all
        then show False using jk p no [of j] by simp
      next
        case 3
        then have "ps' ! j = ps ! j" "ps' ! k = ps ! k" using p(2) by simp_all
        then show False using jk p(2) assms(1) ne unfolding keys_unique_def by simp
      qed
    qed
  qed
qed

lemma get_again:
  assumes u: "keys_unique ps" and g: "get c key flag ps = Inr (b, i, ps')" "get c' key flag' ps' = Inr (b', i', ps'')"
    and k: "key \<noteq> IPC_PRIVATE"
  shows "\<not> b' \<and> i' = i \<and> ps'' = ps'"
proof -
  have i: "i < length ps' \<and> used (ps' ! i) \<and> key_of (ps' ! i) = key"
  proof (cases b)
    case True
    then have "get c key flag ps = Inr (True, i, ps')" using g(1) by simp
    from get_new [OF this] obtain p where "i < length ps" "ps' = ps[i := p]" "used p" "key_of p = key"
      by blast
    then show ?thesis by simp
  next
    case False
    then show ?thesis using get_old [of c key flag ps i ps'] g(1) by simp
  qed
  have "\<not> b'"
  proof
    assume b'
    then have "\<forall>p \<in> set ps'. used p \<longrightarrow> key_of p \<noteq> key" using get_new [of c' key flag' ps' i' ps''] g(2) k by simp
    then show False using i by auto
  qed
  then have o: "ps'' = ps'" "i' < length ps'" "used (ps' ! i')" "key_of (ps' ! i') = key"
    using get_old [of c' key flag' ps' i' ps''] g(2) by simp_all
  have "keys_unique ps'" by (rule keys_unique_get [OF u g(1)])
  then have "i' = i" using o i k unfolding keys_unique_def by simp
  then show ?thesis using o(1) \<open>\<not> b'\<close> by simp
qed

end

lemma ipc_init_allocated: "ipc_allocated (ipc_init key flag cr p)" "ipc_key (ipc_init key flag cr p) = key"
proof -
  have "bit ((IPC_ALLOC OR (flag AND PERM_BITS)) AND IPC_ALLOC) 15"
    by (simp add: IPC_ALLOC_def PERM_BITS_def bit_simps)
  then have "(IPC_ALLOC OR (flag AND PERM_BITS)) AND IPC_ALLOC \<noteq> 0" by (intro notI) (simp only: bit_0_eq bot_apply bot_bool_def)
  then show "ipc_allocated (ipc_init key flag cr p)" by (simp add: ipc_allocated_def ipc_init_def)
qed (simp add: ipc_init_def)

text \<open>The first entry with a key, if any.\<close>

lemma has_key_cases:
  obtains "\<forall>p \<in> set ps. \<not> has_key key p"
  | j where "j < length ps" "has_key key (ps ! j)" "\<forall>k < j. \<not> has_key key (ps ! k)"
proof (cases "\<exists>j < length ps. has_key key (ps ! j)")
  case True
  then have "\<exists>j. j < length ps \<and> has_key key (ps ! j) \<and> (\<forall>k < j. \<not> has_key key (ps ! k))"
    using exists_least_iff [of "\<lambda>j. j < length ps \<and> has_key key (ps ! j)"] by (auto intro: less_trans)
  then show ?thesis using that(2) by blast
next
  case False
  then have "\<forall>p \<in> set ps. \<not> has_key key p" by (auto simp: in_set_conv_nth)
  then show ?thesis by (rule that(1))
qed

lemma ipcget_old:
  assumes "ipcget cr key flag ps = Inr (False, i, ps')"
  shows "key \<noteq> IPC_PRIVATE \<and> ps' = ps \<and> i < length ps \<and> ipc_allocated (ps ! i) \<and> ipc_key (ps ! i) = key"
proof -
  have key: "key \<noteq> IPC_PRIVATE" using assms by (auto simp: ipcget_def split: option.splits)
  show ?thesis
  proof (cases rule: has_key_cases [of ps key])
    case 1
    then show ?thesis using assms key by (auto simp: ipcget_def ipc_search_absent split: option.splits if_splits)
  next
    case (2 j)
    then show ?thesis using assms key
      by (auto simp: ipcget_def ipc_search_present [OF 2] has_key_def split: if_splits)
  qed
qed

lemma ipcget_new:
  assumes "ipcget cr key flag ps = Inr (True, i, ps')"
  shows "i < length ps \<and> \<not> ipc_allocated (ps ! i) \<and> (\<exists>p. ps' = ps[i := p] \<and> ipc_allocated p \<and> ipc_key p = key) \<and>
    (key \<noteq> IPC_PRIVATE \<longrightarrow> (\<forall>p \<in> set ps. ipc_allocated p \<longrightarrow> ipc_key p \<noteq> key))"
    and "ps' = ps[i := ipc_init key flag cr (ps ! i)]"
proof -
  have "ipc_first_free ps 0 = Some i \<and> ps' = ps[i := ipc_init key flag cr (ps ! i)] \<and>
    (key \<noteq> IPC_PRIVATE \<longrightarrow> (\<forall>p \<in> set ps. \<not> has_key key p))"
  proof (cases "key = IPC_PRIVATE")
    case True
    then show ?thesis using assms by (auto simp: ipcget_def split: option.splits)
  next
    case False
    show ?thesis
    proof (cases rule: has_key_cases [of ps key])
      case 1
      then show ?thesis using assms False by (auto simp: ipcget_def ipc_search_absent split: option.splits if_splits)
    next
      case (2 j)
      then show ?thesis using assms False by (auto simp: ipcget_def ipc_search_present [OF 2] split: if_splits)
    qed
  qed
  then show "ps' = ps[i := ipc_init key flag cr (ps ! i)]"
    "i < length ps \<and> \<not> ipc_allocated (ps ! i) \<and> (\<exists>p. ps' = ps[i := p] \<and> ipc_allocated p \<and> ipc_key p = key) \<and>
     (key \<noteq> IPC_PRIVATE \<longrightarrow> (\<forall>p \<in> set ps. ipc_allocated p \<longrightarrow> ipc_key p \<noteq> key))"
    using ipc_first_free_Some [of ps 0 i] ipc_init_allocated [of key flag cr "ps ! i"] by (auto simp: has_key_def)
qed

interpretation ipc: keyed_table ipc_allocated ipc_key ipcget
  by unfold_locales (erule ipcget_old, erule ipcget_new(1))

section \<open>Properties\<close>

text \<open>
  C35.  \<open>ipcget\<close> with a key that is not private, on a table in which no two entries in use share
  such a key: when it succeeds the table keeps that property, and every later successful
  \<open>ipcget\<close> with the key, whoever makes it, finds the same entry and changes nothing.
\<close>
theorem ipcget_same_entry:
  assumes "ipc.keys_unique base" "key \<noteq> IPC_PRIVATE" "ipcget cr key flag base = Inr (new, i, base')"
  shows "ipc.keys_unique base' \<and>
    (\<forall>cr' flag' new' i' base''. ipcget cr' key flag' base' = Inr (new', i', base'') \<longrightarrow> \<not> new' \<and> i' = i \<and> base'' = base')"
proof (intro conjI allI impI)
  show "ipc.keys_unique base'" by (rule ipc.keys_unique_get [OF assms(1,3)])
  fix cr' flag' new' i' base''
  assume "ipcget cr' key flag' base' = Inr (new', i', base'')"
  from ipc.get_again [OF assms(1,3) this assms(2)]
  show "\<not> new'" "i' = i" "base'' = base'" by blast+
qed

theorem ipcget_same_entry_witness:
  "let p = \<lparr>ipc_uid = 0, ipc_gid = 0, ipc_cuid = 0, ipc_cgid = 0, ipc_mode = 0, ipc_seq = 0, ipc_key = 0\<rparr>;
       cr = zero_cred 1 in
   \<exists>base'. ipcget cr 7 (IPC_CREAT OR 0x180) [p, p] = Inr (True, 0, base') \<and> ipc.keys_unique base' \<and>
    (\<forall>cr' flag' new' i' base''. ipcget cr' 7 flag' base' = Inr (new', i', base'') \<longrightarrow> \<not> new' \<and> i' = 0 \<and> base'' = base')"
proof -
  let ?p = "\<lparr>ipc_uid = 0, ipc_gid = 0, ipc_cuid = 0, ipc_cgid = 0, ipc_mode = 0, ipc_seq = 0, ipc_key = 0\<rparr>"
  have u: "ipc.keys_unique [?p, ?p]" by (simp add: ipc.keys_unique_def ipc_allocated_def less_Suc_eq)
  have g: "ipcget (zero_cred 1) 7 (IPC_CREAT OR 0x180) [?p, ?p] =
      Inr (True, 0, [?p, ?p][0 := ipc_init 7 (IPC_CREAT OR 0x180) (zero_cred 1) ?p])"
    by (simp add: ipcget_def IPC_PRIVATE_def ipc_allocated_def IPC_CREAT_def)
  have "7 \<noteq> IPC_PRIVATE" by (simp add: IPC_PRIVATE_def)
  from ipcget_same_entry [OF u this g] g show ?thesis unfolding Let_def by blast
qed

end
