(* ===== verification/Sem.thy ===== *)
theory Sem
  imports Ipc Rmap
begin

text \<open>
  System V semaphores, \<^verbatim>\<open>uts/common/syscall/sem.c\<close> and \<^verbatim>\<open>uts/common/sys/sem.h\<close>: the model of
  the state and of every routine.  Arrays are lists and a pointer into one is an index; a list
  linked by \<^verbatim>\<open>un_np\<close> is the list of its members; an undo structure is the list of its first
  \<^verbatim>\<open>un_cnt\<close> entries, whose number stays within a \<^verbatim>\<open>short\<close> as long as \<^verbatim>\<open>semume\<close> does.  Signals and broadcasts on the condition variables are recorded in
  \<open>ss_cvs\<close> in the order they are sent.  An index outside an array is \<open>KFault\<close>.
\<close>

section \<open>Data\<close>

record seminfo =
  si_semmap :: int
  si_semmni :: int
  si_semmns :: int
  si_semmnu :: int
  si_semmsl :: int
  si_semopm :: int
  si_semume :: int
  si_semvmx :: int
  si_semaem :: int

text \<open>The values of the tunable variables.\<close>

definition seminfo_default :: seminfo where
  "seminfo_default = \<lparr>si_semmap = 10, si_semmni = 10, si_semmns = 60, si_semmnu = 30, si_semmsl = 25,
     si_semopm = 10, si_semume = 10, si_semvmx = 32767, si_semaem = 16384\<rparr>"

definition SEMA_INDEX_MAX :: int where "SEMA_INDEX_MAX = 0xffff"
definition SEMA_INDEX_MASK :: int32_t where "SEMA_INDEX_MASK = 0xffff"
definition SEMA_SEQ_MAX :: uint_t where "SEMA_SEQ_MAX = 0x7fff"
definition SEMA_SEQ_MASK :: int32_t where "SEMA_SEQ_MASK = 0x7fff"
definition SEMA_SEQ_SHIFT :: nat where "SEMA_SEQ_SHIFT = 16"

definition SEM_A :: int32_t where "SEM_A = 0x80"
definition SEM_R :: int32_t where "SEM_R = 0x100"
definition SEM_UNDO :: short_t where "SEM_UNDO = 0x1000"

record semid_ds =
  sem_perm :: ipc_perm
  sem_base :: nat
  sem_nsems :: ushort_t
  sem_otime :: int
  sem_ctime :: int
  sem_binary :: bool

record sem =
  semval :: ushort_t
  sempid :: int32_t
  semncnt :: ushort_t
  semzcnt :: ushort_t

record undo =
  un_aoe :: short_t
  un_num :: ushort_t
  un_id :: int32_t

record sembuf =
  sem_num :: ushort_t
  sem_op :: short_t
  sem_flg :: short_t

text \<open>
  A semaphore has two condition variables, one for the sleepers that wait for a greater value
  and one for those that wait for zero.
\<close>

datatype sem_wait = Wait_n | Wait_z
datatype cv_event = Cv_signal sem_wait nat | Cv_broadcast sem_wait nat

record semstate =
  ss_info :: seminfo
  ss_sema :: "semid_ds list"
  ss_sem :: "sem list"
  ss_semmap :: map_head
  ss_semu :: "undo list list"
  ss_semfup :: "nat list"
  ss_semunp :: "nat list"
  ss_undo :: "nat option list"
  ss_acflag :: byte
  ss_cvs :: "cv_event list"

text \<open>The calling process: its credentials, its slot, its process sid, and the time of the call.\<close>

record semcaller =
  sc_cred :: cred
  sc_slot :: nat
  sc_pid :: int32_t
  sc_time :: int

definition cv_send :: "cv_event \<Rightarrow> semstate \<Rightarrow> semstate" where
  "cv_send e st = st\<lparr>ss_cvs := ss_cvs st @ [e]\<rparr>"

definition sem_at :: "semstate \<Rightarrow> nat \<Rightarrow> sem kres" where
  "sem_at st k = (if length (ss_sem st) \<le> k then KFault else KRet (ss_sem st ! k))"

definition sem_put :: "nat \<Rightarrow> sem \<Rightarrow> semstate \<Rightarrow> semstate" where
  "sem_put k s st = st\<lparr>ss_sem := (ss_sem st)[k := s]\<rparr>"

definition sema_put :: "nat \<Rightarrow> semid_ds \<Rightarrow> semstate \<Rightarrow> semstate" where
  "sema_put i sp st = st\<lparr>ss_sema := (ss_sema st)[i := sp]\<rparr>"

definition sem_suser :: "semcaller \<Rightarrow> semstate \<Rightarrow> bool \<times> semstate" where
  "sem_suser c st =
     (if cr_uid (sc_cred c) = 0 then (True, st\<lparr>ss_acflag := ss_acflag st OR ASU\<rparr>) else (False, st))"

section \<open>Initialisation\<close>

text \<open>
  \<open>too_much\<close> is the outcome of the comparison with a quarter of the available memory,
  \<open>map_ok\<close> whether the map can be allocated, and \<open>installed\<close> the result of \<^verbatim>\<open>mod_install\<close>.
  \<open>None\<close> for the state stands for the variables after an error: freed and null again.  The list of
  free undo structures is linked through the first of them even when there is none.
\<close>

definition sem_init :: "seminfo \<Rightarrow> bool \<Rightarrow> bool \<Rightarrow> errno option \<Rightarrow> nat \<Rightarrow> (errno option \<times> semstate option) kres" where
  "sem_init tune too_much map_ok installed v_proc =
     (let info = (if SEMA_INDEX_MAX < si_semmni tune then tune\<lparr>si_semmni := SEMA_INDEX_MAX\<rparr> else tune) in
      if too_much then KRet (Some ENOMEM, None)
      else
        kbind (rmallocmap map_ok (of_int (si_semmap info))) (\<lambda>mp.
        case mp of
          None \<Rightarrow> KRet (Some ENOMEM, None)
        | Some mp \<Rightarrow>
            kbind (rmfree mp (of_int (si_semmns info)) 1) (\<lambda>mp.
            if si_semmnu info \<le> 0 then KFault
            else
            let zero_perm = \<lparr>ipc_uid = 0, ipc_gid = 0, ipc_cuid = 0, ipc_cgid = 0, ipc_mode = 0, ipc_seq = 0, ipc_key = 0\<rparr>;
                st = \<lparr>ss_info = info,
                  ss_sema = replicate (nat (si_semmni info))
                    \<lparr>sem_perm = zero_perm, sem_base = 0, sem_nsems = 0, sem_otime = 0, sem_ctime = 0, sem_binary = False\<rparr>,
                  ss_sem = replicate (nat (si_semmns info)) \<lparr>semval = 0, sempid = 0, semncnt = 0, semzcnt = 0\<rparr>,
                  ss_semmap = mp,
                  ss_semu = replicate (nat (si_semmnu info)) [],
                  ss_semfup = [0 ..< nat (si_semmnu info)],
                  ss_semunp = [],
                  ss_undo = replicate v_proc None,
                  ss_acflag = 0,
                  ss_cvs = []\<rparr>
            in KRet (installed, if installed = None then Some st else None))))"

section \<open>Undo entries\<close>

text \<open>The search for the entry of a semaphore: the position, and whether it is there.\<close>

fun undo_pos :: "undo list \<Rightarrow> int32_t \<Rightarrow> ushort_t \<Rightarrow> nat \<times> bool" where
  "undo_pos [] sid num = (0, False)"
| "undo_pos (u # us) sid num =
     (if sint (un_id u) < sint sid \<or> (un_id u = sid \<and> un_num u < num) then
        let (i, found) = undo_pos us sid num in (Suc i, found)
      else (0, un_id u = sid \<and> un_num u = num))"

definition undo_range :: "seminfo \<Rightarrow> short_t \<Rightarrow> bool" where
  "undo_range info v \<longleftrightarrow> \<not> (si_semaem info < sint v \<or> sint v < - si_semaem info)"

text \<open>The undo structure of a process, taken from the free list when it has none yet.\<close>

definition undo_struct :: "nat \<Rightarrow> semstate \<Rightarrow> (nat option \<times> semstate) kres" where
  "undo_struct slot st =
     (if length (ss_undo st) \<le> slot then KFault
      else case ss_undo st ! slot of
        Some up \<Rightarrow> KRet (Some up, st)
      | None \<Rightarrow>
          (case ss_semfup st of
             [] \<Rightarrow> KRet (None, st)
           | up # free \<Rightarrow> KRet (Some up, st\<lparr>ss_semfup := free, ss_undo := (ss_undo st)[slot := Some up]\<rparr>)))"

definition semaoe :: "nat \<Rightarrow> short_t \<Rightarrow> int32_t \<Rightarrow> ushort_t \<Rightarrow> semstate \<Rightarrow> (errno option \<times> semstate) kres" where
  "semaoe slot val sid num st =
     (if val = 0 then KRet (None, st)
      else if \<not> undo_range (ss_info st) val then KRet (Some ERANGE, st)
      else
        kbind (undo_struct slot st) (\<lambda>(up, st).
        case up of
          None \<Rightarrow> KRet (Some ENOSPC, st)
        | Some up \<Rightarrow>
            if length (ss_semu st) \<le> up then KFault
            else
              let ent = ss_semu st ! up; (i, found) = undo_pos ent sid num in
              if \<not> found then
                if si_semume (ss_info st) \<le> int (length ent) then KRet (Some EINVAL, st)
                else
                  let st = (if length ent = 0 then st\<lparr>ss_semunp := up # ss_semunp st\<rparr> else st);
                      ent = take i ent @ \<lparr>un_aoe = - val, un_num = num, un_id = sid\<rparr> # drop i ent
                  in KRet (None, st\<lparr>ss_semu := (ss_semu st)[up := ent]\<rparr>)
              else
                let aoe = un_aoe (ent ! i) - val in
                if \<not> undo_range (ss_info st) aoe then
                  KRet (Some ERANGE, st\<lparr>ss_semu := (ss_semu st)[up := ent[i := (ent ! i)\<lparr>un_aoe := aoe + val\<rparr>]]\<rparr>)
                else if aoe = 0 then
                  let ent = take i ent @ drop (Suc i) ent;
                      st = (if length ent = 0 then st\<lparr>ss_semunp := remove1 up (ss_semunp st)\<rparr> else st)
                  in KRet (None, st\<lparr>ss_semu := (ss_semu st)[up := ent]\<rparr>)
                else KRet (None, st\<lparr>ss_semu := (ss_semu st)[up := ent[i := (ent ! i)\<lparr>un_aoe := aoe\<rparr>]]\<rparr>)))"

text \<open>The entries of one structure that \<open>semunrm\<close> keeps.\<close>

fun undo_squeeze :: "int32_t \<Rightarrow> ushort_t \<Rightarrow> ushort_t \<Rightarrow> undo list \<Rightarrow> undo list" where
  "undo_squeeze sid low high [] = []"
| "undo_squeeze sid low high (u # us) =
     (if sint sid < sint (un_id u) then u # us
      else if sint (un_id u) < sint sid \<or> un_num u < low then u # undo_squeeze sid low high us
      else if high < un_num u then u # us
      else undo_squeeze sid low high us)"

text \<open>The walk over the active structures; one that loses its last entry leaves the list.\<close>

fun semunrm_walk :: "int32_t \<Rightarrow> ushort_t \<Rightarrow> ushort_t \<Rightarrow> nat list \<Rightarrow> undo list list \<Rightarrow> (nat list \<times> undo list list) kres" where
  "semunrm_walk sid low high [] semu = KRet ([], semu)"
| "semunrm_walk sid low high (p # ps) semu =
     (if length semu \<le> p then KFault
      else
        let ent = undo_squeeze sid low high (semu ! p) in
        kbind (semunrm_walk sid low high ps (semu[p := ent])) (\<lambda>(ps, semu).
          KRet (if length ent = 0 then ps else p # ps, semu)))"

definition semunrm :: "int32_t \<Rightarrow> ushort_t \<Rightarrow> ushort_t \<Rightarrow> semstate \<Rightarrow> semstate kres" where
  "semunrm sid low high st =
     kbind (semunrm_walk sid low high (ss_semunp st) (ss_semu st)) (\<lambda>(ps, semu).
       KRet (st\<lparr>ss_semunp := ps, ss_semu := semu\<rparr>))"

text \<open>\<open>semundo\<close> takes the operations that were done, the last one first.\<close>

fun semundo :: "nat \<Rightarrow> sembuf list \<Rightarrow> int32_t \<Rightarrow> nat \<Rightarrow> semstate \<Rightarrow> semstate kres" where
  "semundo slot [] sid base st = KRet st"
| "semundo slot (opn # ops) sid base st =
     (if sem_op opn = 0 then semundo slot ops sid base st
      else
        let k = base + unat (sem_num opn) in
        kbind (sem_at st k) (\<lambda>s.
          let st = sem_put k (s\<lparr>semval := semval s - sem_op opn\<rparr>) st in
          if sem_flg opn AND SEM_UNDO \<noteq> 0 then
            kbind (semaoe slot (- sem_op opn) sid (sem_num opn) st) (\<lambda>(_, st). semundo slot ops sid base st)
          else semundo slot ops sid base st))"

section \<open>Identifiers\<close>

definition semid_index :: "int32_t \<Rightarrow> nat" where
  "semid_index s = unat (s AND SEMA_INDEX_MASK)"

definition semid_seq :: "int32_t \<Rightarrow> uint_t" where
  "semid_seq s = signed_drop_bit SEMA_SEQ_SHIFT s AND SEMA_SEQ_MASK"

definition semconv_lock :: "semstate \<Rightarrow> int32_t \<Rightarrow> nat option kres" where
  "semconv_lock st s =
     (let index = semid_index s in
      if si_semmni (ss_info st) \<le> int index then KRet None
      else if length (ss_sema st) \<le> index then KFault
      else
        let sp = ss_sema st ! index in
        if ipc_mode (sem_perm sp) AND IPC_ALLOC = 0 \<or> semid_seq s \<noteq> ipc_seq (sem_perm sp) then KRet None
        else KRet (Some index))"

definition semconv :: "semstate \<Rightarrow> int32_t \<Rightarrow> errno option kres" where
  "semconv st s =
     (let sequence = semid_seq s; index = semid_index s in
      if si_semmni (ss_info st) \<le> int index then KRet (Some EINVAL)
      else if length (ss_sema st) \<le> index then KFault
      else
        let sp = ss_sema st ! index in
        if ipc_mode (sem_perm sp) AND IPC_ALLOC = 0 \<or> sequence \<noteq> ipc_seq (sem_perm sp) then KRet (Some EINVAL)
        else KRet None)"

section \<open>Semctl\<close>

text \<open>
  The commands of \<open>semctl\<close>.  What the caller's memory holds at \<^verbatim>\<open>arg\<close> is part of the input:
  \<open>um_sid\<close> and \<open>um_osid\<close> are the identifier structures that \<^verbatim>\<open>copyin\<close> reads there, in the current
  and in the old layout, \<open>um_vals\<close> the semaphore values it can read, and \<open>um_room\<close> the number of
  values, or structures, that \<^verbatim>\<open>copyout\<close> can store.  A call gives its result or error, what it
  copied out, and the new state.
\<close>

record sem_user_perm =
  up_uid :: "32 word"
  up_gid :: "32 word"
  up_mode :: mode_t

record sem_old_perm =
  op_uid :: ushort_t
  op_gid :: ushort_t
  op_mode :: ushort_t

record sem_old_stat =
  ox_uid :: ushort_t
  ox_gid :: ushort_t
  ox_cuid :: ushort_t
  ox_cgid :: ushort_t
  ox_mode :: ushort_t
  ox_seq :: ushort_t
  ox_key :: key_t
  ox_nsems :: ushort_t
  ox_otime :: int
  ox_ctime :: int

record sem_umem =
  um_sid :: "sem_user_perm option"
  um_osid :: "sem_old_perm option"
  um_vals :: "ushort_t list option"
  um_room :: nat

datatype sem_out = Out_none | Out_stat semid_ds | Out_ostat sem_old_stat | Out_vals "ushort_t list"

type_synonym sem_result = "((errno + int32_t) \<times> sem_out \<times> semstate) kres"

definition sem_fail :: "errno \<Rightarrow> semstate \<Rightarrow> sem_result" where
  "sem_fail e st = KRet (Inl e, Out_none, st)"

definition sem_ok :: "semstate \<Rightarrow> sem_result" where
  "sem_ok st = KRet (Inr 0, Out_none, st)"

text \<open>The test that the caller is neither owner nor creator nor the super-user.\<close>

definition sem_not_owner :: "semcaller \<Rightarrow> ipc_perm \<Rightarrow> semstate \<Rightarrow> bool \<times> semstate" where
  "sem_not_owner c p st =
     (if cr_uid (sc_cred c) \<noteq> ipc_uid p \<and> cr_uid (sc_cred c) \<noteq> ipc_cuid p
      then let (su, st) = sem_suser c st in (\<not> su, st) else (False, st))"

text \<open>The loop of \<^verbatim>\<open>IPC_RMID\<close> over the \<open>n\<close> semaphores from index \<open>k\<close> on.\<close>

definition sem_drain :: "nat \<Rightarrow> semstate \<Rightarrow> semstate kres" where
  "sem_drain k st =
     kbind (sem_at st k) (\<lambda>s.
       let s = s\<lparr>semval := 0, sempid := 0\<rparr>;
           st = (if semncnt s \<noteq> 0 then cv_send (Cv_broadcast Wait_n k) st else st);
           st = (if semzcnt s \<noteq> 0 then cv_send (Cv_broadcast Wait_z k) st else st)
       in KRet (sem_put k (s\<lparr>semncnt := 0, semzcnt := 0\<rparr>) st))"

fun sem_drain_all :: "nat \<Rightarrow> nat \<Rightarrow> semstate \<Rightarrow> semstate kres" where
  "sem_drain_all 0 k st = KRet st"
| "sem_drain_all (Suc n) k st = kbind (sem_drain k st) (sem_drain_all n (Suc k))"

definition semctl_rmid :: "semcaller \<Rightarrow> int32_t \<Rightarrow> nat \<Rightarrow> semstate \<Rightarrow> sem_result" where
  "semctl_rmid c semid i st =
     (let sp = ss_sema st ! i; (bad, st) = sem_not_owner c (sem_perm sp) st in
      if bad then sem_fail EPERM st
      else
        kbind (semunrm semid 0 (sem_nsems sp) st) (\<lambda>st.
        kbind (sem_drain_all (unat (sem_nsems sp)) (sem_base sp) st) (\<lambda>st.
        kbind (rmfree (ss_semmap st) (ucast (sem_nsems sp)) (of_nat (sem_base sp) + 1)) (\<lambda>mp.
          let st = st\<lparr>ss_semmap := mp\<rparr>;
              p = sem_perm sp;
              p = p\<lparr>ipc_seq := (if semid_seq semid = SEMA_SEQ_MAX then 0 else ipc_seq p + 1)\<rparr>
          in sem_ok (sema_put i (sp\<lparr>sem_perm := p\<lparr>ipc_mode := 0\<rparr>\<rparr>) st)))))"

definition sem_bad_uid :: "32 word \<Rightarrow> bool" where
  "sem_bad_uid u \<longleftrightarrow> sint u < 0 \<or> 2147483647 < sint u"

definition semctl_set :: "semcaller \<Rightarrow> sem_umem \<Rightarrow> nat \<Rightarrow> semstate \<Rightarrow> sem_result" where
  "semctl_set c um i st =
     (let sp = ss_sema st ! i; (bad, st) = sem_not_owner c (sem_perm sp) st in
      if bad then sem_fail EPERM st
      else case um_sid um of
        None \<Rightarrow> sem_fail EFAULT st
      | Some d \<Rightarrow>
          if sem_bad_uid (up_uid d) \<or> sem_bad_uid (up_gid d) then sem_fail EINVAL st
          else
            let p = (sem_perm sp)\<lparr>ipc_uid := up_uid d, ipc_gid := up_gid d,
                  ipc_mode := (up_mode d AND PERM_BITS) OR IPC_ALLOC\<rparr>
            in sem_ok (sema_put i (sp\<lparr>sem_perm := p, sem_ctime := sc_time c\<rparr>) st))"

definition semctl_o_set :: "bool \<Rightarrow> semcaller \<Rightarrow> sem_umem \<Rightarrow> nat \<Rightarrow> semstate \<Rightarrow> sem_result" where
  "semctl_o_set ilp32 c um i st =
     (if \<not> ilp32 then sem_fail EINVAL st
      else
        let sp = ss_sema st ! i; (bad, st) = sem_not_owner c (sem_perm sp) st in
        if bad then sem_fail EPERM st
        else case um_osid um of
          None \<Rightarrow> sem_fail EFAULT st
        | Some d \<Rightarrow>
            if 2147483647 < int (unat (op_uid d)) \<or> 2147483647 < int (unat (op_gid d)) then sem_fail EINVAL st
            else
              let p = (sem_perm sp)\<lparr>ipc_uid := ucast (op_uid d), ipc_gid := ucast (op_gid d),
                    ipc_mode := (ucast (op_mode d) AND PERM_BITS) OR IPC_ALLOC\<rparr>
              in sem_ok (sema_put i (sp\<lparr>sem_perm := p, sem_ctime := sc_time c\<rparr>) st))"

definition semctl_o_stat :: "bool \<Rightarrow> semcaller \<Rightarrow> sem_umem \<Rightarrow> nat \<Rightarrow> semstate \<Rightarrow> sem_result" where
  "semctl_o_stat ilp32 c um i st =
     (if \<not> ilp32 then sem_fail EINVAL st
      else
        let sp = ss_sema st ! i; p = sem_perm sp in
        case ipcaccess p SEM_R (sc_cred c) of
          Some e \<Rightarrow> sem_fail e st
        | None \<Rightarrow>
            if 65535 < unat (ipc_uid p) \<or> 65535 < unat (ipc_gid p) \<or> 65535 < unat (ipc_cuid p) \<or>
               65535 < unat (ipc_cgid p) \<or> 65535 < unat (ipc_seq p) then sem_fail EOVERFLOW st
            else if um_room um = 0 then sem_fail EFAULT st
            else KRet (Inr 0, Out_ostat \<lparr>ox_uid = ucast (ipc_uid p), ox_gid = ucast (ipc_gid p),
                   ox_cuid = ucast (ipc_cuid p), ox_cgid = ucast (ipc_cgid p), ox_mode = ucast (ipc_mode p),
                   ox_seq = ucast (ipc_seq p), ox_key = ipc_key p, ox_nsems = sem_nsems sp,
                   ox_otime = sem_otime sp, ox_ctime = sem_ctime sp\<rparr>, st))"

text \<open>The address of the first semaphore is not given to the user: it is copied out as 0.\<close>

definition semctl_stat :: "semcaller \<Rightarrow> sem_umem \<Rightarrow> nat \<Rightarrow> semstate \<Rightarrow> sem_result" where
  "semctl_stat c um i st =
     (let sp = ss_sema st ! i in
      case ipcaccess (sem_perm sp) SEM_R (sc_cred c) of
        Some e \<Rightarrow> sem_fail e st
      | None \<Rightarrow> if um_room um = 0 then sem_fail EFAULT st else KRet (Inr 0, Out_stat (sp\<lparr>sem_base := 0\<rparr>), st))"

text \<open>The commands that return one field of one semaphore.\<close>

definition semctl_get :: "(sem \<Rightarrow> int32_t) \<Rightarrow> semcaller \<Rightarrow> uint_t \<Rightarrow> nat \<Rightarrow> semstate \<Rightarrow> sem_result" where
  "semctl_get field c semnum i st =
     (let sp = ss_sema st ! i in
      case ipcaccess (sem_perm sp) SEM_R (sc_cred c) of
        Some e \<Rightarrow> sem_fail e st
      | None \<Rightarrow>
          if unat (sem_nsems sp) \<le> unat semnum then sem_fail EINVAL st
          else kbind (sem_at st (sem_base sp + unat semnum)) (\<lambda>s. KRet (Inr (field s), Out_none, st)))"

definition semctl_getncnt :: "semcaller \<Rightarrow> uint_t \<Rightarrow> nat \<Rightarrow> semstate \<Rightarrow> sem_result" where
  "semctl_getncnt = semctl_get (\<lambda>s. ucast (semncnt s))"

definition semctl_getpid :: "semcaller \<Rightarrow> uint_t \<Rightarrow> nat \<Rightarrow> semstate \<Rightarrow> sem_result" where
  "semctl_getpid = semctl_get sempid"

definition semctl_getval :: "semcaller \<Rightarrow> uint_t \<Rightarrow> nat \<Rightarrow> semstate \<Rightarrow> sem_result" where
  "semctl_getval = semctl_get (\<lambda>s. ucast (semval s))"

definition semctl_getzcnt :: "semcaller \<Rightarrow> uint_t \<Rightarrow> nat \<Rightarrow> semstate \<Rightarrow> sem_result" where
  "semctl_getzcnt = semctl_get (\<lambda>s. ucast (semzcnt s))"

text \<open>The loop of \<^verbatim>\<open>GETALL\<close>: \<open>None\<close> when the caller's memory ends before the semaphores do.\<close>

fun sem_copyout_vals :: "nat \<Rightarrow> nat \<Rightarrow> nat \<Rightarrow> semstate \<Rightarrow> ushort_t list option kres" where
  "sem_copyout_vals 0 k room st = KRet (Some [])"
| "sem_copyout_vals (Suc n) k room st =
     kbind (sem_at st k) (\<lambda>s.
       case room of
         0 \<Rightarrow> KRet None
       | Suc room \<Rightarrow> kbind (sem_copyout_vals n (Suc k) room st) (\<lambda>vs. KRet (map_option (Cons (semval s)) vs)))"

definition semctl_getall :: "semcaller \<Rightarrow> sem_umem \<Rightarrow> nat \<Rightarrow> semstate \<Rightarrow> sem_result" where
  "semctl_getall c um i st =
     (let sp = ss_sema st ! i in
      case ipcaccess (sem_perm sp) SEM_R (sc_cred c) of
        Some e \<Rightarrow> sem_fail e st
      | None \<Rightarrow>
          kbind (sem_copyout_vals (unat (sem_nsems sp)) (sem_base sp) (um_room um) st) (\<lambda>vs.
            case vs of None \<Rightarrow> sem_fail EFAULT st | Some vs \<Rightarrow> KRet (Inr 0, Out_vals vs, st)))"

text \<open>The store of a value, with the wakeups of \<^verbatim>\<open>SETVAL\<close> and \<^verbatim>\<open>SETALL\<close>.\<close>

definition sem_store :: "semcaller \<Rightarrow> nat \<Rightarrow> ushort_t \<Rightarrow> semstate \<Rightarrow> semstate kres" where
  "sem_store c k v st =
     kbind (sem_at st k) (\<lambda>s.
       let s = s\<lparr>semval := v\<rparr>;
           (s, st) = (if v \<noteq> 0 then
               if semncnt s \<noteq> 0 then (s\<lparr>semncnt := 0\<rparr>, cv_send (Cv_broadcast Wait_n k) st) else (s, st)
             else if semzcnt s \<noteq> 0 then (s\<lparr>semzcnt := 0\<rparr>, cv_send (Cv_broadcast Wait_z k) st) else (s, st))
       in KRet (sem_put k (s\<lparr>sempid := sc_pid c\<rparr>) st))"

definition semctl_setval :: "semcaller \<Rightarrow> int32_t \<Rightarrow> uint_t \<Rightarrow> ulong_t \<Rightarrow> nat \<Rightarrow> semstate \<Rightarrow> sem_result" where
  "semctl_setval c semid semnum arg i st =
     (let sp = ss_sema st ! i in
      case ipcaccess (sem_perm sp) SEM_A (sc_cred c) of
        Some e \<Rightarrow> sem_fail e st
      | None \<Rightarrow>
          if unat (sem_nsems sp) \<le> unat semnum then sem_fail EINVAL st
          else if (of_int (si_semvmx (ss_info st)) :: uint_t) < ucast arg then sem_fail ERANGE st
          else
            kbind (sem_store c (sem_base sp + unat semnum) (ucast arg) st) (\<lambda>st.
            kbind (semunrm semid (ucast semnum) (ucast semnum) st) sem_ok))"

fun sem_store_all :: "semcaller \<Rightarrow> nat \<Rightarrow> ushort_t list \<Rightarrow> semstate \<Rightarrow> semstate kres" where
  "sem_store_all c k [] st = KRet st"
| "sem_store_all c k (v # vs) st = kbind (sem_store c k v st) (sem_store_all c (Suc k) vs)"

definition semctl_setall :: "semcaller \<Rightarrow> int32_t \<Rightarrow> sem_umem \<Rightarrow> nat \<Rightarrow> semstate \<Rightarrow> sem_result" where
  "semctl_setall c semid um i st =
     (let sp = ss_sema st ! i; n = unat (sem_nsems sp) in
      case ipcaccess (sem_perm sp) SEM_A (sc_cred c) of
        Some e \<Rightarrow> sem_fail e st
      | None \<Rightarrow>
          (case um_vals um of
             None \<Rightarrow> sem_fail EFAULT st
           | Some vals \<Rightarrow>
               if length vals < n then sem_fail EFAULT st
               else if \<exists>v \<in> set (take n vals). si_semvmx (ss_info st) < int (unat v) then sem_fail ERANGE st
               else
                 kbind (semunrm semid 0 (sem_nsems sp) st) (\<lambda>st.
                 kbind (sem_store_all c (sem_base sp) (take n vals) st) sem_ok)))"

definition IPC_RMID :: int where "IPC_RMID = 10"
definition IPC_SET :: int where "IPC_SET = 11"
definition IPC_STAT :: int where "IPC_STAT = 12"
definition IPC_O_RMID :: int where "IPC_O_RMID = 0"
definition IPC_O_SET :: int where "IPC_O_SET = 1"
definition IPC_O_STAT :: int where "IPC_O_STAT = 2"
definition GETNCNT :: int where "GETNCNT = 3"
definition GETPID :: int where "GETPID = 4"
definition GETVAL :: int where "GETVAL = 5"
definition GETALL :: int where "GETALL = 6"
definition GETZCNT :: int where "GETZCNT = 7"
definition SETVAL :: int where "SETVAL = 8"
definition SETALL :: int where "SETALL = 9"

lemmas sem_commands = IPC_RMID_def IPC_SET_def IPC_STAT_def IPC_O_RMID_def IPC_O_SET_def IPC_O_STAT_def
  GETNCNT_def GETPID_def GETVAL_def GETALL_def GETZCNT_def SETVAL_def SETALL_def

text \<open>\<open>ilp32\<close> tells whether the caller is a 32-bit process.\<close>

definition semctl :: "bool \<Rightarrow> semcaller \<Rightarrow> int32_t \<Rightarrow> uint_t \<Rightarrow> int \<Rightarrow> ulong_t \<Rightarrow> sem_umem \<Rightarrow> semstate \<Rightarrow> sem_result" where
  "semctl ilp32 c semid semnum cmd arg um st =
     kbind (semconv_lock st semid) (\<lambda>sp.
       case sp of
         None \<Rightarrow> sem_fail EINVAL st
       | Some i \<Rightarrow>
           if cmd = IPC_O_RMID then if \<not> ilp32 then sem_fail EINVAL st else semctl_rmid c semid i st
           else if cmd = IPC_RMID then semctl_rmid c semid i st
           else if cmd = IPC_SET then semctl_set c um i st
           else if cmd = IPC_O_SET then semctl_o_set ilp32 c um i st
           else if cmd = IPC_O_STAT then semctl_o_stat ilp32 c um i st
           else if cmd = IPC_STAT then semctl_stat c um i st
           else if cmd = GETNCNT then semctl_getncnt c semnum i st
           else if cmd = GETPID then semctl_getpid c semnum i st
           else if cmd = GETVAL then semctl_getval c semnum i st
           else if cmd = GETALL then semctl_getall c um i st
           else if cmd = GETZCNT then semctl_getzcnt c semnum i st
           else if cmd = SETVAL then semctl_setval c semid semnum arg i st
           else if cmd = SETALL then semctl_setall c semid um i st
           else sem_fail EINVAL st)"

section \<open>Semexit\<close>

text \<open>The entries of the process, the last one first.\<close>

fun semexit_undo :: "undo list \<Rightarrow> semstate \<Rightarrow> semstate kres" where
  "semexit_undo [] st = KRet st"
| "semexit_undo (u # us) st =
     kbind (semconv_lock st (un_id u)) (\<lambda>sp.
       case sp of
         None \<Rightarrow> semexit_undo us st
       | Some i \<Rightarrow>
           let k = sem_base (ss_sema st ! i) + unat (un_num u) in
           kbind (sem_at st k) (\<lambda>s.
             let v = int (unat (semval s)) + sint (un_aoe u) in
             if v < 0 \<or> si_semvmx (ss_info st) < v then semexit_undo us st
             else
               let s = s\<lparr>semval := of_int v\<rparr>;
                   (s, st) = (if v = 0 \<and> semzcnt s \<noteq> 0 then (s\<lparr>semzcnt := 0\<rparr>, cv_send (Cv_broadcast Wait_z k) st) else (s, st));
                   (s, st) = (if 0 < sint (un_aoe u) \<and> semncnt s \<noteq> 0 then (s\<lparr>semncnt := 0\<rparr>, cv_send (Cv_broadcast Wait_n k) st) else (s, st))
               in semexit_undo us (sem_put k s st)))"

definition semexit :: "nat \<Rightarrow> semstate \<Rightarrow> semstate kres" where
  "semexit slot st =
     (if length (ss_undo st) \<le> slot then KFault
      else case ss_undo st ! slot of
        None \<Rightarrow> KRet st
      | Some up \<Rightarrow>
          if length (ss_semu st) \<le> up then KFault
          else
            let ent = ss_semu st ! up; clear = (\<lambda>st. st\<lparr>ss_semfup := up # ss_semfup st, ss_undo := (ss_undo st)[slot := None]\<rparr>) in
            if length ent = 0 then KRet (clear st)
            else
              kbind (semexit_undo (rev ent) st) (\<lambda>st.
                KRet (clear (st\<lparr>ss_semu := (ss_semu st)[up := []], ss_semunp := remove1 up (ss_semunp st)\<rparr>))))"

section \<open>Semget\<close>

definition semget :: "semcaller \<Rightarrow> key_t \<Rightarrow> int32_t \<Rightarrow> int32_t \<Rightarrow> semstate \<Rightarrow> ((errno + int32_t) \<times> semstate) kres" where
  "semget c key nsems semflg st =
     (case ipcget (sc_cred c) key semflg (map sem_perm (ss_sema st)) of
        Inl e \<Rightarrow> KRet (Inl e, st)
      | Inr (s, i, perms) \<Rightarrow>
          let sp = (ss_sema st ! i)\<lparr>sem_perm := perms ! i\<rparr>;
              release = sema_put i (sp\<lparr>sem_perm := (sem_perm sp)\<lparr>ipc_mode := 0\<rparr>\<rparr>);
              found = (\<lambda>sp st. KRet (Inr (push_bit SEMA_SEQ_SHIFT (ipc_seq (sem_perm sp)) + of_nat i), st)) in
          if s then
            if sint nsems \<le> 0 \<or> si_semmsl (ss_info st) < sint nsems then KRet (Inl EINVAL, release st)
            else
              kbind (rmalloc (ss_semmap st) (scast nsems)) (\<lambda>(a, mp).
                let st = st\<lparr>ss_semmap := mp\<rparr> in
                if a = 0 then KRet (Inl ENOSPC, release st)
                else
                  let sp = sp\<lparr>sem_base := unat a - 1, sem_binary := True, sem_nsems := ucast nsems,
                        sem_ctime := sc_time c, sem_otime := 0\<rparr>
                  in found sp (sema_put i sp st))
          else if nsems \<noteq> 0 \<and> unat (sem_nsems sp) < unat nsems then KRet (Inl EINVAL, st)
          else found sp st)"

section \<open>Semop\<close>

text \<open>
  One pass over the operations, from the label \<^verbatim>\<open>check\<close> on.  It completes them all, or undoes
  those it did and ends with an error or at a semaphore on which the caller has to sleep.
\<close>

datatype pass_out = Pass_done | Pass_error errno | Pass_wait sem_wait nat

definition pass_undo :: "semcaller \<Rightarrow> sembuf list \<Rightarrow> int32_t \<Rightarrow> nat \<Rightarrow> pass_out \<Rightarrow> semstate \<Rightarrow> (pass_out \<times> semstate) kres" where
  "pass_undo c before semid base out st =
     kbind (semundo (sc_slot c) before semid base st) (\<lambda>st. KRet (out, st))"

text \<open>The wakeups after an increment: one sleeper of a binary semaphore, or all.\<close>

definition sem_raise :: "bool \<Rightarrow> nat \<Rightarrow> sem \<Rightarrow> semstate \<Rightarrow> semstate" where
  "sem_raise signal k s st =
     (let (s, st) = (if semncnt s \<noteq> 0 then
              if signal then (s\<lparr>semncnt := semncnt s - 1\<rparr>, cv_send (Cv_signal Wait_n k) st)
              else (s\<lparr>semncnt := 0\<rparr>, cv_send (Cv_broadcast Wait_n k) st)
            else (s, st));
          (s, st) = (if semzcnt s \<noteq> 0 \<and> semval s = 0 then
              if signal then (s\<lparr>semzcnt := semzcnt s - 1\<rparr>, cv_send (Cv_signal Wait_z k) st)
              else (s\<lparr>semzcnt := 0\<rparr>, cv_send (Cv_broadcast Wait_z k) st)
            else (s, st))
      in sem_put k s st)"

definition sem_lower :: "nat \<Rightarrow> sem \<Rightarrow> semstate \<Rightarrow> semstate" where
  "sem_lower k s st =
     (let (s, st) = (if semzcnt s \<noteq> 0 \<and> semval s = 0
            then (s\<lparr>semzcnt := 0\<rparr>, cv_send (Cv_broadcast Wait_z k) st) else (s, st))
      in sem_put k s st)"

text \<open>\<^verbatim>\<open>semaoe\<close> is called only with \<^verbatim>\<open>SEM_UNDO\<close>.\<close>

definition op_undo :: "semcaller \<Rightarrow> int32_t \<Rightarrow> sembuf \<Rightarrow> semstate \<Rightarrow> (errno option \<times> semstate) kres" where
  "op_undo c semid opn st =
     (if sem_flg opn AND SEM_UNDO \<noteq> 0 then semaoe (sc_slot c) (sem_op opn) semid (sem_num opn) st else KRet (None, st))"

text \<open>
  \<open>i\<close> is the index of the set, \<open>binary\<close> the value of \<^verbatim>\<open>binary_type\<close> and \<open>before\<close> the operations
  already done, the last one first.
\<close>

fun sem_pass :: "semcaller \<Rightarrow> int32_t \<Rightarrow> nat \<Rightarrow> bool \<Rightarrow> sembuf list \<Rightarrow> sembuf list \<Rightarrow> semstate \<Rightarrow> (pass_out \<times> semstate) kres" where
  "sem_pass c semid i binary before [] st = KRet (Pass_done, st)"
| "sem_pass c semid i binary before (opn # ops) st =
     (let sp = ss_sema st ! i; base = sem_base sp; k = base + unat (sem_num opn); v = sint (sem_op opn) in
      kbind (sem_at st k) (\<lambda>s.
        if 0 < v then
          if si_semvmx (ss_info st) < v + int (unat (semval s)) then
            pass_undo c before semid base (Pass_error ERANGE) st
          else
            kbind (op_undo c semid opn st) (\<lambda>(e, st).
            case e of
              Some e \<Rightarrow> pass_undo c before semid base (Pass_error e) st
            | None \<Rightarrow>
                let signal = (sem_op opn = 1 \<and> binary) in
                sem_pass c semid i binary (opn # before) ops
                  (sem_raise signal k (s\<lparr>semval := semval s + sem_op opn\<rparr>) st))
        else if v < 0 then
          if nat (- v) \<le> unat (semval s) then
            kbind (op_undo c semid opn st) (\<lambda>(e, st).
            case e of
              Some e \<Rightarrow> pass_undo c before semid base (Pass_error e) st
            | None \<Rightarrow>
                sem_pass c semid i binary (opn # before) ops
                  (sem_lower k (s\<lparr>semval := semval s + sem_op opn\<rparr>) st))
          else
            kbind (semundo (sc_slot c) before semid base st) (\<lambda>st.
              if ucast (sem_flg opn) AND IPC_NOWAIT \<noteq> 0 then KRet (Pass_error EAGAIN, st)
              else
                kbind (sem_at st k) (\<lambda>s.
                  let st = sem_put k (s\<lparr>semncnt := semncnt s + 1\<rparr>) st;
                      st = (if v < - 1 then sema_put i ((ss_sema st ! i)\<lparr>sem_binary := False\<rparr>) st else st)
                  in KRet (Pass_wait Wait_n k, st)))
        else if semval s \<noteq> 0 then
          kbind (semundo (sc_slot c) before semid base st) (\<lambda>st.
            if ucast (sem_flg opn) AND IPC_NOWAIT \<noteq> 0 then KRet (Pass_error EAGAIN, st)
            else
              kbind (sem_at st k) (\<lambda>s.
                KRet (Pass_wait Wait_z k, sem_put k (s\<lparr>semzcnt := semzcnt s + 1\<rparr>) st)))
        else sem_pass c semid i binary (opn # before) ops st))"

text \<open>The process ids of the semaphores operated on.\<close>

fun sem_mark :: "semcaller \<Rightarrow> nat \<Rightarrow> sembuf list \<Rightarrow> semstate \<Rightarrow> semstate kres" where
  "sem_mark c base [] st = KRet st"
| "sem_mark c base (opn # ops) st =
     (let k = base + unat (sem_num opn) in
      kbind (sem_at st k) (\<lambda>s. sem_mark c base ops (sem_put k (s\<lparr>sempid := sc_pid c\<rparr>) st)))"

text \<open>A caller of \<open>semop\<close> returns, with 0 or an error, or goes to sleep.\<close>

datatype semop_out = Op_return "errno option" | Op_sleep sem_wait nat

definition semop_check :: "semcaller \<Rightarrow> int32_t \<Rightarrow> sembuf list \<Rightarrow> semstate \<Rightarrow> (semop_out \<times> semstate) kres" where
  "semop_check c semid ops st =
     (let i = semid_index semid; sp = ss_sema st ! i; binary = (sem_binary sp \<and> sem_nsems sp = 1) in
      kbind (sem_pass c semid i binary [] ops st) (\<lambda>(out, st).
        case out of
          Pass_error e \<Rightarrow> KRet (Op_return (Some e), st)
        | Pass_wait w k \<Rightarrow> KRet (Op_sleep w k, st)
        | Pass_done \<Rightarrow>
            kbind (sem_mark c (sem_base (ss_sema st ! i)) ops st) (\<lambda>st.
              KRet (Op_return None, sema_put i ((ss_sema st ! i)\<lparr>sem_otime := sc_time c\<rparr>) st))))"

fun semop_verify :: "semcaller \<Rightarrow> semid_ds \<Rightarrow> sembuf list \<Rightarrow> errno option" where
  "semop_verify c sp [] = None"
| "semop_verify c sp (opn # ops) =
     (case ipcaccess (sem_perm sp) (if sem_op opn \<noteq> 0 then SEM_A else SEM_R) (sc_cred c) of
        Some e \<Rightarrow> Some e
      | None \<Rightarrow> if sem_nsems sp \<le> sem_num opn then Some EFBIG else semop_verify c sp ops)"

text \<open>\<open>usops\<close> are the operations that can be read at \<^verbatim>\<open>sops\<close>.\<close>

definition semop :: "semcaller \<Rightarrow> int32_t \<Rightarrow> sembuf list option \<Rightarrow> size_t \<Rightarrow> semstate \<Rightarrow> (semop_out \<times> semstate) kres" where
  "semop c semid usops nsops st =
     (if (of_int (si_semopm (ss_info st)) :: size_t) < nsops then KRet (Op_return (Some E2BIG), st)
      else if nsops = 0 then KRet (Op_return None, st)
      else case usops of
        None \<Rightarrow> KRet (Op_return (Some EFAULT), st)
      | Some u \<Rightarrow>
          if length u < unat nsops then KRet (Op_return (Some EFAULT), st)
          else
            let ops = take (unat nsops) u in
            kbind (semconv_lock st semid) (\<lambda>sp.
              case sp of
                None \<Rightarrow> KRet (Op_return (Some EINVAL), st)
              | Some i \<Rightarrow>
                  (case semop_verify c (ss_sema st ! i) ops of
                     Some e \<Rightarrow> KRet (Op_return (Some e), st)
                   | None \<Rightarrow> semop_check c semid ops st)))"

text \<open>The return from \<^verbatim>\<open>cv_wait_sig\<close>: after a wakeup, and after a signal to the process.\<close>

definition semop_woken :: "semcaller \<Rightarrow> int32_t \<Rightarrow> sembuf list \<Rightarrow> semstate \<Rightarrow> (semop_out \<times> semstate) kres" where
  "semop_woken c semid ops st =
     kbind (semconv st semid) (\<lambda>e.
       case e of Some _ \<Rightarrow> KRet (Op_return (Some EIDRM), st) | None \<Rightarrow> semop_check c semid ops st)"

definition semop_interrupted :: "sem_wait \<Rightarrow> nat \<Rightarrow> semstate \<Rightarrow> (semop_out \<times> semstate) kres" where
  "semop_interrupted w k st =
     kbind (sem_at st k) (\<lambda>s.
       KRet (Op_return (Some EINTR),
         case w of
           Wait_n \<Rightarrow>
             if unat (semncnt s) \<le> 1 then cv_send (Cv_broadcast Wait_n k) (sem_put k (s\<lparr>semncnt := 0\<rparr>) st)
             else sem_put k (s\<lparr>semncnt := semncnt s - 1\<rparr>) st
         | Wait_z \<Rightarrow>
             if unat (semzcnt s) \<le> 1 then cv_send (Cv_broadcast Wait_z k) (sem_put k (s\<lparr>semzcnt := 0\<rparr>) st)
             else sem_put k (s\<lparr>semzcnt := semzcnt s - 1\<rparr>) st))"

section \<open>Entry point\<close>

definition SEMCTL :: int where "SEMCTL = 0"
definition SEMGET :: int where "SEMGET = 1"
definition SEMOP :: int where "SEMOP = 2"

text \<open>\<open>um\<close> and \<open>usops\<close> are what the memory of the caller holds for \<open>semctl\<close> and for \<open>semop\<close>.\<close>

datatype semsys_out = Sys_return "errno + int32_t" | Sys_sleep sem_wait nat

definition semsys ::
  "bool \<Rightarrow> semcaller \<Rightarrow> sem_umem \<Rightarrow> sembuf list option \<Rightarrow> int \<Rightarrow> ulong_t \<Rightarrow> ulong_t \<Rightarrow> ulong_t \<Rightarrow> ulong_t \<Rightarrow> semstate \<Rightarrow>
   (semsys_out \<times> sem_out \<times> semstate) kres" where
  "semsys ilp32 c um usops opcode a1 a2 a3 a4 st =
     (if opcode = SEMCTL then
        kbind (semctl ilp32 c (ucast a1) (ucast a2) (sint (ucast a3 :: int32_t)) a4 um st) (\<lambda>(r, out, st). KRet (Sys_return r, out, st))
      else if opcode = SEMGET then
        kbind (semget c (ucast a1) (ucast a2) (ucast a3) st) (\<lambda>(r, st). KRet (Sys_return r, Out_none, st))
      else if opcode = SEMOP then
        kbind (semop c (ucast a1) usops a3 st) (\<lambda>(r, st).
          KRet (case r of Op_return e \<Rightarrow> Sys_return (case e of None \<Rightarrow> Inr 0 | Some e \<Rightarrow> Inl e) | Op_sleep w k \<Rightarrow> Sys_sleep w k, Out_none, st))
      else KRet (Sys_return (Inl EINVAL), Out_none, st))"

end
