(* ===== verification/Sem_Undo.thy ===== *)
theory Sem_Undo
  imports Sem
begin

text \<open>
  The adjust-on-exit entries of \<^verbatim>\<open>Sem\<close>: the order of the entries of a process, the two lists of
  undo structures, and the effect of \<open>semaoe\<close> and \<open>semunrm\<close> on them.
\<close>

section \<open>Entries in order\<close>

definition un_before :: "undo \<Rightarrow> int32_t \<Rightarrow> ushort_t \<Rightarrow> bool" where
  "un_before u sid num \<longleftrightarrow> sint (un_id u) < sint sid \<or> (un_id u = sid \<and> un_num u < num)"

definition un_match :: "undo \<Rightarrow> int32_t \<Rightarrow> ushort_t \<Rightarrow> bool" where
  "un_match u sid num \<longleftrightarrow> un_id u = sid \<and> un_num u = num"

definition un_after :: "undo \<Rightarrow> int32_t \<Rightarrow> ushort_t \<Rightarrow> bool" where
  "un_after u sid num \<longleftrightarrow> sint sid < sint (un_id u) \<or> (un_id u = sid \<and> num < un_num u)"

definition un_less :: "undo \<Rightarrow> undo \<Rightarrow> bool" where
  "un_less u v \<longleftrightarrow> un_before u (un_id v) (un_num v)"

lemma un_trichotomy: "un_before u sid num \<or> un_match u sid num \<or> un_after u sid num"
  using sint_inj [of "un_id u" sid] by (fastforce simp: un_before_def un_match_def un_after_def)

lemma un_disjoint:
  "un_before u sid num \<Longrightarrow> \<not> un_match u sid num" "un_before u sid num \<Longrightarrow> \<not> un_after u sid num"
  "un_after u sid num \<Longrightarrow> \<not> un_match u sid num"
  by (auto simp: un_before_def un_match_def un_after_def)

lemma un_less_trans: "un_less u v \<Longrightarrow> un_less v w \<Longrightarrow> un_less u w"
  by (auto simp: un_less_def un_before_def)

lemma un_before_less: "un_before u sid num \<Longrightarrow> un_match v sid num \<or> un_after v sid num \<Longrightarrow> un_less u v"
  by (auto simp: un_less_def un_before_def un_match_def un_after_def)

lemma un_after_less: "un_after v sid num \<Longrightarrow> un_match u sid num \<Longrightarrow> un_less u v"
  by (auto simp: un_less_def un_before_def un_match_def un_after_def)

lemma un_less_after: "un_less u v \<Longrightarrow> un_match u sid num \<or> un_after u sid num \<Longrightarrow> un_after v sid num"
  by (auto simp: un_less_def un_before_def un_match_def un_after_def)

definition ents_sorted :: "undo list \<Rightarrow> bool" where
  "ents_sorted = sorted_wrt un_less"

text \<open>The search splits a sorted list at the semaphore.\<close>

lemma undo_pos_split:
  assumes "ents_sorted ent"
  obtains A B found where "ent = A @ B" "undo_pos ent sid num = (length A, found)"
    "\<forall>u \<in> set A. un_before u sid num"
    "if found then \<exists>u C. B = u # C \<and> un_match u sid num \<and> (\<forall>v \<in> set C. un_after v sid num)
     else \<forall>v \<in> set B. un_after v sid num"
  using assms
proof (induction ent arbitrary: thesis)
  case Nil
  show ?case by (rule Nil.prems(1) [of "[]" "[]" False]) simp_all
next
  case (Cons u us)
  have so: "ents_sorted us" "\<forall>v \<in> set us. un_less u v" using Cons.prems(2) by (auto simp: ents_sorted_def)
  show ?case
  proof (cases "un_before u sid num")
    case True
    obtain A B found where "us = A @ B" "undo_pos us sid num = (length A, found)" "\<forall>u \<in> set A. un_before u sid num"
      "if found then \<exists>u C. B = u # C \<and> un_match u sid num \<and> (\<forall>v \<in> set C. un_after v sid num)
       else \<forall>v \<in> set B. un_after v sid num"
      using Cons.IH [OF _ so(1)] by blast
    then show ?thesis using True by (intro Cons.prems(1) [of "u # A" B found]) (auto simp: un_before_def)
  next
    case False
    then have up: "undo_pos (u # us) sid num = (0, un_match u sid num)"
      by (auto simp: un_before_def un_match_def)
    have "un_match u sid num \<or> un_after u sid num" using un_trichotomy False by blast
    then have "\<forall>v \<in> set us. un_after v sid num" using so(2) un_less_after by blast
    then show ?thesis using up un_trichotomy [of u sid num] False
      by (intro Cons.prems(1) [of "[]" "u # us" "un_match u sid num"]) auto
  qed
qed

lemma ents_sorted_append:
  "ents_sorted (A @ B) \<longleftrightarrow> ents_sorted A \<and> ents_sorted B \<and> (\<forall>u \<in> set A. \<forall>v \<in> set B. un_less u v)"
  by (simp add: ents_sorted_def sorted_wrt_append)

lemma ents_sorted_Cons: "ents_sorted (u # B) \<longleftrightarrow> (\<forall>v \<in> set B. un_less u v) \<and> ents_sorted B"
  by (simp add: ents_sorted_def)

section \<open>One update\<close>

text \<open>
  What \<open>semaoe\<close> does to the entries of the process: the new list, or an error.  \<open>max\<close> is the
  number of entries there is room for.
\<close>

definition ent_update :: "seminfo \<Rightarrow> short_t \<Rightarrow> int32_t \<Rightarrow> ushort_t \<Rightarrow> undo list \<Rightarrow> errno + undo list" where
  "ent_update info val sid num ent =
     (let (i, found) = undo_pos ent sid num in
      if \<not> found then
        if si_semume info \<le> int (length ent) then Inl EINVAL
        else Inr (take i ent @ \<lparr>un_aoe = - val, un_num = num, un_id = sid\<rparr> # drop i ent)
      else
        let aoe = un_aoe (ent ! i) - val in
        if \<not> undo_range info aoe then Inl ERANGE
        else if aoe = 0 then Inr (take i ent @ drop (Suc i) ent)
        else Inr (ent[i := (ent ! i)\<lparr>un_aoe := aoe\<rparr>]))"

definition ents_ok :: "seminfo \<Rightarrow> undo list \<Rightarrow> bool" where
  "ents_ok info ent \<longleftrightarrow> ents_sorted ent \<and> int (length ent) \<le> si_semume info \<and>
     (\<forall>u \<in> set ent. un_aoe u \<noteq> 0 \<and> undo_range info (un_aoe u))"

text \<open>The adjustment recorded for a semaphore.\<close>

fun aoe_of :: "undo list \<Rightarrow> int32_t \<Rightarrow> ushort_t \<Rightarrow> int" where
  "aoe_of [] sid num = 0"
| "aoe_of (u # us) sid num = (if un_match u sid num then sint (un_aoe u) else aoe_of us sid num)"

lemma aoe_of_append: "\<forall>u \<in> set A. \<not> un_match u sid num \<Longrightarrow> aoe_of (A @ B) sid num = aoe_of B sid num"
  by (induction A) auto

lemma aoe_of_absent: "\<forall>u \<in> set A. \<not> un_match u sid num \<Longrightarrow> aoe_of A sid num = 0"
  by (induction A) auto

text \<open>Limits under which the 16-bit arithmetic on the adjustments cannot wrap around unseen.\<close>

definition info_ok :: "seminfo \<Rightarrow> bool" where
  "info_ok info \<longleftrightarrow> 0 \<le> si_semaem info \<and> si_semaem info \<le> 16384 \<and> 0 \<le> si_semvmx info \<and> si_semvmx info \<le> 65535"

lemma undo_range_iff: "undo_range info v \<longleftrightarrow> \<bar>sint v\<bar> \<le> si_semaem info"
  by (auto simp: undo_range_def)

lemma undo_range_sub:
  assumes "info_ok info" "undo_range info a" "undo_range info b" "undo_range info (a - b)"
  shows "sint (a - b) = sint a - sint b"
proof (cases "sint a - sint b = 32768")
  case True
  have "a - b = word_of_int (sint a - sint b)" by simp
  then have "a - b = word_of_int 32768" using True by simp
  then have "sint (a - b) = - 32768" by simp
  then show ?thesis using assms(1,4) by (simp add: undo_range_iff info_ok_def)
next
  case False
  then show ?thesis using assms by (intro sint_diff) (simp_all add: undo_range_iff info_ok_def, linarith+)
qed

lemma undo_range_neg:
  assumes "info_ok info" "undo_range info a"
  shows "undo_range info (- a)" "sint (- a) = - sint a"
proof -
  have "sint (0 - a) = sint (0 :: short_t) - sint a"
    using assms by (intro sint_diff) (simp_all add: undo_range_iff info_ok_def, linarith+)
  then show "sint (- a) = - sint a" by simp
  then show "undo_range info (- a)" using assms(2) by (simp add: undo_range_iff)
qed

lemma undo_pos_absent:
  "\<forall>u \<in> set A. un_before u sid num \<Longrightarrow> \<forall>v \<in> set B. un_after v sid num \<Longrightarrow> undo_pos (A @ B) sid num = (length A, False)"
  by (induction A) (cases B, auto simp: un_before_def un_after_def)

lemma undo_pos_present:
  "\<forall>u \<in> set A. un_before u sid num \<Longrightarrow> un_match u sid num \<Longrightarrow> undo_pos (A @ u # C) sid num = (length A, True)"
  by (induction A) (auto simp: un_before_def un_match_def)

text \<open>The three ways in which an update succeeds.\<close>

inductive ent_change :: "seminfo \<Rightarrow> short_t \<Rightarrow> int32_t \<Rightarrow> ushort_t \<Rightarrow> undo list \<Rightarrow> undo list \<Rightarrow> bool"
  for info val sid num where
  insert: "\<forall>u \<in> set A. un_before u sid num \<Longrightarrow> \<forall>v \<in> set B. un_after v sid num \<Longrightarrow> int (length (A @ B)) < si_semume info \<Longrightarrow>
     ent_change info val sid num (A @ B) (A @ \<lparr>un_aoe = - val, un_num = num, un_id = sid\<rparr> # B)"
| delete: "\<forall>u \<in> set A. un_before u sid num \<Longrightarrow> \<forall>v \<in> set C. un_after v sid num \<Longrightarrow>
     ent_change info val sid num (A @ \<lparr>un_aoe = val, un_num = num, un_id = sid\<rparr> # C) (A @ C)"
| modify: "\<forall>u \<in> set A. un_before u sid num \<Longrightarrow> \<forall>v \<in> set C. un_after v sid num \<Longrightarrow> a - val \<noteq> 0 \<Longrightarrow> undo_range info (a - val) \<Longrightarrow>
     ent_change info val sid num (A @ \<lparr>un_aoe = a, un_num = num, un_id = sid\<rparr> # C)
       (A @ \<lparr>un_aoe = a - val, un_num = num, un_id = sid\<rparr> # C)"

lemma ent_update_change:
  assumes ok: "ents_ok info ent" and upd: "ent_update info val sid num ent = Inr ent'"
  shows "ent_change info val sid num ent ent'"
proof -
  have so: "ents_sorted ent" using ok by (simp add: ents_ok_def)
  obtain A B found where sp: "ent = A @ B" "undo_pos ent sid num = (length A, found)" "\<forall>u \<in> set A. un_before u sid num"
    "if found then \<exists>u C. B = u # C \<and> un_match u sid num \<and> (\<forall>v \<in> set C. un_after v sid num)
     else \<forall>v \<in> set B. un_after v sid num"
    using undo_pos_split [OF so] by blast
  show ?thesis
  proof (cases found)
    case False
    then have "ent' = A @ \<lparr>un_aoe = - val, un_num = num, un_id = sid\<rparr> # B" "int (length (A @ B)) < si_semume info"
      using upd sp(1,2) by (auto simp: ent_update_def split: if_splits)
    then show ?thesis using sp False by (simp add: ent_change.insert)
  next
    case True
    then obtain u C where B: "B = u # C" "un_match u sid num" "\<forall>v \<in> set C. un_after v sid num" using sp(4) by auto
    then have u: "u = \<lparr>un_aoe = un_aoe u, un_num = num, un_id = sid\<rparr>" by (simp add: un_match_def)
    have r: "undo_range info (un_aoe u - val)" and e: "ent' = (if un_aoe u - val = 0 then A @ C else A @ u\<lparr>un_aoe := un_aoe u - val\<rparr> # C)"
      using upd sp(1,2) True B(1) by (auto simp: ent_update_def Let_def nth_append split: if_splits)
    show ?thesis
    proof (cases "un_aoe u - val = 0")
      case True
      then have "un_aoe u = val" by simp
      then show ?thesis using ent_change.delete [OF sp(3) B(3), of info val] u e True sp(1) B(1) by metis
    next
      case False
      have "u\<lparr>un_aoe := un_aoe u - val\<rparr> = \<lparr>un_aoe = un_aoe u - val, un_num = num, un_id = sid\<rparr>" by (subst u) simp
      then show ?thesis using ent_change.modify [OF sp(3) B(3) False r] u e False sp(1) B(1) by metis
    qed
  qed
qed

lemma ent_change_back:
  assumes "ent_change info val sid num ent ent'" "ents_ok info ent" "info_ok info"
  shows "ent_update info (- val) sid num ent' = Inr ent"
  using assms
proof cases
  case (insert A B)
  have "undo_pos ent' sid num = (length A, True)" unfolding insert using insert(3) by (intro undo_pos_present) (simp_all add: un_match_def)
  then show ?thesis using insert assms(3) by (simp add: ent_update_def undo_range_def info_ok_def)
next
  case (delete A C)
  have "undo_pos ent' sid num = (length A, False)" unfolding delete using delete by (intro undo_pos_absent) simp_all
  then show ?thesis using delete assms(2) by (simp add: ent_update_def ents_ok_def)
next
  case (modify A C a)
  have "undo_pos ent' sid num = (length A, True)" unfolding modify using modify(3) by (intro undo_pos_present) (simp_all add: un_match_def)
  then show ?thesis using modify assms(2) by (simp add: ent_update_def ents_ok_def)
qed

lemma ent_change_ok:
  assumes "ent_change info val sid num ent ent'" "ents_ok info ent" "info_ok info" "val \<noteq> 0" "undo_range info val"
  shows "ents_ok info ent'"
proof -
  have neg: "undo_range info (- val)" using undo_range_neg [OF assms(3,5)] by simp
  have m: "un_match \<lparr>un_aoe = a, un_num = num, un_id = sid\<rparr> sid num" for a by (simp add: un_match_def)
  from assms(1) show ?thesis
  proof cases
    case (insert A B)
    then show ?thesis using assms(2,4) neg un_before_less m un_after_less [OF _ m]
      by (auto simp: ents_ok_def ents_sorted_append ents_sorted_Cons)
  next
    case (delete A C)
    then show ?thesis using assms(2) by (auto simp: ents_ok_def ents_sorted_append ents_sorted_Cons)
  next
    case (modify A C a)
    then show ?thesis using assms(2) un_before_less m un_after_less [OF _ m]
      by (auto simp: ents_ok_def ents_sorted_append ents_sorted_Cons)
  qed
qed

lemma ent_change_aoe:
  assumes "ent_change info val sid num ent ent'" "ents_ok info ent" "info_ok info" "undo_range info val"
  shows "aoe_of ent' s n = (if s = sid \<and> n = num then aoe_of ent s n - sint val else aoe_of ent s n)"
proof -
  have nA: "\<not> un_match u sid num" if "un_before u sid num \<or> un_after u sid num" for u
    using that un_disjoint by blast
  have o: "aoe_of (A @ B) s n = (if \<exists>u \<in> set A. un_match u s n then aoe_of A s n else aoe_of B s n)" for A B s n
    by (induction A) auto
  from assms(1) show ?thesis
  proof cases
    case (insert A B)
    have "sint (- val) = - sint val" by (rule undo_range_neg(2) [OF assms(3,4)])
    moreover have "aoe_of B sid num = 0" using insert nA by (intro aoe_of_absent) blast
    ultimately show ?thesis using insert nA unfolding insert o by (auto simp: un_match_def)
  next
    case (delete A C)
    have "aoe_of C sid num = 0" using delete nA by (intro aoe_of_absent) blast
    then show ?thesis using delete nA unfolding delete o by (auto simp: un_match_def)
  next
    case (modify A C a)
    have "undo_range info a" using assms(2) modify by (simp add: ents_ok_def)
    then have "sint (a - val) = sint a - sint val" using undo_range_sub [OF assms(3) _ assms(4) modify(6)] by simp
    then show ?thesis using modify nA unfolding modify(1,2) o by (auto simp: un_match_def)
  qed
qed

section \<open>Undo structures\<close>

text \<open>
  Every structure is free or belongs to exactly one process slot; the active list has exactly
  the structures with entries.
\<close>

definition owners_ok :: "nat list \<Rightarrow> nat option list \<Rightarrow> nat \<Rightarrow> bool" where
  "owners_ok free own n \<longleftrightarrow>
     (\<forall>s p. s < length own \<longrightarrow> own ! s = Some p \<longrightarrow> p < n \<and> p \<notin> set free) \<and>
     (\<forall>s t p. s < length own \<longrightarrow> t < length own \<longrightarrow> own ! s = Some p \<longrightarrow> own ! t = Some p \<longrightarrow> s = t) \<and>
     (\<forall>p < n. p \<in> set free \<or> Some p \<in> set own)"

definition undo_inv :: "semstate \<Rightarrow> bool" where
  "undo_inv st \<longleftrightarrow>
     (\<forall>p < length (ss_semu st). ents_ok (ss_info st) (ss_semu st ! p)) \<and>
     distinct (ss_semfup st) \<and> (\<forall>p \<in> set (ss_semfup st). p < length (ss_semu st) \<and> ss_semu st ! p = []) \<and>
     distinct (ss_semunp st) \<and> set (ss_semunp st) = {p. p < length (ss_semu st) \<and> ss_semu st ! p \<noteq> []} \<and>
     owners_ok (ss_semfup st) (ss_undo st) (length (ss_semu st))"

lemma owners_take:
  assumes own: "owners_ok (up # free) own n" "up \<notin> set free" "up < n" "s < length own" "own ! s = None"
  shows "owners_ok free (own[s := Some up]) n"
proof -
  have no: "own ! t \<noteq> Some up" if "t < length own" for t using own(1) that by (auto simp: owners_ok_def)
  have "p < n \<and> p \<notin> set free" if "t < length own" "own[s := Some up] ! t = Some p" for t p
    using that own by (auto simp: owners_ok_def nth_list_update split: if_splits)
  moreover have "t = t'" if "t < length own" "t' < length own" "own[s := Some up] ! t = Some p" "own[s := Some up] ! t' = Some p" for t t' p
  proof -
    have u: "own[s := Some up] ! t = (if t = s then Some up else own ! t)" if "t < length own" for t
      using that own(4) by simp
    show ?thesis
    proof (cases "t = s \<or> t' = s")
      case True
      then show ?thesis using that u no by (auto split: if_splits)
    next
      case False
      then show ?thesis using that u own(1) unfolding owners_ok_def by auto
    qed
  qed
  moreover have "p \<in> set free \<or> Some p \<in> set (own[s := Some up])" if "p < n" for p
  proof (cases "p = up")
    case True
    then show ?thesis using own(4) by (simp add: set_update_memI)
  next
    case False
    have "p \<in> set (up # free) \<or> Some p \<in> set own" using own(1) that by (simp add: owners_ok_def)
    then show ?thesis
    proof
      assume "Some p \<in> set own"
      then obtain t where "t < length own" "own ! t = Some p" by (auto simp: in_set_conv_nth)
      moreover from this have "t \<noteq> s" using own(5) by auto
      ultimately have "own[s := Some up] ! t = Some p" "t < length (own[s := Some up])" by simp_all
      then show ?thesis by (metis nth_mem)
    qed (use False in simp)
  qed
  ultimately show ?thesis by (simp add: owners_ok_def)
qed

definition ents_of :: "semstate \<Rightarrow> nat \<Rightarrow> undo list" where
  "ents_of st slot = (case ss_undo st ! slot of None \<Rightarrow> [] | Some p \<Rightarrow> ss_semu st ! p)"

definition same_but_undo :: "semstate \<Rightarrow> semstate \<Rightarrow> bool" where
  "same_but_undo st st' \<longleftrightarrow> ss_info st' = ss_info st \<and> ss_sema st' = ss_sema st \<and> ss_sem st' = ss_sem st \<and>
     ss_semmap st' = ss_semmap st \<and> ss_acflag st' = ss_acflag st \<and> ss_cvs st' = ss_cvs st \<and>
     length (ss_semu st') = length (ss_semu st) \<and> length (ss_undo st') = length (ss_undo st)"

lemma same_but_undo_trans: "same_but_undo st st' \<Longrightarrow> same_but_undo st' st'' \<Longrightarrow> same_but_undo st st''"
  by (simp add: same_but_undo_def)

lemma undo_inv_ents:
  assumes "undo_inv st" "slot < length (ss_undo st)" "ents_ok (ss_info st) []"
  shows "ents_ok (ss_info st) (ents_of st slot)"
  using assms by (auto simp: undo_inv_def owners_ok_def ents_of_def split: option.splits)

lemma undo_struct_ok:
  assumes inv: "undo_inv st" and slot: "slot < length (ss_undo st)"
  shows "(undo_struct slot st = KRet (None, st) \<and> ss_undo st ! slot = None \<and> ss_semfup st = []) \<or>
    (\<exists>up st'. undo_struct slot st = KRet (Some up, st') \<and> undo_inv st' \<and> same_but_undo st st' \<and>
       ss_undo st' ! slot = Some up \<and> up < length (ss_semu st') \<and> ss_semu st' ! up = ents_of st slot \<and>
       (\<forall>s < length (ss_undo st). ents_of st' s = ents_of st s) \<and> ss_semu st' = ss_semu st)"
proof (cases "ss_undo st ! slot")
  case (Some up)
  then have "up < length (ss_semu st)" using inv slot by (auto simp: undo_inv_def owners_ok_def)
  then show ?thesis using Some slot inv by (auto simp: undo_struct_def same_but_undo_def ents_of_def)
next
  case None
  show ?thesis
  proof (cases "ss_semfup st")
    case Nil
    then show ?thesis using None slot by (simp add: undo_struct_def)
  next
    case (Cons up free)
    define st' where "st' = st\<lparr>ss_semfup := free, ss_undo := (ss_undo st)[slot := Some up]\<rparr>"
    have eq: "undo_struct slot st = KRet (Some up, st')" using None Cons slot by (simp add: undo_struct_def st'_def)
    have up: "up < length (ss_semu st)" "ss_semu st ! up = []" "up \<notin> set free" "distinct free"
      using inv Cons by (simp_all add: undo_inv_def)
    have n: "ss_undo st' ! s = (if s = slot then Some up else ss_undo st ! s)" if "s < length (ss_undo st)" for s
      using that by (simp add: st'_def)
    have f: "ss_semfup st' = free" "ss_semu st' = ss_semu st" "ss_semunp st' = ss_semunp st" "ss_info st' = ss_info st"
      "ss_undo st' = (ss_undo st)[slot := Some up]" by (simp_all add: st'_def)
    have "owners_ok free (ss_undo st') (length (ss_semu st))"
      unfolding f(5) using inv Cons up slot None by (intro owners_take) (simp_all add: undo_inv_def)
    then have "undo_inv st'" using inv Cons unfolding undo_inv_def f by simp
    moreover have "ents_of st' s = ents_of st s" if "s < length (ss_undo st)" for s
      using that n None up(2) f(2) by (auto simp: ents_of_def split: option.splits)
    moreover have "ss_undo st' ! slot = Some up" "ss_semu st' ! up = ents_of st slot"
      using n slot None up(2) f(2) by (simp_all add: ents_of_def)
    moreover have "same_but_undo st st'" by (simp add: same_but_undo_def st'_def)
    ultimately show ?thesis using eq up(1) f(2) by auto
  qed
qed

text \<open>New entries for the structure of a process, with the active list kept in step.\<close>

lemma undo_put_ok:
  assumes inv: "undo_inv st" and slot: "slot < length (ss_undo st)" "ss_undo st ! slot = Some up" "up < length (ss_semu st)"
    and ent: "ents_ok (ss_info st) ent"
    and act: "act = (if ent = [] then remove1 up (ss_semunp st) else if ss_semu st ! up = [] then up # ss_semunp st else ss_semunp st)"
  defines "st' \<equiv> st\<lparr>ss_semunp := act, ss_semu := (ss_semu st)[up := ent]\<rparr>"
  shows "undo_inv st'" "same_but_undo st st'" "ss_undo st' = ss_undo st" "ents_of st' slot = ent"
    "\<And>s. s < length (ss_undo st) \<Longrightarrow> s \<noteq> slot \<Longrightarrow> ents_of st' s = ents_of st s"
proof -
  have f: "ss_semfup st' = ss_semfup st" "ss_undo st' = ss_undo st" "ss_semunp st' = act" "ss_info st' = ss_info st"
    "length (ss_semu st') = length (ss_semu st)" by (simp_all add: st'_def)
  have n: "ss_semu st' ! p = (if p = up then ent else ss_semu st ! p)" for p using slot(3) by (simp add: st'_def)
  have uf: "up \<notin> set (ss_semfup st)" using inv slot by (auto simp: undo_inv_def owners_ok_def)
  have "distinct act \<and> set act = {p. p < length (ss_semu st) \<and> ss_semu st' ! p \<noteq> []}"
    using inv slot(3) unfolding act undo_inv_def n by (auto simp: set_remove1_eq)
  moreover have "\<forall>p < length (ss_semu st). ents_ok (ss_info st) (ss_semu st' ! p)" using inv ent n by (simp add: undo_inv_def)
  moreover have "\<forall>p \<in> set (ss_semfup st). p < length (ss_semu st) \<and> ss_semu st' ! p = []" using inv n uf by (auto simp: undo_inv_def)
  ultimately show "undo_inv st'" using inv unfolding undo_inv_def f by simp
  show "same_but_undo st st'" "ss_undo st' = ss_undo st" by (simp_all add: same_but_undo_def st'_def)
  show "ents_of st' slot = ent" using slot n f(2) by (simp add: ents_of_def)
  show "ents_of st' s = ents_of st s" if "s < length (ss_undo st)" "s \<noteq> slot" for s
    using that slot inv n f(2) by (auto simp: ents_of_def undo_inv_def owners_ok_def split: option.splits)
qed

section \<open>Semaoe\<close>

lemma undo_pos_found: "undo_pos us sid num = (i, True) \<Longrightarrow> i < length us"
  by (induction us arbitrary: i) (auto split: if_splits prod.splits)

lemma info_ok_nil: "0 \<le> si_semume info \<Longrightarrow> ents_ok info []"
  by (simp add: ents_ok_def ents_sorted_def)

text \<open>
  The outcome of \<open>semaoe\<close> in terms of the entries of the process: an error that leaves the
  entries of every process alone, or the update of one list.
\<close>

definition aoe_error :: "semstate \<Rightarrow> (errno option \<times> semstate) kres \<Rightarrow> errno \<Rightarrow> bool" where
  "aoe_error st r e \<longleftrightarrow> (\<exists>st'. r = KRet (Some e, st') \<and> undo_inv st' \<and> same_but_undo st st' \<and>
     (\<forall>s < length (ss_undo st). ents_of st' s = ents_of st s \<and> (ss_undo st ! s \<noteq> None \<longrightarrow> ss_undo st' ! s \<noteq> None)))"

definition aoe_done :: "semstate \<Rightarrow> (errno option \<times> semstate) kres \<Rightarrow> nat \<Rightarrow> undo list \<Rightarrow> bool" where
  "aoe_done st r slot ent \<longleftrightarrow> (\<exists>st'. r = KRet (None, st') \<and> undo_inv st' \<and> same_but_undo st st' \<and> ss_undo st' ! slot \<noteq> None \<and>
     (\<forall>s < length (ss_undo st). ents_of st' s = (if s = slot then ent else ents_of st s) \<and>
        (ss_undo st ! s \<noteq> None \<longrightarrow> ss_undo st' ! s \<noteq> None)))"

lemma semaoe_spec:
  assumes inv: "undo_inv st" and slot: "slot < length (ss_undo st)"
    and info: "info_ok (ss_info st)" "0 \<le> si_semume (ss_info st)" and val: "val \<noteq> 0"
  shows "if \<not> undo_range (ss_info st) val then aoe_error st (semaoe slot val sid num st) ERANGE
    else if ss_undo st ! slot = None \<and> ss_semfup st = [] then aoe_error st (semaoe slot val sid num st) ENOSPC
    else case ent_update (ss_info st) val sid num (ents_of st slot) of
      Inl e \<Rightarrow> aoe_error st (semaoe slot val sid num st) e
    | Inr ent \<Rightarrow> aoe_done st (semaoe slot val sid num st) slot ent"
proof (cases "undo_range (ss_info st) val")
  case False
  then show ?thesis using val inv by (simp add: semaoe_def aoe_error_def same_but_undo_def)
next
  case rng: True
  show ?thesis
  proof (cases "ss_undo st ! slot = None \<and> ss_semfup st = []")
    case True
    then have "undo_struct slot st = KRet (None, st)" using slot by (simp add: undo_struct_def)
    then have "semaoe slot val sid num st = KRet (Some ENOSPC, st)" using val rng by (simp add: semaoe_def)
    then show ?thesis using True rng inv by (simp add: aoe_error_def same_but_undo_def)
  next
    case False
    then obtain up st1 where us: "undo_struct slot st = KRet (Some up, st1)" "undo_inv st1" "same_but_undo st st1"
      "ss_undo st1 ! slot = Some up" "up < length (ss_semu st1)" "ss_semu st1 ! up = ents_of st slot"
      "\<forall>s < length (ss_undo st). ents_of st1 s = ents_of st s"
      using undo_struct_ok [OF inv slot] by blast
    have i1: "ss_info st1 = ss_info st" "length (ss_undo st1) = length (ss_undo st)" using us(3) by (simp_all add: same_but_undo_def)
    have kept: "ss_undo st ! s \<noteq> None \<longrightarrow> ss_undo st1 ! s \<noteq> None" if "s < length (ss_undo st)" for s
      using us(1) slot that by (auto simp: undo_struct_def nth_list_update split: option.splits list.splits if_splits)
    let ?ent = "ents_of st slot"
    have eo: "ents_ok (ss_info st) ?ent" by (rule undo_inv_ents [OF inv slot info_ok_nil [OF info(2)]])
    have step: "semaoe slot val sid num st = (case ent_update (ss_info st) val sid num ?ent of
        Inl ERANGE \<Rightarrow> KRet (Some ERANGE, st1\<lparr>ss_semu := (ss_semu st1)[up := ?ent]\<rparr>)
      | Inl e \<Rightarrow> KRet (Some e, st1)
      | Inr ent \<Rightarrow> KRet (None, st1\<lparr>ss_semunp := (if ent = [] then remove1 up (ss_semunp st1)
            else if ?ent = [] then up # ss_semunp st1 else ss_semunp st1), ss_semu := (ss_semu st1)[up := ent]\<rparr>))"
    proof -
      obtain i found where pos: "undo_pos ?ent sid num = (i, found)" by fastforce
      have ne: "found \<Longrightarrow> ?ent \<noteq> [] \<and> i < length ?ent" using pos undo_pos_found [of ?ent sid num i] by (cases ?ent) auto
      have "(?ent ! i)\<lparr>un_aoe := un_aoe (?ent ! i) - val + val\<rparr> = ?ent ! i" by simp
      then have same: "?ent[i := (?ent ! i)\<lparr>un_aoe := un_aoe (?ent ! i) - val + val\<rparr>] = ?ent" by (simp only: list_update_id)
      have le: "\<not> length (ss_semu st1) \<le> up" using us(5) by simp
      have sem: "semaoe slot val sid num st =
          (if \<not> found then
             if si_semume (ss_info st1) \<le> int (length ?ent) then KRet (Some EINVAL, st1)
             else
               let st = (if length ?ent = 0 then st1\<lparr>ss_semunp := up # ss_semunp st1\<rparr> else st1);
                   ent = take i ?ent @ \<lparr>un_aoe = - val, un_num = num, un_id = sid\<rparr> # drop i ?ent
               in KRet (None, st\<lparr>ss_semu := (ss_semu st)[up := ent]\<rparr>)
           else
             let aoe = un_aoe (?ent ! i) - val in
             if \<not> undo_range (ss_info st1) aoe then
               KRet (Some ERANGE, st1\<lparr>ss_semu := (ss_semu st1)[up := ?ent]\<rparr>)
             else if aoe = 0 then
               let ent = take i ?ent @ drop (Suc i) ?ent;
                   st = (if length ent = 0 then st1\<lparr>ss_semunp := remove1 up (ss_semunp st1)\<rparr> else st1)
               in KRet (None, st\<lparr>ss_semu := (ss_semu st)[up := ent]\<rparr>)
             else KRet (None, st1\<lparr>ss_semu := (ss_semu st1)[up := ?ent[i := (?ent ! i)\<lparr>un_aoe := aoe\<rparr>]]\<rparr>))"
        unfolding semaoe_def if_not_P [OF val] us(1) kbind.simps prod.case option.case if_not_P [OF le] us(6) Let_def pos same
        using rng by simp
      show ?thesis
        unfolding sem ent_update_def pos Let_def prod.case i1(1) using ne by (auto simp: min_def split: if_splits)
    qed
    show ?thesis
    proof (cases "ent_update (ss_info st) val sid num ?ent")
      case (Inl e)
      have "(ss_semu st1)[up := ?ent] = ss_semu st1" using us(6) by (metis list_update_id)
      then have "semaoe slot val sid num st = KRet (Some e, st1)" using step Inl by (cases e) simp_all
      then show ?thesis using Inl rng False us kept by (auto simp: aoe_error_def)
    next
      case (Inr ent)
      note ch = ent_update_change [OF eo Inr]
      have e1: "ents_ok (ss_info st1) ent" using ent_change_ok [OF ch eo info(1) val rng] i1 by simp
      have slot1: "slot < length (ss_undo st1)" using slot i1 by simp
      note put = undo_put_ok [OF us(2) slot1 us(4,5) e1 refl]
      show ?thesis using step Inr rng False put us kept same_but_undo_trans [OF us(3) put(2)] i1
        unfolding us(6) by (auto simp: aoe_done_def)
    qed
  qed
qed

section \<open>Semunrm\<close>

definition un_doomed :: "int32_t \<Rightarrow> ushort_t \<Rightarrow> ushort_t \<Rightarrow> undo \<Rightarrow> bool" where
  "un_doomed sid low high u \<longleftrightarrow> un_id u = sid \<and> low \<le> un_num u \<and> un_num u \<le> high"

lemma undo_squeeze_filter:
  "ents_sorted ent \<Longrightarrow> undo_squeeze sid low high ent = filter (\<lambda>u. \<not> un_doomed sid low high u) ent"
proof (induction ent)
  case Nil
  then show ?case by simp
next
  case (Cons u us)
  have so: "ents_sorted us" "\<forall>v \<in> set us. un_less u v" using Cons.prems by (auto simp: ents_sorted_def)
  have IH: "undo_squeeze sid low high us = filter (\<lambda>u. \<not> un_doomed sid low high u) us" by (rule Cons.IH [OF so(1)])
  consider "sint sid < sint (un_id u)" | "sint (un_id u) < sint sid" | "un_id u = sid"
    using sint_inj [of "un_id u" sid] by linarith
  then show ?case
  proof cases
    case 1
    then have "\<forall>v \<in> set (u # us). \<not> un_doomed sid low high v"
      using so(2) by (auto simp: un_less_def un_before_def un_doomed_def)
    then have "filter (\<lambda>u. \<not> un_doomed sid low high u) (u # us) = u # us" by (simp only: filter_id_conv)
    then show ?thesis using 1 by simp
  next
    case 2
    then show ?thesis using IH by (auto simp: un_doomed_def)
  next
    case 3
    show ?thesis
    proof (cases "high < un_num u")
      case True
      have "\<not> un_doomed sid low high v" if "v \<in> set us" for v
      proof
        assume v: "un_doomed sid low high v"
        have "un_before u (un_id v) (un_num v)" using so(2) that by (simp add: un_less_def)
        then have "un_num u < un_num v" using v 3 by (simp add: un_before_def un_doomed_def)
        then have "high < un_num v" using True by (rule order.strict_trans [rotated])
        then show False using v unfolding un_doomed_def by (meson leD)
      qed
      then have "filter (\<lambda>u. \<not> un_doomed sid low high u) us = us" by (simp add: filter_id_conv)
      then show ?thesis using 3 True IH by (auto simp: un_doomed_def)
    next
      case False
      then show ?thesis using 3 IH by (auto simp: un_doomed_def)
    qed
  qed
qed

lemma semunrm_walk_ok:
  "distinct ps \<Longrightarrow> \<forall>p \<in> set ps. p < length semu \<Longrightarrow>
   \<exists>semu'. semunrm_walk sid low high ps semu =
      KRet (filter (\<lambda>p. undo_squeeze sid low high (semu ! p) \<noteq> []) ps, semu') \<and> length semu' = length semu \<and>
     (\<forall>q. semu' ! q = (if q \<in> set ps then undo_squeeze sid low high (semu ! q) else semu ! q))"
proof (induction ps arbitrary: semu)
  case Nil
  then show ?case by simp
next
  case (Cons p ps)
  let ?e = "undo_squeeze sid low high (semu ! p)"
  have p: "p < length semu" "p \<notin> set ps" using Cons.prems by simp_all
  obtain semu' where w: "semunrm_walk sid low high ps (semu[p := ?e]) =
      KRet (filter (\<lambda>q. undo_squeeze sid low high (semu[p := ?e] ! q) \<noteq> []) ps, semu')" "length semu' = length semu"
    "\<forall>q. semu' ! q = (if q \<in> set ps then undo_squeeze sid low high (semu[p := ?e] ! q) else semu[p := ?e] ! q)"
    using Cons.IH [of "semu[p := ?e]"] Cons.prems by auto
  have f: "filter (\<lambda>q. undo_squeeze sid low high (semu[p := ?e] ! q) \<noteq> []) ps =
      filter (\<lambda>q. undo_squeeze sid low high (semu ! q) \<noteq> []) ps"
  proof (rule filter_cong [OF refl])
    fix q assume "q \<in> set ps"
    then have "p \<noteq> q" using p(2) by blast
    then show "undo_squeeze sid low high (semu[p := ?e] ! q) \<noteq> [] \<longleftrightarrow> undo_squeeze sid low high (semu ! q) \<noteq> []" by simp
  qed
  have "semu' ! q = (if q \<in> set (p # ps) then undo_squeeze sid low high (semu ! q) else semu ! q)" for q
    using w(3) p by (cases "q = p") auto
  then show ?case using w(1,2) f p by (simp add: Let_def)
qed

lemma ents_ok_filter:
  assumes "ents_ok info ent"
  shows "ents_ok info (filter P ent)"
proof -
  have "int (length ent) \<le> si_semume info" using assms by (simp add: ents_ok_def)
  then have "int (length (filter P ent)) \<le> si_semume info"
    using length_filter_le [of P ent] by linarith
  then show ?thesis using assms by (simp add: ents_ok_def ents_sorted_def sorted_wrt_filter)
qed

text \<open>\<open>semunrm\<close> removes exactly the entries of the given semaphores, from every process.\<close>

lemma semunrm_ok:
  assumes inv: "undo_inv st"
  shows "\<exists>st'. semunrm sid low high st = KRet st' \<and> undo_inv st' \<and> same_but_undo st st' \<and> ss_undo st' = ss_undo st \<and>
    (\<forall>slot < length (ss_undo st). ents_of st' slot = filter (\<lambda>u. \<not> un_doomed sid low high u) (ents_of st slot))"
proof -
  let ?P = "\<lambda>u. \<not> un_doomed sid low high u" and ?n = "length (ss_semu st)"
  have d: "distinct (ss_semunp st)" "\<forall>p \<in> set (ss_semunp st). p < ?n" using inv by (auto simp: undo_inv_def)
  obtain semu' where w: "semunrm_walk sid low high (ss_semunp st) (ss_semu st) =
      KRet (filter (\<lambda>p. undo_squeeze sid low high (ss_semu st ! p) \<noteq> []) (ss_semunp st), semu')" "length semu' = ?n"
    "\<forall>q. semu' ! q = (if q \<in> set (ss_semunp st) then undo_squeeze sid low high (ss_semu st ! q) else ss_semu st ! q)"
    using semunrm_walk_ok [OF d, of sid low high] by (elim exE conjE) (rule that)
  have so: "ents_sorted (ss_semu st ! q)" if "q < ?n" for q using inv that by (auto simp: undo_inv_def ents_ok_def)
  have act: "set (ss_semunp st) = {p. p < ?n \<and> ss_semu st ! p \<noteq> []}" using inv by (simp add: undo_inv_def)
  have el: "semu' ! q = filter ?P (ss_semu st ! q)" if "q < ?n" for q
  proof (cases "q \<in> set (ss_semunp st)")
    case True
    then show ?thesis using w(3) undo_squeeze_filter [OF so [OF that]] by simp
  next
    case False
    then show ?thesis using w(3) act that by simp
  qed
  define st' where "st' = st\<lparr>ss_semunp := filter (\<lambda>p. undo_squeeze sid low high (ss_semu st ! p) \<noteq> []) (ss_semunp st), ss_semu := semu'\<rparr>"
  have eq: "semunrm sid low high st = KRet st'" using w(1) by (simp add: semunrm_def st'_def)
  have f: "ss_semfup st' = ss_semfup st" "ss_undo st' = ss_undo st" "ss_info st' = ss_info st" "ss_semu st' = semu'"
    "ss_semunp st' = filter (\<lambda>p. undo_squeeze sid low high (ss_semu st ! p) \<noteq> []) (ss_semunp st)" by (simp_all add: st'_def)
  have "p \<in> set (ss_semunp st') \<longleftrightarrow> p < ?n \<and> semu' ! p \<noteq> []" for p
  proof (cases "p < ?n")
    case True
    have "undo_squeeze sid low high (ss_semu st ! p) = semu' ! p" using el [OF True] undo_squeeze_filter [OF so [OF True]] by simp
    moreover have "semu' ! p \<noteq> [] \<Longrightarrow> ss_semu st ! p \<noteq> []" using el [OF True] by auto
    ultimately show ?thesis using True act unfolding f by auto
  next
    case False
    then show ?thesis using d(2) unfolding f by auto
  qed
  then have "set (ss_semunp st') = {p. p < ?n \<and> semu' ! p \<noteq> []}" by blast
  moreover have "\<forall>p \<in> set (ss_semfup st). p < ?n \<and> semu' ! p = []"
  proof
    fix p assume "p \<in> set (ss_semfup st)"
    then have "p < ?n" "ss_semu st ! p = []" using inv by (simp_all add: undo_inv_def)
    then show "p < ?n \<and> semu' ! p = []" using el [of p] by simp
  qed
  moreover have "\<forall>p < ?n. ents_ok (ss_info st) (semu' ! p)"
  proof (intro allI impI)
    fix p assume p: "p < ?n"
    then have "ents_ok (ss_info st) (ss_semu st ! p)" using inv by (simp add: undo_inv_def)
    then show "ents_ok (ss_info st) (semu' ! p)" using el [OF p] ents_ok_filter by simp
  qed
  moreover have "distinct (ss_semunp st')" using d(1) unfolding f by simp
  moreover have "distinct (ss_semfup st)" "owners_ok (ss_semfup st) (ss_undo st) ?n" using inv by (simp_all add: undo_inv_def)
  ultimately have "undo_inv st'" using w(2) unfolding undo_inv_def f(1-4) by simp
  moreover have "ents_of st' slot = filter ?P (ents_of st slot)" if "slot < length (ss_undo st)" for slot
  proof (cases "ss_undo st ! slot")
    case (Some p)
    then have "p < ?n" using that inv by (simp add: undo_inv_def owners_ok_def)
    then show ?thesis using Some el [of p] by (simp add: ents_of_def f)
  qed (simp add: ents_of_def f)
  moreover have "same_but_undo st st'" using w(2) by (simp add: same_but_undo_def st'_def)
  ultimately show ?thesis using eq f(2) by blast
qed

end
