(* ===== verification/Sem_Op.thy ===== *)
theory Sem_Op
  imports Sem_Undo
begin

text \<open>
  The passes of \<open>semop\<close> of \<^verbatim>\<open>Sem\<close> against an abstract pass that works on the values and the
  entries of the caller alone and has nothing to undo.
\<close>

section \<open>The abstract pass\<close>

text \<open>\<open>room\<close> says whether the caller has an undo structure or can take one.\<close>

definition undo_spec :: "seminfo \<Rightarrow> bool \<Rightarrow> int32_t \<Rightarrow> sembuf \<Rightarrow> undo list \<Rightarrow> errno + undo list" where
  "undo_spec info room sid opn ent =
     (if sem_flg opn AND SEM_UNDO = 0 then Inr ent
      else if \<not> undo_range info (sem_op opn) then Inl ERANGE
      else if \<not> room then Inl ENOSPC
      else ent_update info (sem_op opn) sid (sem_num opn) ent)"

definition op_nowait :: "sembuf \<Rightarrow> bool" where
  "op_nowait opn \<longleftrightarrow> (ucast (sem_flg opn) :: int32_t) AND IPC_NOWAIT \<noteq> 0"

definition op_pos :: "nat \<Rightarrow> sembuf \<Rightarrow> nat" where
  "op_pos base opn = base + unat (sem_num opn)"

definition op_fits :: "int \<Rightarrow> sembuf \<Rightarrow> int \<Rightarrow> bool" where
  "op_fits vmx opn v \<longleftrightarrow> (if sem_op opn = 0 then v = 0 else 0 \<le> v + sint (sem_op opn) \<and> (0 < sint (sem_op opn) \<longrightarrow> v + sint (sem_op opn) \<le> vmx))"

definition op_refused :: "nat \<Rightarrow> sembuf \<Rightarrow> pass_out" where
  "op_refused base opn =
     (if 0 < sint (sem_op opn) then Pass_error ERANGE
      else if op_nowait opn then Pass_error EAGAIN
      else Pass_wait (if sem_op opn = 0 then Wait_z else Wait_n) (op_pos base opn))"

fun pass_spec :: "seminfo \<Rightarrow> bool \<Rightarrow> int32_t \<Rightarrow> nat \<Rightarrow> sembuf list \<Rightarrow> int list \<Rightarrow> undo list \<Rightarrow> pass_out + (int list \<times> undo list)" where
  "pass_spec info room sid base [] vs ent = Inr (vs, ent)"
| "pass_spec info room sid base (opn # ops) vs ent =
     (let k = op_pos base opn in
      if \<not> op_fits (si_semvmx info) opn (vs ! k) then Inl (op_refused base opn)
      else if sem_op opn = 0 then pass_spec info room sid base ops vs ent
      else case undo_spec info room sid opn ent of
        Inl e \<Rightarrow> Inl (Pass_error e)
      | Inr ent \<Rightarrow> pass_spec info room sid base ops (vs[k := vs ! k + sint (sem_op opn)]) ent)"

section \<open>What a pass keeps\<close>

definition vals :: "semstate \<Rightarrow> int list" where
  "vals st = map (\<lambda>s. int (unat (semval s))) (ss_sem st)"

definition entl :: "semstate \<Rightarrow> undo list list" where
  "entl st = map (ents_of st) [0..<length (ss_undo st)]"

definition unbinary :: "semid_ds \<Rightarrow> semid_ds" where
  "unbinary sp = sp\<lparr>sem_binary := False\<rparr>"

definition room :: "nat \<Rightarrow> semstate \<Rightarrow> bool" where
  "room slot st \<longleftrightarrow> ss_undo st ! slot \<noteq> None \<or> ss_semfup st \<noteq> []"

definition frame :: "semstate \<Rightarrow> semstate \<Rightarrow> bool" where
  "frame st st' \<longleftrightarrow> undo_inv st' \<and> ss_info st' = ss_info st \<and> ss_semmap st' = ss_semmap st \<and> ss_acflag st' = ss_acflag st \<and>
     map unbinary (ss_sema st') = map unbinary (ss_sema st) \<and> map sempid (ss_sem st') = map sempid (ss_sem st) \<and>
     length (ss_semu st') = length (ss_semu st) \<and> length (ss_undo st') = length (ss_undo st) \<and>
     (\<forall>s < length (ss_undo st). ss_undo st ! s \<noteq> None \<longrightarrow> ss_undo st' ! s \<noteq> None)"

definition pass_keeps :: "semstate \<Rightarrow> semstate \<Rightarrow> bool" where
  "pass_keeps st st' \<longleftrightarrow> frame st st' \<and> vals st' = vals st \<and> entl st' = entl st"

lemma frame_refl: "undo_inv st \<Longrightarrow> frame st st"
  by (simp add: frame_def)

lemma frame_trans: "frame st st' \<Longrightarrow> frame st' st'' \<Longrightarrow> frame st st''"
  by (simp add: frame_def)

lemma pass_keeps_trans: "pass_keeps st st' \<Longrightarrow> pass_keeps st' st'' \<Longrightarrow> pass_keeps st st''"
  using frame_trans by (auto simp: pass_keeps_def)

lemma frame_base:
  assumes "frame st st'" "i < length (ss_sema st)"
  shows "sem_base (ss_sema st' ! i) = sem_base (ss_sema st ! i)" "i < length (ss_sema st')"
proof -
  have m: "map unbinary (ss_sema st') = map unbinary (ss_sema st)" using assms(1) by (simp add: frame_def)
  then have l: "length (ss_sema st') = length (ss_sema st)" by (rule map_eq_imp_length_eq)
  then have "unbinary (ss_sema st' ! i) = unbinary (ss_sema st ! i)" using m assms(2) by (metis nth_map)
  then show "sem_base (ss_sema st' ! i) = sem_base (ss_sema st ! i)" by (simp add: unbinary_def) (metis semid_ds.ext_inject semid_ds.surjective semid_ds.update_convs(6))
  show "i < length (ss_sema st')" using l assms(2) by simp
qed

lemma frame_length: "frame st st' \<Longrightarrow> length (ss_sem st') = length (ss_sem st)"
  unfolding frame_def by (metis map_eq_imp_length_eq)

lemma vals_nth: "k < length (ss_sem st) \<Longrightarrow> vals st ! k = int (unat (semval (ss_sem st ! k)))"
  by (simp add: vals_def)

lemma entl_nth: "s < length (ss_undo st) \<Longrightarrow> entl st ! s = ents_of st s"
  by (simp add: entl_def)

lemma length_vals: "length (vals st) = length (ss_sem st)" and length_entl: "length (entl st) = length (ss_undo st)"
  by (simp_all add: vals_def entl_def)

lemma entl_eqI:
  assumes "length (ss_undo st') = length (ss_undo st)" "\<And>s. s < length (ss_undo st) \<Longrightarrow> ents_of st' s = ents_of st s"
  shows "entl st' = entl st"
  using assms by (simp add: entl_def)

text \<open>Changes outside the undo structures: a value stored at one semaphore, and wakeups.\<close>

lemma undo_inv_cong:
  assumes "ss_semu st' = ss_semu st" "ss_semfup st' = ss_semfup st" "ss_semunp st' = ss_semunp st" "ss_undo st' = ss_undo st" "ss_info st' = ss_info st"
  shows "undo_inv st' = undo_inv st" "entl st' = entl st" "room slot st' = room slot st"
proof -
  have "ents_of st' = ents_of st" unfolding ents_of_def assms by simp
  then show "entl st' = entl st" using assms by (simp add: entl_def)
qed (use assms in \<open>simp_all add: undo_inv_def room_def\<close>)

definition same_undo :: "semstate \<Rightarrow> semstate \<Rightarrow> bool" where
  "same_undo st st' \<longleftrightarrow> ss_semu st' = ss_semu st \<and> ss_semfup st' = ss_semfup st \<and> ss_semunp st' = ss_semunp st \<and>
     ss_undo st' = ss_undo st \<and> ss_info st' = ss_info st \<and> ss_semmap st' = ss_semmap st \<and> ss_acflag st' = ss_acflag st"

lemma same_undo_inv:
  assumes "same_undo st st'"
  shows "undo_inv st' = undo_inv st" "entl st' = entl st" "room slot st' = room slot st"
  using undo_inv_cong [of st' st] assms by (simp_all add: same_undo_def)

definition sem_touch :: "nat \<Rightarrow> sem \<Rightarrow> semstate \<Rightarrow> semstate \<Rightarrow> bool" where
  "sem_touch k s st st' \<longleftrightarrow> same_undo st st' \<and> ss_sema st' = ss_sema st \<and>
     (\<exists>s'. ss_sem st' = (ss_sem st)[k := s'] \<and> semval s' = semval s \<and> sempid s' = sempid s)"

lemma sem_touch_put: "semval s' = semval s \<Longrightarrow> sempid s' = sempid s \<Longrightarrow> sem_touch k s st (sem_put k s' st)"
  by (auto simp: sem_touch_def sem_put_def same_undo_def)

lemma sem_touch_send: "sem_touch k s st (sem_put k s' (cv_send e st)) = sem_touch k s st (sem_put k s' st)"
  by (simp add: sem_touch_def sem_put_def cv_send_def same_undo_def)

lemma sem_touch_send2: "sem_touch k s st (sem_put k s' (cv_send e (cv_send d st))) = sem_touch k s st (sem_put k s' st)"
  by (simp add: sem_touch_def sem_put_def cv_send_def same_undo_def)

lemma sem_touch_raise: "sem_touch k s st (sem_raise signal k s st)"
  unfolding sem_raise_def by (auto simp: Let_def sem_touch_send sem_touch_send2 intro: sem_touch_put)

lemma sem_touch_lower: "sem_touch k s st (sem_lower k s st)"
  unfolding sem_lower_def by (auto simp: Let_def sem_touch_send intro: sem_touch_put)

lemma map_update_same: "k < length xs \<Longrightarrow> f y = f (xs ! k) \<Longrightarrow> map f (xs[k := y]) = map f xs"
  by (metis length_map list_update_id map_update nth_map)

lemma sem_touch_effect:
  assumes "sem_touch k s st st'" "undo_inv st" "k < length (ss_sem st)" "sempid s = sempid (ss_sem st ! k)"
  shows "frame st st'" "vals st' = (vals st)[k := int (unat (semval s))]" "entl st' = entl st" "ss_sema st' = ss_sema st"
    "room slot st' = room slot st" "ss_undo st' = ss_undo st"
proof -
  obtain s' where e: "ss_sem st' = (ss_sem st)[k := s']" "semval s' = semval s" "sempid s' = sempid s"
    and same: "same_undo st st'" "ss_sema st' = ss_sema st"
    using assms(1) by (auto simp: sem_touch_def)
  note u = same_undo_inv [OF same(1)]
  have "map sempid (ss_sem st') = map sempid (ss_sem st)" unfolding e(1) using assms(3,4) e(3) by (simp add: map_update_same)
  then show "frame st st'" using u(1) assms(2) same by (simp add: frame_def same_undo_def)
  show "vals st' = (vals st)[k := int (unat (semval s))]" using e by (simp add: vals_def map_update)
  show "entl st' = entl st" "room slot st' = room slot st" using u by simp_all
  show "ss_sema st' = ss_sema st" "ss_undo st' = ss_undo st" using same by (simp_all add: same_undo_def)
qed

section \<open>One operation, and its reversal\<close>

definition sem_ready :: "nat \<Rightarrow> semstate \<Rightarrow> bool" where
  "sem_ready slot st \<longleftrightarrow> undo_inv st \<and> info_ok (ss_info st) \<and> 0 \<le> si_semume (ss_info st) \<and> slot < length (ss_undo st)"

lemma frame_ready: "frame st st' \<Longrightarrow> sem_ready slot st \<Longrightarrow> sem_ready slot st'"
  by (simp add: frame_def sem_ready_def)

lemma ready_ents: "sem_ready slot st \<Longrightarrow> ents_ok (ss_info st) (ents_of st slot)"
  by (simp add: sem_ready_def undo_inv_ents info_ok_nil)

lemma same_but_undo_frame:
  assumes "same_but_undo st st'" "undo_inv st'" "\<forall>s < length (ss_undo st). ss_undo st ! s \<noteq> None \<longrightarrow> ss_undo st' ! s \<noteq> None"
  shows "frame st st'"
  using assms by (simp add: frame_def same_but_undo_def)

lemma entl_one:
  assumes "length (ss_undo st') = length (ss_undo st)" "\<forall>s < length (ss_undo st). ents_of st' s = (if s = slot then ent else ents_of st s)"
  shows "entl st' = (entl st)[slot := ent]"
proof (rule nth_equalityI)
  show "length (entl st') = length ((entl st)[slot := ent])" using assms(1) by (simp add: length_entl)
  fix s assume "s < length (entl st')"
  then have s: "s < length (ss_undo st)" using assms(1) by (simp add: length_entl)
  then have "entl st' ! s = (if s = slot then ent else ents_of st s)" using assms by (simp add: entl_nth)
  then show "entl st' ! s = (entl st)[slot := ent] ! s" using s by (simp add: entl_nth length_entl)
qed

definition aoe_result :: "nat \<Rightarrow> semstate \<Rightarrow> errno + undo list \<Rightarrow> errno option \<times> semstate \<Rightarrow> bool" where
  "aoe_result slot st spec r \<longleftrightarrow>
     (case r of (e, st') \<Rightarrow> frame st st' \<and> ss_sem st' = ss_sem st \<and> ss_sema st' = ss_sema st \<and>
        (case spec of Inl x \<Rightarrow> e = Some x \<and> entl st' = entl st
         | Inr ent \<Rightarrow> e = None \<and> entl st' = (entl st)[slot := ent] \<and> ss_undo st' ! slot \<noteq> None))"

lemma aoe_error_result: "aoe_error st r e \<Longrightarrow> \<exists>x. r = KRet x \<and> aoe_result slot st (Inl e) x"
  by (auto simp: aoe_error_def aoe_result_def same_but_undo_def intro!: same_but_undo_frame entl_eqI)

lemma aoe_done_result: "aoe_done st r slot ent \<Longrightarrow> \<exists>x. r = KRet x \<and> aoe_result slot st (Inr ent) x"
  by (auto simp: aoe_done_def aoe_result_def same_but_undo_def intro!: same_but_undo_frame entl_one)

lemma semaoe_result:
  assumes "sem_ready slot st" "val \<noteq> 0"
  shows "\<exists>x. semaoe slot val sid num st = KRet x \<and>
    aoe_result slot st (if \<not> undo_range (ss_info st) val then Inl ERANGE else if \<not> room slot st then Inl ENOSPC
      else ent_update (ss_info st) val sid num (ents_of st slot)) x"
proof -
  have spec: "if \<not> undo_range (ss_info st) val then aoe_error st (semaoe slot val sid num st) ERANGE
    else if ss_undo st ! slot = None \<and> ss_semfup st = [] then aoe_error st (semaoe slot val sid num st) ENOSPC
    else case ent_update (ss_info st) val sid num (ents_of st slot) of
      Inl e \<Rightarrow> aoe_error st (semaoe slot val sid num st) e
    | Inr ent \<Rightarrow> aoe_done st (semaoe slot val sid num st) slot ent"
    using assms by (intro semaoe_spec) (simp_all add: sem_ready_def)
  consider "\<not> undo_range (ss_info st) val" | "undo_range (ss_info st) val" "\<not> room slot st" | "undo_range (ss_info st) val" "room slot st" by blast
  then show ?thesis
  proof cases
    case 1
    then show ?thesis using spec aoe_error_result by simp
  next
    case 2
    then show ?thesis using spec aoe_error_result by (simp add: room_def)
  next
    case 3
    then have "\<not> (ss_undo st ! slot = None \<and> ss_semfup st = [])" by (auto simp: room_def)
    then show ?thesis using spec 3 aoe_error_result aoe_done_result
      by (cases "ent_update (ss_info st) val sid num (ents_of st slot)") auto
  qed
qed

lemma op_undo_result:
  assumes "sem_ready (sc_slot c) st" "sem_op opn \<noteq> 0"
  shows "\<exists>e st'. op_undo c sid opn st = KRet (e, st') \<and> frame st st' \<and> ss_sem st' = ss_sem st \<and> ss_sema st' = ss_sema st \<and>
    (case undo_spec (ss_info st) (room (sc_slot c) st) sid opn (ents_of st (sc_slot c)) of
       Inl x \<Rightarrow> e = Some x \<and> entl st' = entl st
     | Inr ent \<Rightarrow> e = None \<and> entl st' = (entl st)[sc_slot c := ent] \<and> room (sc_slot c) st' = room (sc_slot c) st \<and>
         (sem_flg opn AND SEM_UNDO \<noteq> 0 \<longrightarrow> ss_undo st' ! sc_slot c \<noteq> None))"
proof (cases "sem_flg opn AND SEM_UNDO = 0")
  case True
  have "(entl st)[sc_slot c := ents_of st (sc_slot c)] = entl st"
    using assms(1) by (metis entl_nth list_update_id sem_ready_def)
  then show ?thesis using True assms(1) by (auto simp: op_undo_def undo_spec_def sem_ready_def intro: frame_refl)
next
  case False
  obtain e st' where x: "semaoe (sc_slot c) (sem_op opn) sid (sem_num opn) st = KRet (e, st')"
    and r: "aoe_result (sc_slot c) st (undo_spec (ss_info st) (room (sc_slot c) st) sid opn (ents_of st (sc_slot c))) (e, st')"
    using semaoe_result [OF assms, of sid "sem_num opn"] False by (auto simp: undo_spec_def)
  have "room (sc_slot c) st" if "undo_spec (ss_info st) (room (sc_slot c) st) sid opn (ents_of st (sc_slot c)) = Inr ent" for ent
    using that False by (auto simp: undo_spec_def split: if_splits)
  then show ?thesis using x r False
    by (auto simp: op_undo_def aoe_result_def room_def split: sum.splits)
qed

lemma undo_spec_back:
  assumes "undo_spec info rm sid opn ent = Inr ent'" "sem_flg opn AND SEM_UNDO \<noteq> 0" "ents_ok info ent" "info_ok info"
  shows "undo_range info (- sem_op opn)" "ent_update info (- sem_op opn) sid (sem_num opn) ent' = Inr ent"
proof -
  have u: "undo_range info (sem_op opn)" "ent_update info (sem_op opn) sid (sem_num opn) ent = Inr ent'"
    using assms(1,2) by (auto simp: undo_spec_def split: if_splits)
  show "undo_range info (- sem_op opn)" using undo_range_neg [OF assms(4) u(1)] by simp
  show "ent_update info (- sem_op opn) sid (sem_num opn) ent' = Inr ent"
    by (rule ent_change_back [OF ent_update_change [OF assms(3) u(2)] assms(3,4)])
qed

text \<open>
  After an operation that went through, the first step of \<open>semundo\<close> restores the values and the
  entries, whatever else changed in the waiter counts in between.
\<close>

lemma semundo_step:
  assumes ready: "sem_ready slot st" and op: "sem_op opn \<noteq> 0" and k: "k = op_pos base opn" "k < length (ss_sem st)"
    and spec: "undo_spec (ss_info st) rm sid opn (ents_of st slot) = Inr ent"
    and st2: "frame st st2" "vals st2 = (vals st)[k := int (unat (semval (ss_sem st ! k) + sem_op opn))]" "entl st2 = (entl st)[slot := ent]"
      "sem_flg opn AND SEM_UNDO \<noteq> 0 \<longrightarrow> ss_undo st2 ! slot \<noteq> None"
    and st': "pass_keeps st2 st'"
  shows "\<exists>st''. semundo slot (opn # before) sid base st' = semundo slot before sid base st'' \<and> pass_keeps st st''"
proof -
  have fr: "frame st st'" "frame st2 st'" and vs: "vals st' = vals st2" and es: "entl st' = entl st2"
    using st' st2(1) frame_trans by (auto simp: pass_keeps_def)
  have l: "length (ss_sem st') = length (ss_sem st)" by (rule frame_length [OF fr(1)])
  have slot: "slot < length (ss_undo st)" using ready by (simp add: sem_ready_def)
  have lu: "length (ss_undo st') = length (ss_undo st)" "length (ss_undo st2) = length (ss_undo st)"
    using fr st2(1) by (simp_all add: frame_def)
  define s where "s = ss_sem st' ! k"
  have "int (unat (semval s)) = vals st' ! k" using k(2) l by (simp add: vals_nth s_def)
  also have "\<dots> = int (unat (semval (ss_sem st ! k) + sem_op opn))" using vs st2(2) k(2) by (simp add: length_vals)
  finally have "unat (semval s) = unat (semval (ss_sem st ! k) + sem_op opn)" by (simp only: of_nat_eq_iff)
  then have sv: "semval s = semval (ss_sem st ! k) + sem_op opn" by (rule unsigned_word_eqI)
  define st3 where "st3 = sem_put k (s\<lparr>semval := semval s - sem_op opn\<rparr>) st'"
  have t: "sem_touch k (s\<lparr>semval := semval s - sem_op opn\<rparr>) st' st3" unfolding st3_def by (rule sem_touch_put) simp_all
  have inv': "undo_inv st'" using fr(1) by (simp add: frame_def)
  have eff: "frame st' st3" "vals st3 = (vals st')[k := int (unat (semval s - sem_op opn))]" "entl st3 = entl st'" "ss_undo st3 = ss_undo st'"
    using sem_touch_effect [OF t inv'] k(2) l by (simp_all add: s_def)
  have "(vals st)[k := int (unat (semval (ss_sem st ! k)))] = vals st" using vals_nth [OF k(2)] by (metis list_update_id)
  then have v3: "vals st3 = vals st" using eff(2) vs st2(2) sv by simp
  have f3: "frame st st3" by (rule frame_trans [OF fr(1) eff(1)])
  have e3: "entl st3 = (entl st)[slot := ent]" using eff(3) es st2(3) by simp
  have step: "semundo slot (opn # before) sid base st' =
      (if sem_flg opn AND SEM_UNDO \<noteq> 0 then
         kbind (semaoe slot (- sem_op opn) sid (sem_num opn) st3) (\<lambda>(_, st). semundo slot before sid base st)
       else semundo slot before sid base st3)"
    using op k l by (simp add: sem_at_def op_pos_def st3_def s_def Let_def)
  have old: "(entl st)[slot := ents_of st slot] = entl st" using slot by (metis entl_nth list_update_id)
  show ?thesis
  proof (cases "sem_flg opn AND SEM_UNDO = 0")
    case True
    then have "ent = ents_of st slot" using spec by (simp add: undo_spec_def)
    then show ?thesis using True step v3 f3 e3 old by (auto simp: pass_keeps_def)
  next
    case False
    have r3: "sem_ready slot st3" by (rule frame_ready [OF f3 ready])
    have i3: "ss_info st3 = ss_info st" "length (ss_undo st3) = length (ss_undo st)" using f3 by (simp_all add: frame_def)
    have "ss_undo st' ! slot \<noteq> None" using fr(2) st2(4) False slot lu by (simp add: frame_def)
    then have rm: "room slot st3" using eff(4) by (simp add: room_def)
    have ent3: "ents_of st3 slot = ent" using e3 slot i3(2) by (metis entl_nth length_entl nth_list_update_eq)
    note bk = undo_spec_back [OF spec False ready_ents [OF ready]]
    have io: "info_ok (ss_info st)" using ready by (simp add: sem_ready_def)
    have nz: "- sem_op opn \<noteq> 0" using op by simp
    obtain e st4 where x: "semaoe slot (- sem_op opn) sid (sem_num opn) st3 = KRet (e, st4)"
      and r: "aoe_result slot st3 (Inr (ents_of st slot)) (e, st4)"
      using semaoe_result [OF r3 nz, of sid "sem_num opn"] bk [OF io] rm unfolding i3(1) ent3 by auto
    have f4: "frame st3 st4" "ss_sem st4 = ss_sem st3" "entl st4 = (entl st3)[slot := ents_of st slot]"
      using r by (simp_all add: aoe_result_def)
    have "pass_keeps st st4" using frame_trans [OF f3 f4(1)] f4 v3 e3 old by (simp add: pass_keeps_def vals_def)
    then show ?thesis using step False x by auto
  qed
qed

section \<open>A whole pass\<close>

definition sem_step :: "bool \<Rightarrow> sembuf \<Rightarrow> nat \<Rightarrow> sem \<Rightarrow> semstate \<Rightarrow> semstate" where
  "sem_step binary opn k s st =
     (if 0 < sint (sem_op opn) then sem_raise (sem_op opn = 1 \<and> binary) k s st else sem_lower k s st)"

definition sem_sleep :: "nat \<Rightarrow> sembuf \<Rightarrow> nat \<Rightarrow> sem \<Rightarrow> semstate \<Rightarrow> semstate" where
  "sem_sleep i opn k s st =
     (if sem_op opn = 0 then sem_put k (s\<lparr>semzcnt := semzcnt s + 1\<rparr>) st
      else
        let st = sem_put k (s\<lparr>semncnt := semncnt s + 1\<rparr>) st
        in if sint (sem_op opn) < - 1 then sema_put i ((ss_sema st ! i)\<lparr>sem_binary := False\<rparr>) st else st)"

lemma sem_pass_Cons:
  assumes k: "k = op_pos (sem_base (ss_sema st ! i)) opn" "k < length (ss_sem st)"
  shows "sem_pass c sid i binary before (opn # ops) st =
    (let base = sem_base (ss_sema st ! i); s = ss_sem st ! k in
     if \<not> op_fits (si_semvmx (ss_info st)) opn (vals st ! k) then
       kbind (semundo (sc_slot c) before sid base st) (\<lambda>st.
         if 0 < sint (sem_op opn) \<or> op_nowait opn then KRet (op_refused base opn, st)
         else kbind (sem_at st k) (\<lambda>s. KRet (op_refused base opn, sem_sleep i opn k s st)))
     else if sem_op opn = 0 then sem_pass c sid i binary (opn # before) ops st
     else kbind (op_undo c sid opn st) (\<lambda>(e, st).
       case e of
         Some e \<Rightarrow> pass_undo c before sid base (Pass_error e) st
       | None \<Rightarrow> sem_pass c sid i binary (opn # before) ops (sem_step binary opn k (s\<lparr>semval := semval s + sem_op opn\<rparr>) st)))"
proof -
  have at: "sem_at st k = KRet (ss_sem st ! k)" using k(2) by (simp add: sem_at_def)
  have z: "sint (sem_op opn) = 0 \<longleftrightarrow> sem_op opn = 0" using sint_inj [of "sem_op opn" 0] by auto
  have v: "vals st ! k = int (unat (semval (ss_sem st ! k)))" by (rule vals_nth [OF k(2)])
  have k': "sem_base (ss_sema st ! i) + unat (sem_num opn) = k" using k(1) by (simp add: op_pos_def)
  have u: "op_pos (sem_base (ss_sema st ! i)) opn = k" using k(1) by simp
  consider "0 < sint (sem_op opn)" | "sint (sem_op opn) < 0" | "sem_op opn = 0" using z by linarith
  then show ?thesis
  proof cases
    case 1
    then have "sem_op opn \<noteq> 0" by auto
    then have "op_fits (si_semvmx (ss_info st)) opn (vals st ! k) \<longleftrightarrow> \<not> si_semvmx (ss_info st) < sint (sem_op opn) + int (unat (semval (ss_sem st ! k)))"
      using 1 v unfolding op_fits_def by (simp add: add.commute) linarith
    then show ?thesis using 1 \<open>sem_op opn \<noteq> 0\<close>
      unfolding sem_pass.simps Let_def k' at kbind.simps sem_step_def if_P [OF 1] op_refused_def pass_undo_def by simp
  next
    case 2
    then have nz: "sem_op opn \<noteq> 0" "\<not> 0 < sint (sem_op opn)" by auto
    have "op_fits (si_semvmx (ss_info st)) opn (vals st ! k) \<longleftrightarrow> nat (- sint (sem_op opn)) \<le> unat (semval (ss_sem st ! k))"
      using nz v unfolding op_fits_def by (simp add: nat_le_iff) linarith
    then show ?thesis using 2 nz
      unfolding sem_pass.simps Let_def k' u at kbind.simps sem_step_def if_not_P [OF nz(1)] if_not_P [OF nz(2)] op_refused_def
        sem_sleep_def op_nowait_def by simp
  next
    case 3
    have "op_fits (si_semvmx (ss_info st)) opn (vals st ! k) \<longleftrightarrow> semval (ss_sem st ! k) = 0"
      using 3 v unfolding op_fits_def by (simp add: uint_0_iff)
    then show ?thesis using 3
      unfolding sem_pass.simps Let_def k' u at kbind.simps op_refused_def sem_sleep_def op_nowait_def if_P [OF 3] by simp
  qed
qed

lemma sem_touch_step: "sem_touch k s st (sem_step binary opn k s st)"
  by (simp add: sem_step_def sem_touch_raise sem_touch_lower)

lemma uint_add_sint:
  fixes a b :: "'a::len word"
  assumes "0 \<le> uint a + sint b" "uint a + sint b < 2 ^ LENGTH('a)"
  shows "uint (a + b) = uint a + sint b"
proof -
  have "a + b = word_of_int (uint a + sint b)" by simp
  then show ?thesis using assms by (simp only: uint_word_of_int) (simp add: take_bit_int_eq_self_iff)
qed

lemma op_fits_add:
  assumes "op_fits vmx opn (int (unat v))" "sem_op opn \<noteq> 0" "vmx \<le> 65535"
  shows "int (unat (v + sem_op opn)) = int (unat v) + sint (sem_op opn)"
proof -
  have "uint v < 65536" using uint_lt2p [of v] by simp
  then have "0 \<le> uint v + sint (sem_op opn) \<and> uint v + sint (sem_op opn) < 2 ^ LENGTH(16)"
    using assms unfolding op_fits_def by (auto split: if_splits)
  then show ?thesis using uint_add_sint [of v "sem_op opn"] by simp
qed

lemma sem_sleep_keeps:
  assumes "undo_inv st" "k < length (ss_sem st)" "i < length (ss_sema st)"
  shows "pass_keeps st (sem_sleep i opn k (ss_sem st ! k) st)"
proof -
  define s where "s = (if sem_op opn = 0 then (ss_sem st ! k)\<lparr>semzcnt := semzcnt (ss_sem st ! k) + 1\<rparr> else (ss_sem st ! k)\<lparr>semncnt := semncnt (ss_sem st ! k) + 1\<rparr>)"
  have s: "semval s = semval (ss_sem st ! k)" "sempid s = sempid (ss_sem st ! k)" by (simp_all add: s_def)
  have t: "sem_touch k s st (sem_put k s st)" by (rule sem_touch_put) simp_all
  note e = sem_touch_effect [OF t assms(1,2) s(2)]
  have "(vals st)[k := int (unat (semval s))] = vals st" using s(1) vals_nth [OF assms(2)] by (metis list_update_id)
  then have p: "pass_keeps st (sem_put k s st)" using e by (simp add: pass_keeps_def)
  have "unbinary (sp\<lparr>sem_binary := False\<rparr>) = unbinary sp" for sp by (simp add: unbinary_def)
  then have m: "map unbinary ((ss_sema st)[i := (ss_sema st ! i)\<lparr>sem_binary := False\<rparr>]) = map unbinary (ss_sema st)"
    using assms(3) by (simp add: map_update_same)
  define st' where "st' = sema_put i ((ss_sema st ! i)\<lparr>sem_binary := False\<rparr>) (sem_put k s st)"
  have "same_undo (sem_put k s st) st'" by (simp add: same_undo_def st'_def sema_put_def)
  note u = same_undo_inv [OF this]
  have "undo_inv (sem_put k s st)" using p by (simp add: pass_keeps_def frame_def)
  then have "frame (sem_put k s st) st'" using u m by (simp add: frame_def st'_def sema_put_def sem_put_def)
  moreover have "vals st' = vals (sem_put k s st)" by (simp add: vals_def st'_def sema_put_def)
  ultimately have "pass_keeps st st'" using u(2) pass_keeps_trans [OF p] by (simp add: pass_keeps_def)
  then show ?thesis using p by (auto simp: sem_sleep_def s_def st'_def Let_def sem_put_def)
qed

definition undoes :: "nat \<Rightarrow> sembuf list \<Rightarrow> int32_t \<Rightarrow> nat \<Rightarrow> semstate \<Rightarrow> semstate \<Rightarrow> bool" where
  "undoes slot before sid base st st0 \<longleftrightarrow>
     (\<forall>st'. pass_keeps st st' \<longrightarrow> (\<exists>st''. semundo slot before sid base st' = KRet st'' \<and> pass_keeps st0 st''))"

lemma undoesE:
  assumes "undoes slot before sid base st st0" "pass_keeps st st'"
  obtains st'' where "semundo slot before sid base st' = KRet st''" "pass_keeps st0 st''"
  using assms by (auto simp: undoes_def)

lemma pass_keeps_refl: "undo_inv st \<Longrightarrow> pass_keeps st st"
  by (simp add: pass_keeps_def frame_refl)

definition pass_meets :: "nat \<Rightarrow> semstate \<Rightarrow> semstate \<Rightarrow> pass_out + (int list \<times> undo list) \<Rightarrow> (pass_out \<times> semstate) kres \<Rightarrow> bool" where
  "pass_meets slot st0 st spec r \<longleftrightarrow> (\<exists>out st'. r = KRet (out, st') \<and>
     (case spec of
        Inl o' \<Rightarrow> out = o' \<and> pass_keeps st0 st'
      | Inr (vs, ent) \<Rightarrow> out = Pass_done \<and> frame st st' \<and> vals st' = vs \<and> entl st' = (entl st)[slot := ent]))"

lemma pass_meets_frame:
  assumes "pass_meets slot st0 st' spec r" "frame st st'" "entl st' = (entl st)[slot := ent]"
  shows "pass_meets slot st0 st spec r"
proof (cases spec)
  case (Inl a)
  then show ?thesis using assms(1) by (simp add: pass_meets_def)
next
  case (Inr b)
  then show ?thesis using assms(1,3) frame_trans [OF assms(2)] by (cases b) (auto simp: pass_meets_def)
qed

lemma pass_refused:
  assumes u: "undoes slot before sid base st st0" and k: "undo_inv st" "k < length (ss_sem st0)" "i < length (ss_sema st0)"
  shows "pass_meets slot st0 st (Inl (op_refused base opn))
    (kbind (semundo slot before sid base st) (\<lambda>st.
       if b then KRet (op_refused base opn, st)
       else kbind (sem_at st k) (\<lambda>s. KRet (op_refused base opn, sem_sleep i opn k s st))))"
proof -
  obtain st1 where st1: "semundo slot before sid base st = KRet st1" "pass_keeps st0 st1"
    using undoesE [OF u pass_keeps_refl [OF k(1)]] .
  then have f: "frame st0 st1" by (simp add: pass_keeps_def)
  have k1: "k < length (ss_sem st1)" using frame_length [OF f] k(2) by simp
  have "undo_inv st1" using f by (simp add: frame_def)
  note w = pass_keeps_trans [OF st1(2) sem_sleep_keeps [OF this k1 frame_base(2) [OF f k(3)], of opn]]
  show ?thesis using st1 w k1 by (simp add: pass_meets_def sem_at_def)
qed

lemma sem_pass_meets:
  "sem_ready (sc_slot c) st \<Longrightarrow> i < length (ss_sema st) \<Longrightarrow> base = sem_base (ss_sema st ! i) \<Longrightarrow>
   \<forall>opn \<in> set ops. op_pos base opn < length (ss_sem st) \<Longrightarrow> frame st0 st \<Longrightarrow> i < length (ss_sema st0) \<Longrightarrow>
   undoes (sc_slot c) before sid base st st0 \<Longrightarrow>
   pass_meets (sc_slot c) st0 st
     (pass_spec (ss_info st) (room (sc_slot c) st) sid base ops (vals st) (ents_of st (sc_slot c)))
     (sem_pass c sid i binary before ops st)"
proof (induction ops arbitrary: before st)
  case Nil
  have "(entl st)[sc_slot c := ents_of st (sc_slot c)] = entl st"
    using Nil.prems(1) by (metis entl_nth list_update_id sem_ready_def)
  then show ?case using Nil.prems(1) by (simp add: pass_meets_def sem_ready_def frame_refl)
next
  case (Cons opn ops)
  let ?slot = "sc_slot c"
  define k where "k = op_pos base opn"
  have k: "k = op_pos (sem_base (ss_sema st ! i)) opn" "k < length (ss_sem st)" using Cons.prems by (simp_all add: k_def)
  have inv: "undo_inv st" "?slot < length (ss_undo st)" "info_ok (ss_info st)" using Cons.prems(1) by (simp_all add: sem_ready_def)
  have k0: "k < length (ss_sem st0)" using k(2) frame_length [OF Cons.prems(5)] by simp
  note step = sem_pass_Cons [OF k, of c sid binary before ops, unfolded Let_def, folded Cons.prems(3)]
  show ?case
  proof (cases "op_fits (si_semvmx (ss_info st)) opn (vals st ! k)")
    case False
    then show ?thesis using pass_refused [OF Cons.prems(7) inv(1) k0 Cons.prems(6), of opn "0 < sint (sem_op opn) \<or> op_nowait opn"]
      unfolding step by (simp add: k_def Let_def)
  next
    case fits: True
    show ?thesis
    proof (cases "sem_op opn = 0")
      case True
      have "undoes ?slot (opn # before) sid base st st0" using Cons.prems(7) True by (simp add: undoes_def)
      from Cons.IH [OF Cons.prems(1-3) _ Cons.prems(5,6) this]
      show ?thesis using Cons.prems(4) fits True unfolding step by (simp add: k_def Let_def)
    next
      case nz: False
      obtain e st1 where o: "op_undo c sid opn st = KRet (e, st1)" "frame st st1" "ss_sem st1 = ss_sem st" "ss_sema st1 = ss_sema st"
        and r: "case undo_spec (ss_info st) (room ?slot st) sid opn (ents_of st ?slot) of
          Inl x \<Rightarrow> e = Some x \<and> entl st1 = entl st
        | Inr ent \<Rightarrow> e = None \<and> entl st1 = (entl st)[?slot := ent] \<and> room ?slot st1 = room ?slot st \<and>
            (sem_flg opn AND SEM_UNDO \<noteq> 0 \<longrightarrow> ss_undo st1 ! ?slot \<noteq> None)"
        using op_undo_result [OF Cons.prems(1) nz] by blast
      have v1: "vals st1 = vals st" using o(3) by (simp add: vals_def)
      show ?thesis
      proof (cases "undo_spec (ss_info st) (room ?slot st) sid opn (ents_of st ?slot)")
        case (Inl x)
        then have "pass_keeps st st1" "e = Some x" using o(2) v1 r by (simp_all add: pass_keeps_def)
        moreover obtain st2 where "semundo ?slot before sid base st1 = KRet st2" "pass_keeps st0 st2"
          using undoesE [OF Cons.prems(7) calculation(1)] .
        ultimately show ?thesis using fits nz Inl unfolding step o(1) by (simp add: k_def Let_def pass_undo_def pass_meets_def)
      next
        case (Inr ent)
        define s where "s = (ss_sem st ! k)\<lparr>semval := semval (ss_sem st ! k) + sem_op opn\<rparr>"
        define st2 where "st2 = sem_step binary opn k s st1"
        have e1: "e = None" "entl st1 = (entl st)[?slot := ent]" "room ?slot st1 = room ?slot st"
          "sem_flg opn AND SEM_UNDO \<noteq> 0 \<longrightarrow> ss_undo st1 ! ?slot \<noteq> None" using r Inr by simp_all
        have inv1: "undo_inv st1" "k < length (ss_sem st1)" "sempid s = sempid (ss_sem st1 ! k)"
          using o(2,3) k(2) by (simp_all add: frame_def s_def)
        note t = sem_touch_effect [OF sem_touch_step [of k s st1 binary opn] inv1, folded st2_def]
        have f2: "frame st st2" by (rule frame_trans [OF o(2) t(1)])
        have v2: "vals st2 = (vals st)[k := int (unat (semval (ss_sem st ! k) + sem_op opn))]" using t(2) v1 by (simp add: s_def)
        have e2: "entl st2 = (entl st)[?slot := ent]" using t(3) e1(2) by simp
        have "ss_undo st2 = ss_undo st1" by (rule t(6))
        then have u2: "sem_flg opn AND SEM_UNDO \<noteq> 0 \<longrightarrow> ss_undo st2 ! ?slot \<noteq> None" using e1(4) by simp
        have ud: "undoes ?slot (opn # before) sid base st2 st0"
          unfolding undoes_def
        proof (intro allI impI)
          fix st' assume "pass_keeps st2 st'"
          from semundo_step [OF Cons.prems(1) nz k_def k(2) Inr f2 v2 e2 u2 this]
          obtain st'' where b: "semundo ?slot (opn # before) sid base st' = semundo ?slot before sid base st''" "pass_keeps st st''" by blast
          show "\<exists>st''. semundo ?slot (opn # before) sid base st' = KRet st'' \<and> pass_keeps st0 st''"
            unfolding b(1) using undoesE [OF Cons.prems(7) b(2)] by blast
        qed
        have s2: "ss_sema st2 = ss_sema st" using t(4) o(4) by simp
        then have b2: "i < length (ss_sema st2)" "base = sem_base (ss_sema st2 ! i)" using Cons.prems(2,3) by simp_all
        have l2: "\<forall>opn \<in> set ops. op_pos base opn < length (ss_sem st2)" using Cons.prems(4) frame_length [OF f2] by simp
        note IH = Cons.IH [OF frame_ready [OF f2 Cons.prems(1)] b2 l2 frame_trans [OF Cons.prems(5) f2] Cons.prems(6) ud]
        have i2: "ss_info st2 = ss_info st" "room ?slot st2 = room ?slot st" "length (ss_undo st2) = length (ss_undo st)"
          using f2 t(5) e1(3) by (simp_all add: frame_def)
        have en2: "ents_of st2 ?slot = ent" using e2 i2(3) inv(2) by (metis entl_nth length_entl nth_list_update_eq)
        have "int (unat (semval (ss_sem st ! k) + sem_op opn)) = vals st ! k + sint (sem_op opn)"
          using op_fits_add [OF _ nz] fits vals_nth [OF k(2)] inv(3) by (simp add: info_ok_def)
        then have "vals st2 = (vals st)[k := vals st ! k + sint (sem_op opn)]" using v2 by simp
        then have sp: "pass_spec (ss_info st) (room ?slot st) sid base (opn # ops) (vals st) (ents_of st ?slot) =
            pass_spec (ss_info st2) (room ?slot st2) sid base ops (vals st2) (ents_of st2 ?slot)"
          using fits nz Inr i2 en2 by (simp add: k_def Let_def)
        have run: "sem_pass c sid i binary before (opn # ops) st = sem_pass c sid i binary (opn # before) ops st2"
          unfolding step o(1) e1(1) using fits nz by (simp add: st2_def s_def)
        show ?thesis unfolding sp run by (rule pass_meets_frame [OF IH f2 e2])
      qed
    qed
  qed
qed

end
