(* ===== verification/Sem_Inv.thy ===== *)
theory Sem_Inv
  imports Sem_Op
begin

text \<open>
  The invariant of the tables of \<^verbatim>\<open>Sem\<close>, kept by every system call and by the exit of a process,
  and with it the absence of faults.
\<close>

section \<open>The invariant\<close>

text \<open>Limits under which the fields of the structures do not truncate.\<close>

definition sem_info_ok :: "seminfo \<Rightarrow> bool" where
  "sem_info_ok info \<longleftrightarrow> info_ok info \<and> 0 \<le> si_semume info \<and> si_semume info \<le> 32767 \<and>
     0 \<le> si_semmni info \<and> si_semmni info \<le> SEMA_INDEX_MAX \<and> 0 \<le> si_semmns info \<and> si_semmns info < 2147483648 \<and>
     si_semmsl info \<le> 65535"

definition set_alloc :: "semid_ds \<Rightarrow> bool" where
  "set_alloc sp \<longleftrightarrow> ipc_allocated (sem_perm sp)"

definition set_seq :: "semid_ds \<Rightarrow> uint_t" where
  "set_seq sp = ipc_seq (sem_perm sp)"

text \<open>What the rest of the invariant depends on of a set.\<close>

definition set_key :: "semid_ds \<Rightarrow> key_t option \<times> uint_t \<times> nat \<times> ushort_t" where
  "set_key sp = (if set_alloc sp then Some (ipc_key (sem_perm sp)) else None, set_seq sp, sem_base sp, sem_nsems sp)"

lemma set_key_eq:
  "set_key sp' = set_key sp \<longleftrightarrow> set_alloc sp' = set_alloc sp \<and> set_seq sp' = set_seq sp \<and> sem_base sp' = sem_base sp \<and>
     sem_nsems sp' = sem_nsems sp \<and> (set_alloc sp \<longrightarrow> ipc_key (sem_perm sp') = ipc_key (sem_perm sp))"
  by (auto simp: set_key_def)

text \<open>The range of a set in the resource map, whose units start at 1.\<close>

definition set_range :: "semid_ds \<Rightarrow> ulong_t \<times> size_t" where
  "set_range sp = (of_nat (sem_base sp) + 1, ucast (sem_nsems sp))"

definition live_ranges :: "semid_ds list \<Rightarrow> (ulong_t \<times> size_t) list" where
  "live_ranges sema = map set_range (filter set_alloc sema)"

definition set_ok :: "nat \<Rightarrow> semid_ds \<Rightarrow> bool" where
  "set_ok n sp \<longleftrightarrow> (set_alloc sp \<longrightarrow> 0 < unat (sem_nsems sp) \<and> sem_base sp + unat (sem_nsems sp) \<le> n) \<and> unat (set_seq sp) \<le> 32767"

definition sem_sets :: "semstate \<Rightarrow> bool" where
  "sem_sets st \<longleftrightarrow> sem_info_ok (ss_info st) \<and> length (ss_sema st) = nat (si_semmni (ss_info st)) \<and>
     length (ss_sem st) = nat (si_semmns (ss_info st)) \<and> map_inv (ss_semmap st) \<and>
     map_units (ss_semmap st) \<subseteq> {1..length (ss_sem st)} \<and>
     ranges_live (map_units (ss_semmap st)) (live_ranges (ss_sema st)) \<and> ipc.keys_unique (map sem_perm (ss_sema st)) \<and>
     (\<forall>sp \<in> set (ss_sema st). set_ok (length (ss_sem st)) sp)"

definition vals_ok :: "semstate \<Rightarrow> bool" where
  "vals_ok st \<longleftrightarrow> (\<forall>v \<in> set (vals st). v \<le> si_semvmx (ss_info st))"

text \<open>An entry belongs to a semaphore of the set that its identifier names now.\<close>

definition ent_live :: "semid_ds list \<Rightarrow> undo \<Rightarrow> bool" where
  "ent_live sema u \<longleftrightarrow>
     (let i = semid_index (un_id u) in
      i < length sema \<and> set_alloc (sema ! i) \<and> set_seq (sema ! i) = semid_seq (un_id u) \<and>
      un_num u < sem_nsems (sema ! i) \<and> 0 \<le> sint (un_id u))"

definition ents_live :: "semstate \<Rightarrow> bool" where
  "ents_live st \<longleftrightarrow> (\<forall>ent \<in> set (entl st). \<forall>u \<in> set ent. ent_live (ss_sema st) u)"

definition sem_inv :: "semstate \<Rightarrow> bool" where
  "sem_inv st \<longleftrightarrow> undo_inv st \<and> sem_sets st \<and> vals_ok st \<and> ents_live st"

section \<open>Steps that leave the sets alone\<close>

lemma set_key_live: "map set_key sema' = map set_key sema \<Longrightarrow> live_ranges sema' = live_ranges sema"
proof (induction sema arbitrary: sema')
  case (Cons sp sema)
  then obtain sp' sema'' where s: "sema' = sp' # sema''" "set_key sp' = set_key sp" "map set_key sema'' = map set_key sema" by auto
  then show ?case using Cons.IH [OF s(3)] by (auto simp: live_ranges_def set_key_eq set_range_def)
qed (simp add: live_ranges_def)

lemma set_key_nth:
  assumes "map set_key sema' = map set_key sema"
  shows "length sema' = length sema" "i < length sema \<Longrightarrow> set_key (sema' ! i) = set_key (sema ! i)"
  using assms by (rule map_eq_imp_length_eq) (metis assms length_map nth_map)

lemma ent_live_key:
  assumes "map set_key sema' = map set_key sema"
  shows "ent_live sema' u = ent_live sema u"
  using set_key_nth [OF assms] by (auto simp: ent_live_def Let_def set_key_eq)

lemma set_ok_key: "set_key sp' = set_key sp \<Longrightarrow> set_ok n sp' = set_ok n sp"
  by (simp add: set_ok_def set_key_eq)

lemma keys_unique_key:
  assumes "map set_key sema' = map set_key sema" "ipc.keys_unique (map sem_perm sema)"
  shows "ipc.keys_unique (map sem_perm sema')"
  unfolding ipc.keys_unique_def
proof (intro allI impI)
  fix i j
  note k = set_key_nth [OF assms(1)]
  assume a: "i < length (map sem_perm sema')" "j < length (map sem_perm sema')" "ipc_allocated (map sem_perm sema' ! i)"
    "ipc_allocated (map sem_perm sema' ! j)" "ipc_key (map sem_perm sema' ! i) = ipc_key (map sem_perm sema' ! j)"
    "ipc_key (map sem_perm sema' ! i) \<noteq> IPC_PRIVATE"
  then have ij: "i < length sema" "j < length sema" using k(1) by simp_all
  have "set_alloc (sema ! i)" "set_alloc (sema ! j)" "ipc_key (sem_perm (sema' ! i)) = ipc_key (sem_perm (sema ! i))"
    "ipc_key (sem_perm (sema' ! j)) = ipc_key (sem_perm (sema ! j))"
    using k(2) [OF ij(1)] k(2) [OF ij(2)] a ij k(1) by (simp_all add: set_key_eq set_alloc_def)
  then show "i = j" using assms(2) a ij k(1) unfolding ipc.keys_unique_def by (simp add: set_alloc_def)
qed

lemma sem_sets_key:
  assumes "sem_sets st" "map set_key (ss_sema st') = map set_key (ss_sema st)" "ss_info st' = ss_info st"
    "ss_semmap st' = ss_semmap st" "length (ss_sem st') = length (ss_sem st)"
  shows "sem_sets st'"
proof -
  have "set_ok (length (ss_sem st)) sp'" if sp': "sp' \<in> set (ss_sema st')" for sp'
  proof -
    obtain i where i: "i < length (ss_sema st')" "sp' = ss_sema st' ! i" using sp' by (auto simp: in_set_conv_nth)
    note k = set_key_nth [OF assms(2)]
    have "ss_sema st ! i \<in> set (ss_sema st)" using i(1) k(1) by simp
    then have "set_ok (length (ss_sem st)) (ss_sema st ! i)" using assms(1) unfolding sem_sets_def by blast
    then show ?thesis using set_ok_key [OF k(2)] i k(1) by simp
  qed
  moreover have "ipc.keys_unique (map sem_perm (ss_sema st'))"
    by (rule keys_unique_key [OF assms(2)]) (use assms(1) in \<open>simp add: sem_sets_def\<close>)
  ultimately show ?thesis using assms(1) unfolding sem_sets_def assms(3-5) set_key_live [OF assms(2)] set_key_nth(1) [OF assms(2)] by blast
qed

lemma sem_inv_keep:
  assumes inv: "sem_inv st" and u: "undo_inv st'" and key: "map set_key (ss_sema st') = map set_key (ss_sema st)"
    and same: "ss_info st' = ss_info st" "ss_semmap st' = ss_semmap st" "length (ss_sem st') = length (ss_sem st)"
    and v: "vals_ok st'" and e: "\<forall>ent \<in> set (entl st'). \<forall>u \<in> set ent. ent_live (ss_sema st) u"
  shows "sem_inv st'"
  using sem_sets_key [OF _ key same] inv u v e ent_live_key [OF key] by (simp add: sem_inv_def ents_live_def)

lemma unbinary_key: "map unbinary sema' = map unbinary sema \<Longrightarrow> map set_key sema' = map set_key sema"
proof -
  assume a: "map unbinary sema' = map unbinary sema"
  have "set_key (unbinary sp) = set_key sp" for sp by (simp add: set_key_eq unbinary_def set_alloc_def set_seq_def)
  then have "map set_key s = map set_key (map unbinary s)" for s by simp
  then show ?thesis using a by metis
qed

lemma frame_inv:
  assumes "sem_inv st" "frame st st'" "vals_ok st'" "\<forall>ent \<in> set (entl st'). \<forall>u \<in> set ent. ent_live (ss_sema st) u"
  shows "sem_inv st'"
proof (rule sem_inv_keep [OF assms(1) _ _ _ _ frame_length [OF assms(2)] assms(3,4)])
  show "map set_key (ss_sema st') = map set_key (ss_sema st)" by (rule unbinary_key) (use assms(2) in \<open>simp add: frame_def\<close>)
qed (use assms(2) in \<open>simp_all add: frame_def\<close>)

lemma pass_keeps_inv:
  assumes "sem_inv st" "pass_keeps st st'"
  shows "sem_inv st'"
proof (rule frame_inv [OF assms(1)])
  show "frame st st'" using assms(2) by (simp add: pass_keeps_def)
  then have "ss_info st' = ss_info st" by (simp add: frame_def)
  then show "vals_ok st'" using assms by (simp add: pass_keeps_def sem_inv_def vals_ok_def)
  show "\<forall>ent \<in> set (entl st'). \<forall>u \<in> set ent. ent_live (ss_sema st) u"
    using assms by (simp add: pass_keeps_def sem_inv_def ents_live_def)
qed

text \<open>One semaphore changes, with a value in range.\<close>

lemma sem_put_inv:
  assumes "sem_inv st" "same_undo st st'" "ss_sema st' = ss_sema st" "ss_sem st' = (ss_sem st)[k := s]" "int (unat (semval s)) \<le> si_semvmx (ss_info st)"
  shows "sem_inv st'"
proof -
  note u = same_undo_inv [OF assms(2)]
  have i: "ss_info st' = ss_info st" "ss_semmap st' = ss_semmap st" using assms(2) by (simp_all add: same_undo_def)
  have v: "\<forall>s \<in> set (ss_sem st). int (unat (semval s)) \<le> si_semvmx (ss_info st)"
    using assms(1) by (simp add: sem_inv_def vals_ok_def vals_def)
  have "\<forall>s \<in> set (ss_sem st'). int (unat (semval s)) \<le> si_semvmx (ss_info st)"
  proof
    fix t assume "t \<in> set (ss_sem st')"
    then have "t = s \<or> t \<in> set (ss_sem st)" using set_update_subset_insert [of "ss_sem st" k s] unfolding assms(4) by blast
    then show "int (unat (semval t)) \<le> si_semvmx (ss_info st)" using v assms(5) by blast
  qed
  then have vo: "vals_ok st'" unfolding vals_ok_def vals_def i by simp
  have un: "undo_inv st'" using u(1) assms(1) by (simp add: sem_inv_def)
  have el: "\<forall>ent \<in> set (entl st'). \<forall>u \<in> set ent. ent_live (ss_sema st) u" using u(2) assms(1) by (simp add: sem_inv_def ents_live_def)
  show ?thesis by (rule sem_inv_keep [OF assms(1) un _ i _ vo el]) (simp_all add: assms(3,4))
qed

section \<open>Identifiers\<close>

lemma semid_ext:
  assumes "semid_index a = semid_index b" "semid_seq a = semid_seq b" "0 \<le> sint a" "0 \<le> sint b"
  shows "a = b"
proof (rule bit_word_eqI)
  fix n assume n: "n < LENGTH(32)"
  have i: "a AND 0xffff = b AND 0xffff" using assms(1) unfolding semid_index_def SEMA_INDEX_MASK_def by (simp only: word_unat_eq_iff)
  have s: "signed_drop_bit 16 a AND 0x7fff = signed_drop_bit 16 b AND (0x7fff :: 32 word)"
    using assms(2) by (simp add: semid_seq_def SEMA_SEQ_SHIFT_def SEMA_SEQ_MASK_def)
  consider "n < 16" | "16 \<le> n" "n < 31" | "n = 31" using n by force
  then show "bit a n = bit b n"
  proof cases
    case 1
    have m: "(0xffff :: 32 word) = mask 16" by (simp add: mask_eq_exp_minus_1)
    have b: "bit (x AND (0xffff :: 32 word)) n = bit x n" for x :: "32 word" unfolding m using 1 n by (simp add: bit_and_iff bit_mask_iff)
    show ?thesis using arg_cong [OF i, of "\<lambda>w. bit w n"] unfolding b .
  next
    case 2
    have m: "(0x7fff :: 32 word) = mask 15" by (simp add: mask_eq_exp_minus_1)
    have b: "bit (signed_drop_bit 16 x AND (0x7fff :: 32 word)) (n - 16) = bit x n" for x :: "32 word"
      unfolding m using 2 by (auto simp: bit_and_iff bit_mask_iff bit_signed_drop_bit_iff)
    show ?thesis using arg_cong [OF s, of "\<lambda>w. bit w (n - 16)"] unfolding b .
  next
    case 3
    have "\<not> bit x 31" if "0 \<le> sint x" for x :: "32 word" using that bit_last_iff [of x] by simp
    then show ?thesis using 3 assms(3,4) by simp
  qed
qed

lemma inv_sets:
  assumes "sem_inv st"
  shows "sem_sets st" "sem_info_ok (ss_info st)" "length (ss_sema st) = nat (si_semmni (ss_info st))"
    "int (length (ss_sema st)) = si_semmni (ss_info st)" "undo_inv st"
  using assms by (auto simp: sem_inv_def sem_sets_def sem_info_ok_def)

lemma inv_set_ok:
  assumes "sem_inv st" "i < length (ss_sema st)"
  shows "set_ok (length (ss_sem st)) (ss_sema st ! i)"
  using assms nth_mem [OF assms(2)] unfolding sem_inv_def sem_sets_def by blast

definition names_set :: "semstate \<Rightarrow> int32_t \<Rightarrow> nat \<Rightarrow> bool" where
  "names_set st s i \<longleftrightarrow> i = semid_index s \<and> i < length (ss_sema st) \<and> set_alloc (ss_sema st ! i) \<and> semid_seq s = set_seq (ss_sema st ! i)"

lemma semconv_lock_ok:
  assumes "sem_inv st"
  shows "semconv_lock st s = KRet (if names_set st s (semid_index s) then Some (semid_index s) else None)"
  using inv_sets [OF assms]
  by (auto simp: semconv_lock_def names_set_def Let_def set_alloc_def set_seq_def ipc_allocated_def)

lemma semconv_ok:
  assumes "sem_inv st"
  shows "semconv st s = KRet (if names_set st s (semid_index s) then None else Some EINVAL)"
  using inv_sets [OF assms]
  by (auto simp: semconv_def names_set_def Let_def set_alloc_def set_seq_def ipc_allocated_def)

lemma names_setD:
  assumes "names_set st s i"
  shows "i < length (ss_sema st)" "set_alloc (ss_sema st ! i)" "semid_seq s = set_seq (ss_sema st ! i)" "semid_index s = i"
  using assms by (auto simp: names_set_def)

lemma set_facts:
  assumes "sem_inv st" "names_set st s i"
  shows "0 < unat (sem_nsems (ss_sema st ! i))" "sem_base (ss_sema st ! i) + unat (sem_nsems (ss_sema st ! i)) \<le> length (ss_sem st)"
    "unat (set_seq (ss_sema st ! i)) \<le> 32767"
  using inv_set_ok [OF assms(1) names_setD(1) [OF assms(2)]] names_setD(2) [OF assms(2)] by (simp_all add: set_ok_def)

text \<open>The semaphores of a set are inside the array.\<close>

lemma set_in_array:
  assumes "sem_inv st" "names_set st s i" "n < unat (sem_nsems (ss_sema st ! i))"
  shows "sem_at st (sem_base (ss_sema st ! i) + n) = KRet (ss_sem st ! (sem_base (ss_sema st ! i) + n))"
    "sem_base (ss_sema st ! i) + n < length (ss_sem st)"
  using set_facts [OF assms(1,2)] assms(3) by (simp_all add: sem_at_def)

definition sem_safe :: "sem_result \<Rightarrow> bool" where
  "sem_safe r \<longleftrightarrow> (\<exists>res out st'. r = KRet (res, out, st') \<and> sem_inv st')"

lemma sem_safe_simps:
  "sem_inv st \<Longrightarrow> sem_safe (sem_fail e st)" "sem_inv st \<Longrightarrow> sem_safe (sem_ok st)" "sem_inv st \<Longrightarrow> sem_safe (KRet (res, out, st))"
  by (auto simp: sem_safe_def sem_fail_def sem_ok_def)

lemma sem_inv_acflag: "sem_inv st \<Longrightarrow> sem_inv (st\<lparr>ss_acflag := a\<rparr>)"
proof (rule sem_inv_keep)
  assume inv: "sem_inv st"
  let ?st = "st\<lparr>ss_acflag := a\<rparr>"
  have u: "undo_inv ?st = undo_inv st" "entl ?st = entl st" by (rule undo_inv_cong; simp)+
  show "undo_inv ?st" "\<forall>ent \<in> set (entl ?st). \<forall>u \<in> set ent. ent_live (ss_sema st) u"
    using u inv by (simp_all add: sem_inv_def ents_live_def)
  show "vals_ok ?st" using inv by (simp add: sem_inv_def vals_ok_def vals_def)
qed simp_all

lemma sem_not_owner_inv:
  assumes "sem_inv st" "sem_not_owner c p st = (bad, st')"
  shows "sem_inv st'" "ss_sema st' = ss_sema st" "entl st' = entl st"
proof -
  have "st' = st \<or> (\<exists>a. st' = st\<lparr>ss_acflag := a\<rparr>)"
    using assms(2) by (auto simp: sem_not_owner_def sem_suser_def split: if_splits)
  moreover have "entl (st\<lparr>ss_acflag := a\<rparr>) = entl st" for a by (rule undo_inv_cong) simp_all
  ultimately show "sem_inv st'" "ss_sema st' = ss_sema st" "entl st' = entl st" using assms(1) sem_inv_acflag by auto
qed

lemma sem_not_owner_iff:
  "sem_not_owner c p st = (bad, st') \<Longrightarrow> bad \<longleftrightarrow> cr_uid (sc_cred c) \<notin> {0, ipc_uid p, ipc_cuid p}"
  by (auto simp: sem_not_owner_def sem_suser_def split: if_splits)

lemma sema_put_inv:
  assumes inv: "sem_inv st" and key: "set_key sp = set_key (ss_sema st ! i)" "i < length (ss_sema st)"
  shows "sem_inv (sema_put i sp st)"
proof (rule sem_inv_keep [OF inv])
  let ?st = "sema_put i sp st"
  have u: "undo_inv ?st = undo_inv st" "entl ?st = entl st" by (rule undo_inv_cong; simp add: sema_put_def)+
  show "undo_inv ?st" "\<forall>ent \<in> set (entl ?st). \<forall>u \<in> set ent. ent_live (ss_sema st) u"
    using u inv by (simp_all add: sem_inv_def ents_live_def)
  show "vals_ok ?st" using inv by (simp add: sem_inv_def vals_ok_def vals_def sema_put_def)
  show "map set_key (ss_sema ?st) = map set_key (ss_sema st)" using key by (simp add: sema_put_def map_update_same)
qed (simp_all add: sema_put_def)

section \<open>Semctl\<close>

lemma perm_bits_alloc: "((m AND PERM_BITS) OR IPC_ALLOC) AND IPC_ALLOC \<noteq> 0"
proof -
  have "((m AND PERM_BITS) OR IPC_ALLOC) AND IPC_ALLOC = IPC_ALLOC" by (rule bit_eqI) (auto simp: bit_simps)
  then show ?thesis by (simp add: IPC_ALLOC_def)
qed

lemma semctl_set_safe:
  assumes "sem_inv st" "names_set st s i"
  shows "sem_safe (semctl_set c um i st)"
proof -
  obtain bad st1 where o: "sem_not_owner c (sem_perm (ss_sema st ! i)) st = (bad, st1)" by fastforce
  note so = sem_not_owner_inv [OF assms(1) o]
  have "sem_inv (sema_put i ((ss_sema st ! i)\<lparr>sem_perm := (sem_perm (ss_sema st ! i))\<lparr>ipc_uid := u, ipc_gid := g,
      ipc_mode := (m AND PERM_BITS) OR IPC_ALLOC\<rparr>, sem_ctime := t\<rparr>) st1)" for u g m t
    using names_setD(1,2) [OF assms(2)] so perm_bits_alloc [of m]
    by (intro sema_put_inv) (simp_all add: set_key_eq set_alloc_def set_seq_def ipc_allocated_def)
  then show ?thesis using so(1) by (auto simp: semctl_set_def o Let_def sem_safe_simps split: option.splits)
qed

lemma semctl_o_set_safe:
  assumes "sem_inv st" "names_set st s i"
  shows "sem_safe (semctl_o_set ilp32 c um i st)"
proof -
  obtain bad st1 where o: "sem_not_owner c (sem_perm (ss_sema st ! i)) st = (bad, st1)" by fastforce
  note so = sem_not_owner_inv [OF assms(1) o]
  have "sem_inv (sema_put i ((ss_sema st ! i)\<lparr>sem_perm := (sem_perm (ss_sema st ! i))\<lparr>ipc_uid := u, ipc_gid := g,
      ipc_mode := (m AND PERM_BITS) OR IPC_ALLOC\<rparr>, sem_ctime := t\<rparr>) st1)" for u g m t
    using names_setD(1,2) [OF assms(2)] so perm_bits_alloc [of m]
    by (intro sema_put_inv) (simp_all add: set_key_eq set_alloc_def set_seq_def ipc_allocated_def)
  then show ?thesis using so(1) assms(1) by (auto simp: semctl_o_set_def o Let_def sem_safe_simps split: option.splits)
qed

lemma semctl_stat_safe:
  assumes "sem_inv st"
  shows "sem_safe (semctl_stat c um i st)" "sem_safe (semctl_o_stat ilp32 c um i st)"
  using assms by (auto simp: semctl_stat_def semctl_o_stat_def Let_def sem_safe_simps split: option.splits)

lemma semctl_get_safe:
  assumes "sem_inv st" "names_set st s i"
  shows "sem_safe (semctl_get f c n i st)"
  using assms set_in_array(1) [OF assms, of "unat n"]
  by (auto simp: semctl_get_def Let_def sem_safe_simps not_le split: option.splits)

lemma sem_copyout_total:
  "k + n \<le> length (ss_sem st) \<Longrightarrow> \<exists>vs. sem_copyout_vals n k rm st = KRet vs"
proof (induction n arbitrary: k rm)
  case (Suc n)
  have k: "Suc k + n \<le> length (ss_sem st)" using Suc.prems by simp
  obtain vs where "sem_copyout_vals n (Suc k) (rm - 1) st = KRet vs" using Suc.IH [OF k] by blast
  then show ?case using Suc.prems by (cases rm) (simp_all add: sem_at_def)
qed simp

lemma semctl_getall_safe:
  assumes "sem_inv st" "names_set st s i"
  shows "sem_safe (semctl_getall c um i st)"
proof -
  have "sem_base (ss_sema st ! i) + unat (sem_nsems (ss_sema st ! i)) \<le> length (ss_sem st)"
    by (rule set_facts(2) [OF assms])
  from sem_copyout_total [OF this, of "um_room um"] obtain vs where
    "sem_copyout_vals (unat (sem_nsems (ss_sema st ! i))) (sem_base (ss_sema st ! i)) (um_room um) st = KRet vs" by blast
  then show ?thesis using assms(1) by (auto simp: semctl_getall_def Let_def sem_safe_simps split: option.splits)
qed

lemma semunrm_inv:
  assumes inv: "sem_inv st"
  shows "\<exists>st'. semunrm sid low high st = KRet st' \<and> sem_inv st' \<and> same_but_undo st st' \<and> ss_undo st' = ss_undo st \<and>
    entl st' = map (filter (\<lambda>u. \<not> un_doomed sid low high u)) (entl st)"
proof -
  let ?P = "\<lambda>u. \<not> un_doomed sid low high u"
  obtain st' where r: "semunrm sid low high st = KRet st'" "undo_inv st'" "same_but_undo st st'" "ss_undo st' = ss_undo st"
    "\<forall>slot < length (ss_undo st). ents_of st' slot = filter ?P (ents_of st slot)"
    using semunrm_ok [OF inv_sets(5) [OF inv], of sid low high] by blast
  have e: "entl st' = map (filter ?P) (entl st)" using r(4,5) by (simp add: entl_def)
  have l: "\<forall>ent \<in> set (entl st'). \<forall>u \<in> set ent. ent_live (ss_sema st) u" using inv unfolding e by (auto simp: sem_inv_def ents_live_def)
  have s: "ss_info st' = ss_info st" "ss_semmap st' = ss_semmap st" "ss_sem st' = ss_sem st" "ss_sema st' = ss_sema st"
    using r(3) by (simp_all add: same_but_undo_def)
  have v: "vals_ok st'" using inv by (simp add: sem_inv_def vals_ok_def vals_def s)
  have "sem_inv st'" by (rule sem_inv_keep [OF inv r(2) _ s(1,2) _ v l]) (simp_all add: s)
  then show ?thesis using r e by blast
qed

lemma sem_store_inv:
  assumes inv: "sem_inv st" and k: "k < length (ss_sem st)" "int (unat v) \<le> si_semvmx (ss_info st)"
  shows "\<exists>st'. sem_store c k v st = KRet st' \<and> sem_inv st' \<and> ss_info st' = ss_info st \<and> ss_sema st' = ss_sema st \<and> entl st' = entl st \<and>
    length (ss_sem st') = length (ss_sem st) \<and> vals st' = (vals st)[k := int (unat v)]"
proof -
  have "\<exists>st' s. sem_store c k v st = KRet st' \<and> same_undo st st' \<and> ss_sema st' = ss_sema st \<and> ss_sem st' = (ss_sem st)[k := s] \<and> semval s = v"
    using k(1) by (auto simp: sem_store_def sem_at_def Let_def cv_send_def sem_put_def same_undo_def)
  then obtain st' s where r: "sem_store c k v st = KRet st'" "same_undo st st'" "ss_sema st' = ss_sema st" "ss_sem st' = (ss_sem st)[k := s]" "semval s = v"
    by blast
  moreover have "sem_inv st'" using sem_put_inv [OF inv r(2,3,4)] r(5) k(2) by simp
  moreover have "ss_info st' = ss_info st" using r(2) by (simp add: same_undo_def)
  moreover have "vals st' = (vals st)[k := int (unat v)]" using r(4,5) by (simp add: vals_def map_update)
  ultimately show ?thesis using same_undo_inv(2) [OF r(2)] by auto
qed

lemma sem_store_all_inv:
  "sem_inv st \<Longrightarrow> k + length vs \<le> length (ss_sem st) \<Longrightarrow> \<forall>v \<in> set vs. int (unat v) \<le> si_semvmx (ss_info st) \<Longrightarrow>
   \<exists>st'. sem_store_all c k vs st = KRet st' \<and> sem_inv st'"
proof (induction vs arbitrary: st k)
  case (Cons v vs)
  have k: "k < length (ss_sem st)" "int (unat v) \<le> si_semvmx (ss_info st)" using Cons.prems by simp_all
  obtain st1 where s: "sem_store c k v st = KRet st1" "sem_inv st1" "ss_info st1 = ss_info st" "length (ss_sem st1) = length (ss_sem st)"
    using sem_store_inv [OF Cons.prems(1) k, of c] by blast
  have "\<exists>st'. sem_store_all c (Suc k) vs st1 = KRet st' \<and> sem_inv st'"
    by (rule Cons.IH [OF s(2)]) (use Cons.prems s in simp_all)
  then show ?case using s(1) by simp
qed simp

lemma semctl_setval_safe:
  assumes inv: "sem_inv st" and set: "names_set st s i"
  shows "sem_safe (semctl_setval c s n arg i st)"
proof (cases "ipcaccess (sem_perm (ss_sema st ! i)) SEM_A (sc_cred c)")
  case None
  let ?sp = "ss_sema st ! i"
  show ?thesis
  proof (cases "unat (sem_nsems ?sp) \<le> unat n \<or> (of_int (si_semvmx (ss_info st)) :: uint_t) < ucast arg")
    case True
    then show ?thesis using None inv by (auto simp: semctl_setval_def Let_def sem_safe_simps)
  next
    case False
    let ?k = "sem_base ?sp + unat n"
    have k: "?k < length (ss_sem st)" using set_in_array(2) [OF inv set] False by simp
    have vmx: "0 \<le> si_semvmx (ss_info st)" "si_semvmx (ss_info st) \<le> 65535"
      using inv_sets(2) [OF inv] by (simp_all add: sem_info_ok_def info_ok_def)
    have "unat (ucast arg :: uint_t) \<le> unat (of_int (si_semvmx (ss_info st)) :: uint_t)" using False by (simp add: not_less word_le_nat_alt)
    moreover have "unat (of_int (si_semvmx (ss_info st)) :: uint_t) = nat (si_semvmx (ss_info st))"
    proof -
      have "take_bit 32 (si_semvmx (ss_info st)) = si_semvmx (ss_info st)" using vmx by (simp add: take_bit_int_eq_self)
      then show ?thesis by (simp add: unat_eq_nat_uint uint_word_of_int_eq)
    qed
    moreover have "unat (ucast arg :: ushort_t) = unat arg mod 65536" "unat (ucast arg :: uint_t) = unat arg mod 4294967296"
      by (simp_all add: unsigned_ucast_eq take_bit_eq_mod)
    moreover have "unat arg mod 65536 \<le> unat arg mod 4294967296"
    proof -
      have "unat arg mod 65536 = unat arg mod 4294967296 mod 65536" by (simp add: mod_mod_cancel)
      then show ?thesis by simp
    qed
    ultimately have v: "int (unat (ucast arg :: ushort_t)) \<le> si_semvmx (ss_info st)" using vmx by linarith
    obtain st1 where st1: "sem_store c ?k (ucast arg) st = KRet st1" "sem_inv st1" using sem_store_inv [OF inv k v, of c] by blast
    obtain st2 where st2: "semunrm s (ucast n) (ucast n) st1 = KRet st2" "sem_inv st2" using semunrm_inv [OF st1(2), of s "ucast n" "ucast n"] by blast
    have "semctl_setval c s n arg i st = sem_ok st2" using None False st1(1) st2(1) by (simp add: semctl_setval_def Let_def)
    then show ?thesis using st2(2) by (simp add: sem_safe_simps)
  qed
qed (use inv in \<open>simp add: semctl_setval_def Let_def sem_safe_simps\<close>)

lemma semctl_setall_safe:
  assumes inv: "sem_inv st" and set: "names_set st s i"
  shows "sem_safe (semctl_setall c s um i st)"
proof (cases "ipcaccess (sem_perm (ss_sema st ! i)) SEM_A (sc_cred c)")
  case None
  let ?sp = "ss_sema st ! i"
  show ?thesis
  proof (cases "um_vals um")
    case (Some us)
    show ?thesis
    proof (cases "length us < unat (sem_nsems ?sp) \<or> (\<exists>v \<in> set (take (unat (sem_nsems ?sp)) us). si_semvmx (ss_info st) < int (unat v))")
      case True
      then show ?thesis using None Some inv by (auto simp: semctl_setall_def Let_def sem_safe_simps)
    next
      case False
      let ?vs = "take (unat (sem_nsems ?sp)) us"
      obtain st1 where st1: "semunrm s 0 (sem_nsems ?sp) st = KRet st1" "sem_inv st1" "same_but_undo st st1"
        using semunrm_inv [OF inv, of s 0 "sem_nsems ?sp"] by blast
      have s1: "ss_info st1 = ss_info st" "ss_sem st1 = ss_sem st" using st1(3) by (simp_all add: same_but_undo_def)
      have "\<exists>st2. sem_store_all c (sem_base ?sp) ?vs st1 = KRet st2 \<and> sem_inv st2"
        using set_facts(2) [OF inv set] False by (intro sem_store_all_inv [OF st1(2)]) (auto simp: s1 not_less)
      then obtain st2 where st2: "sem_store_all c (sem_base ?sp) ?vs st1 = KRet st2" "sem_inv st2" by blast
      have "semctl_setall c s um i st = sem_ok st2" using None Some False st1(1) st2(1) by (auto simp: semctl_setall_def Let_def)
      then show ?thesis using st2(2) by (simp add: sem_safe_simps)
    qed
  qed (use None inv in \<open>simp add: semctl_setall_def Let_def sem_safe_simps\<close>)
qed (use inv in \<open>simp add: semctl_setall_def Let_def sem_safe_simps\<close>)

section \<open>Sets come and go\<close>

lemma live_ranges_update:
  assumes "i < length sema"
  shows "live_ranges (sema[i := sp]) = live_ranges (take i sema) @ (if set_alloc sp then [set_range sp] else []) @ live_ranges (drop (Suc i) sema)"
  by (simp add: live_ranges_def upd_conv_take_nth_drop [OF assms])

lemma live_ranges_at:
  assumes "i < length sema"
  shows "live_ranges sema = live_ranges (take i sema) @ (if set_alloc (sema ! i) then [set_range (sema ! i)] else []) @ live_ranges (drop (Suc i) sema)"
  using live_ranges_update [OF assms, of "sema ! i"] by simp

lemma ranges_live_insert: "ranges_live U ((a, n) # xs @ ys) \<Longrightarrow> ranges_live U (xs @ (a, n) # ys)"
  by (fastforce simp: ranges_live_def sorted_wrt_append)

lemma inv_map:
  assumes "sem_inv st"
  shows "map_inv (ss_semmap st)" "map_units (ss_semmap st) \<subseteq> {1..length (ss_sem st)}"
    "ranges_live (map_units (ss_semmap st)) (live_ranges (ss_sema st))" "ipc.keys_unique (map sem_perm (ss_sema st))"
  using assms unfolding sem_inv_def sem_sets_def by blast+

lemma sem_inv_replace:
  assumes inv: "sem_inv st" and i: "i < length (ss_sema st)" and sp: "set_ok (length (ss_sem st)) sp"
    and mp: "map_inv mp" "map_units mp \<subseteq> {1..length (ss_sem st)}" "ranges_live (map_units mp) (live_ranges ((ss_sema st)[i := sp]))"
    and key: "ipc.keys_unique (map sem_perm ((ss_sema st)[i := sp]))"
    and ents: "\<forall>ent \<in> set (entl st). \<forall>u \<in> set ent. semid_index (un_id u) \<noteq> i"
  shows "sem_inv (sema_put i sp (st\<lparr>ss_semmap := mp\<rparr>))"
proof -
  define st' where "st' = sema_put i sp (st\<lparr>ss_semmap := mp\<rparr>)"
  have f: "ss_semmap st' = mp" "ss_sema st' = (ss_sema st)[i := sp]" "ss_sem st' = ss_sem st" "ss_info st' = ss_info st"
    by (simp_all add: st'_def sema_put_def)
  have u: "undo_inv st' = undo_inv st" "entl st' = entl st" by (rule undo_inv_cong; simp add: st'_def sema_put_def)+
  have s: "sem_sets st" using inv by (simp add: sem_inv_def)
  have "\<forall>t \<in> set (ss_sema st'). set_ok (length (ss_sem st)) t"
  proof
    fix t assume "t \<in> set (ss_sema st')"
    then have "t = sp \<or> t \<in> set (ss_sema st)" using set_update_subset_insert [of "ss_sema st" i sp] unfolding f by blast
    then show "set_ok (length (ss_sem st)) t" using sp s unfolding sem_sets_def by blast
  qed
  then have "sem_sets st'" using s mp key unfolding sem_sets_def f by simp
  moreover have "vals_ok st'" using inv by (simp add: sem_inv_def vals_ok_def vals_def f)
  moreover have "ents_live st'" unfolding ents_live_def u(2)
  proof (intro ballI)
    fix ent v assume e: "ent \<in> set (entl st)" "v \<in> set ent"
    then have "ent_live (ss_sema st) v" "semid_index (un_id v) \<noteq> i" using inv ents unfolding sem_inv_def ents_live_def by blast+
    then show "ent_live (ss_sema st') v" by (simp add: ent_live_def Let_def f)
  qed
  ultimately show ?thesis using u inv unfolding st'_def by (simp add: sem_inv_def)
qed

lemma keys_unique_drop:
  assumes "ipc.keys_unique ps" "\<not> ipc_allocated p"
  shows "ipc.keys_unique (ps[i := p])"
proof -
  have "i' \<noteq> i \<and> ps[i := p] ! i' = ps ! i'" if "ipc_allocated (ps[i := p] ! i')" "i' < length ps" for i'
    using that assms(2) by (cases "i' = i") simp_all
  then show ?thesis using assms(1) unfolding ipc.keys_unique_def by auto
qed

lemma set_range_facts:
  assumes "sem_inv st" "names_set st s i"
  defines "sp \<equiv> ss_sema st ! i"
  shows "sem_base sp < 2147483648" "unat (fst (set_range sp)) = Suc (sem_base sp)" "unat (snd (set_range sp)) = unat (sem_nsems sp)"
    "0 < sint (snd (set_range sp))"
proof -
  have "length (ss_sem st) < 2147483648" using assms(1) by (auto simp: sem_inv_def sem_sets_def sem_info_ok_def)
  then show b: "sem_base sp < 2147483648" using set_facts(1,2) [OF assms(1,2)] by (simp add: sp_def)
  have "unat (of_nat (Suc (sem_base sp)) :: ulong_t) = Suc (sem_base sp)" using b unfolding unat_of_nat by simp
  then show "unat (fst (set_range sp)) = Suc (sem_base sp)" by (simp add: set_range_def add.commute)
  show n: "unat (snd (set_range sp)) = unat (sem_nsems sp)" unfolding set_range_def snd_conv
    by (rule unat_ucast_small) (use unat_bound [of "sem_nsems sp"] in simp)
  have "unat (sem_nsems sp) < 65536" using unat_bound [of "sem_nsems sp"] by simp
  then have "sint (snd (set_range sp)) = int (unat (snd (set_range sp)))" unfolding n [symmetric] by (intro sint_small) simp
  then show "0 < sint (snd (set_range sp))" using n set_facts(1) [OF assms(1,2)] unfolding sp_def by linarith
qed

lemma sem_drain_inv:
  assumes inv: "sem_inv st" and k: "k < length (ss_sem st)"
  shows "\<exists>st'. sem_drain k st = KRet st' \<and> sem_inv st' \<and> same_undo st st' \<and> ss_sema st' = ss_sema st \<and> length (ss_sem st') = length (ss_sem st)"
proof -
  have "\<exists>st' s. sem_drain k st = KRet st' \<and> same_undo st st' \<and> ss_sema st' = ss_sema st \<and> ss_sem st' = (ss_sem st)[k := s] \<and> semval s = 0"
    using k by (auto simp: sem_drain_def sem_at_def Let_def cv_send_def sem_put_def same_undo_def)
  then obtain st' s where r: "sem_drain k st = KRet st'" "same_undo st st'" "ss_sema st' = ss_sema st" "ss_sem st' = (ss_sem st)[k := s]" "semval s = 0"
    by blast
  have "0 \<le> si_semvmx (ss_info st)" using inv_sets(2) [OF inv] by (simp add: sem_info_ok_def info_ok_def)
  then have "sem_inv st'" using sem_put_inv [OF inv r(2,3,4)] r(5) by simp
  then show ?thesis using r by auto
qed

lemma same_undo_trans: "same_undo st st' \<Longrightarrow> same_undo st' st'' \<Longrightarrow> same_undo st st''"
  by (simp add: same_undo_def)

lemma sem_drain_all_inv:
  "sem_inv st \<Longrightarrow> k + n \<le> length (ss_sem st) \<Longrightarrow>
   \<exists>st'. sem_drain_all n k st = KRet st' \<and> sem_inv st' \<and> same_undo st st' \<and> ss_sema st' = ss_sema st \<and> length (ss_sem st') = length (ss_sem st)"
proof (induction n arbitrary: st k)
  case 0
  then show ?case by (simp add: same_undo_def)
next
  case (Suc n)
  then have k: "k < length (ss_sem st)" by simp
  obtain st1 where d: "sem_drain k st = KRet st1" "sem_inv st1" "same_undo st st1" "ss_sema st1 = ss_sema st" "length (ss_sem st1) = length (ss_sem st)"
    using sem_drain_inv [OF Suc.prems(1) k] by blast
  have "Suc k + n \<le> length (ss_sem st1)" using d(5) Suc.prems(2) by simp
  from Suc.IH [OF d(2) this] obtain st2 where "sem_drain_all n (Suc k) st1 = KRet st2" "sem_inv st2" "same_undo st1 st2"
    "ss_sema st2 = ss_sema st1" "length (ss_sem st2) = length (ss_sem st1)" by blast
  then show ?case using d same_undo_trans [OF d(3)] by simp
qed

text \<open>The sequence number of a set that is removed.\<close>

definition next_seq :: "uint_t \<Rightarrow> uint_t" where
  "next_seq q = (if q = SEMA_SEQ_MAX then 0 else q + 1)"

lemma next_seq_bound:
  assumes "unat q \<le> 32767"
  shows "unat (next_seq q) \<le> 32767" "next_seq q \<noteq> q"
proof -
  have "unat q \<noteq> 32767" if "q \<noteq> 0x7fff"
  proof
    assume "unat q = 32767"
    then have "unat q = unat (0x7fff :: uint_t)" by simp
    then show False using that unsigned_word_eqI by blast
  qed
  then have "unat q < 32767" if "q \<noteq> 0x7fff" using that assms by (simp add: le_neq_implies_less)
  then show "unat (next_seq q) \<le> 32767" by (auto simp: next_seq_def SEMA_SEQ_MAX_def unat_word_ariths)
  show "next_seq q \<noteq> q" by (simp add: next_seq_def SEMA_SEQ_MAX_def)
qed

lemma semctl_rmid_safe:
  assumes inv: "sem_inv st" and set: "names_set st s i"
  shows "\<exists>res out st'. semctl_rmid c s i st = KRet (res, out, st') \<and> (0 \<le> sint s \<longrightarrow> sem_inv st') \<and>
    (if cr_uid (sc_cred c) \<in> {0, ipc_uid (sem_perm (ss_sema st ! i)), ipc_cuid (sem_perm (ss_sema st ! i))}
     then res = Inr 0 \<and> \<not> set_alloc (ss_sema st' ! i) \<and> set_seq (ss_sema st' ! i) = next_seq (set_seq (ss_sema st ! i)) \<and>
       entl st' = map (filter (\<lambda>u. \<not> un_doomed s 0 (sem_nsems (ss_sema st ! i)) u)) (entl st)
     else res = Inl EPERM)"
proof -
  define sp where "sp = ss_sema st ! i"
  obtain bad st1 where o: "sem_not_owner c (sem_perm sp) st = (bad, st1)" by fastforce
  note so = sem_not_owner_inv [OF inv o]
  show ?thesis
  proof (cases bad)
    case True
    then have "semctl_rmid c s i st = sem_fail EPERM st1" using o by (simp add: semctl_rmid_def sp_def)
    then show ?thesis using so(1) True sem_not_owner_iff [OF o] by (auto simp: sem_fail_def sp_def)
  next
    case False
    obtain st2 where st2: "semunrm s 0 (sem_nsems sp) st1 = KRet st2" "sem_inv st2" "same_but_undo st1 st2"
      "entl st2 = map (filter (\<lambda>u. \<not> un_doomed s 0 (sem_nsems sp) u)) (entl st1)"
      using semunrm_inv [OF so(1), of s 0 "sem_nsems sp"] by blast
    have s2: "ss_sema st2 = ss_sema st" "ss_sem st2 = ss_sem st1" using st2(3) so(2) by (simp_all add: same_but_undo_def)
    have set2: "names_set st2 s i" using names_setD [OF set] s2(1) by (simp add: names_set_def)
    note f2 = set_facts [OF st2(2) set2, unfolded s2(1), folded sp_def]
    obtain st3 where st3: "sem_drain_all (unat (sem_nsems sp)) (sem_base sp) st2 = KRet st3" "sem_inv st3" "same_undo st2 st3"
      "ss_sema st3 = ss_sema st2" using sem_drain_all_inv [OF st2(2) f2(2)] by blast
    have set3: "names_set st3 s i" using names_setD [OF set2] st3(4) by (simp add: names_set_def)
    have sp3: "ss_sema st3 ! i = sp" "i < length (ss_sema st3)" using st3(4) s2(1) names_setD(1) [OF set3] by (simp_all add: sp_def)
    note r3 = set_range_facts [OF st3(2) set3, unfolded sp3(1)] and f3 = set_facts [OF st3(2) set3, unfolded sp3(1)]
    have al: "set_alloc sp" "semid_seq s = set_seq sp" using names_setD [OF set3] sp3(1) by simp_all
    note sets3 = inv_map [OF st3(2)]
    let ?a = "fst (set_range sp)" and ?n = "snd (set_range sp)"
    let ?xs = "live_ranges (take i (ss_sema st3))" and ?ys = "live_ranges (drop (Suc i) (ss_sema st3))"
    have lr: "live_ranges (ss_sema st3) = ?xs @ (?a, ?n) # ?ys" using live_ranges_at [OF sp3(2)] sp3(1) al(1) by simp
    have rl: "ranges_live (map_units (ss_semmap st3)) (?xs @ (?a, ?n) # ?ys)" using sets3(3) lr by simp
    obtain mp where mp: "rmfree (ss_semmap st3) ?n ?a = KRet mp" "map_inv mp" "ranges_live (map_units mp) (?xs @ ?ys)"
      using rmap.live_release [OF sets3(1) r3(4) rl] .
    note lv = ranges_live_remove [OF rl]
    obtain mp' where mp': "rmfree (ss_semmap st3) ?n ?a = KRet mp'" "map_units mp' \<subseteq> map_units (ss_semmap st3) \<union> seg_range ?a ?n"
      using rmap.release_ok [OF sets3(1) r3(4) lv(2,4,5)] by blast
    have "seg_range ?a ?n \<subseteq> {1..length (ss_sem st3)}" using r3(2,3) f3(2) by (auto simp: seg_range_def)
    then have un: "map_units mp \<subseteq> {1..length (ss_sem st3)}" using mp(1) mp' sets3(2) by auto
    define sp' where "sp' = sp\<lparr>sem_perm := (sem_perm sp)\<lparr>ipc_seq := (if semid_seq s = SEMA_SEQ_MAX then 0 else ipc_seq (sem_perm sp) + 1), ipc_mode := 0\<rparr>\<rparr>"
    have na: "\<not> set_alloc sp'" by (simp add: sp'_def set_alloc_def ipc_allocated_def)
    have sq: "set_seq sp' = next_seq (set_seq sp)" using al(2) by (simp add: sp'_def set_seq_def next_seq_def)
    have ok: "set_ok (length (ss_sem st3)) sp'" using na sq next_seq_bound(1) [OF f3(3)] by (simp add: set_ok_def)
    have lr': "live_ranges ((ss_sema st3)[i := sp']) = ?xs @ ?ys" using live_ranges_update [OF sp3(2), of sp'] na by simp
    have ku: "ipc.keys_unique (map sem_perm ((ss_sema st3)[i := sp']))"
      using keys_unique_drop [OF sets3(4), of "sem_perm sp'" i] na by (simp add: map_update set_alloc_def)
    have en: "\<forall>ent \<in> set (entl st3). \<forall>u \<in> set ent. semid_index (un_id u) \<noteq> i" if pos: "0 \<le> sint s"
    proof (intro ballI notI)
      fix ent u assume e: "ent \<in> set (entl st3)" "u \<in> set ent" "semid_index (un_id u) = i"
      have "\<not> un_doomed s 0 (sem_nsems sp) u" using e(1,2) same_undo_inv(2) [OF st3(3)] st2(4) by auto
      moreover have l: "ent_live (ss_sema st3) u" using e(1,2) st3(2) unfolding sem_inv_def ents_live_def by blast
      then have q: "set_seq sp = semid_seq (un_id u)" "0 \<le> sint (un_id u)" using e(3) sp3(1) by (simp_all add: ent_live_def Let_def)
      have "un_id u = s"
        using semid_ext [OF trans [OF e(3) names_setD(4) [OF set3, symmetric]] trans [OF q(1) [symmetric] al(2) [symmetric]] q(2) pos] .
      moreover have "un_num u \<le> sem_nsems sp" using l e(3) sp3(1) by (simp add: ent_live_def Let_def less_imp_le)
      ultimately show False by (simp add: un_doomed_def)
    qed
    define st4 where "st4 = sema_put i sp' (st3\<lparr>ss_semmap := mp\<rparr>)"
    have inv4: "sem_inv st4" if "0 \<le> sint s" unfolding st4_def
      by (rule sem_inv_replace [OF st3(2) sp3(2) ok mp(2) un _ ku en [OF that]]) (use mp(3) lr' in simp)
    have "entl st4 = entl st3" by (rule undo_inv_cong) (simp_all add: st4_def sema_put_def)
    then have el4: "entl st4 = map (filter (\<lambda>u. \<not> un_doomed s 0 (sem_nsems sp) u)) (entl st)"
      using same_undo_inv(2) [OF st3(3)] st2(4) so(3) by simp
    have "semctl_rmid c s i st = sem_ok st4"
      using False o st2(1) st3(1) mp(1) by (simp add: semctl_rmid_def Let_def sp_def [symmetric] set_range_def st4_def sp'_def)
    moreover have "ss_sema st4 ! i = sp'" using sp3(2) by (simp add: st4_def sema_put_def)
    ultimately show ?thesis using inv4 na sq el4 False sem_not_owner_iff [OF o] by (auto simp: sem_ok_def sp_def)
  qed
qed

section \<open>Semget\<close>

lemma release_key:
  assumes "\<not> set_alloc (ss_sema st ! i)" "set_seq sp = set_seq (ss_sema st ! i)" "sem_base sp = sem_base (ss_sema st ! i)"
    "sem_nsems sp = sem_nsems (ss_sema st ! i)"
  shows "set_key (sp\<lparr>sem_perm := (sem_perm sp)\<lparr>ipc_mode := 0\<rparr>\<rparr>) = set_key (ss_sema st ! i)"
  using assms by (simp add: set_key_eq set_alloc_def set_seq_def ipc_allocated_def)

lemma not_alloc_unnamed:
  assumes "sem_inv st" "\<not> set_alloc (ss_sema st ! i)"
  shows "\<forall>ent \<in> set (entl st). \<forall>u \<in> set ent. semid_index (un_id u) \<noteq> i"
proof (intro ballI notI)
  fix ent u assume "ent \<in> set (entl st)" "u \<in> set ent" "semid_index (un_id u) = i"
  moreover from this have "ent_live (ss_sema st) u" using assms(1) unfolding sem_inv_def ents_live_def by blast
  ultimately show False using assms(2) by (simp add: ent_live_def Let_def)
qed

lemma unat_of_int_small:
  assumes "0 \<le> x" "x < 2 ^ LENGTH('a)"
  shows "unat (of_int x :: 'a::len word) = nat x"
  using assms by (simp add: unat_eq_nat_uint uint_word_of_int_eq take_bit_int_eq_self)

lemma unat_nonneg_sint:
  assumes "0 \<le> sint (w :: 'a::len word)"
  shows "unat w = nat (sint w)"
proof -
  have "(2 :: int) ^ (LENGTH('a) - Suc 0) \<le> 2 ^ LENGTH('a)" by (rule power_increasing) simp_all
  then have "sint w < 2 ^ LENGTH('a)" by (rule order.strict_trans2 [OF sint_less])
  then have "unat (of_int (sint w) :: 'a word) = nat (sint w)" by (rule unat_of_int_small [OF assms])
  then show ?thesis by simp
qed

lemma new_set_words:
  assumes "0 < sint (nsems :: int32_t)" "sint nsems \<le> 65535"
  shows "sint (scast nsems :: size_t) = sint nsems" "unat (ucast nsems :: ushort_t) = nat (sint nsems)"
    "unat (scast nsems :: size_t) = nat (sint nsems)" "(ucast (ucast nsems :: ushort_t) :: size_t) = scast nsems"
proof -
  have un: "unat nsems = nat (sint nsems)" by (rule unat_nonneg_sint) (use assms(1) in linarith)
  have small: "unat nsems < 2 ^ LENGTH(16)" unfolding un using assms by simp
  show u: "unat (ucast nsems :: ushort_t) = nat (sint nsems)" using unat_ucast_small [OF small] un by (rule trans)
  have sc: "(scast nsems :: size_t) = of_int (sint nsems)" by (rule scast_eq)
  show us: "unat (scast nsems :: size_t) = nat (sint nsems)" unfolding sc by (rule unat_of_int_small) (use assms in simp_all)
  show "sint (scast nsems :: size_t) = sint nsems" unfolding sc by (rule sint_of_int_small) (use assms in simp_all)
  have "unat (ucast (ucast nsems :: ushort_t) :: size_t) = unat (ucast nsems :: ushort_t)"
    by (rule unat_ucast_small) (use unat_bound [of "ucast nsems :: ushort_t"] in simp)
  then have "unat (ucast (ucast nsems :: ushort_t) :: size_t) = unat (scast nsems :: size_t)" unfolding u us .
  then show "(ucast (ucast nsems :: ushort_t) :: size_t) = scast nsems" by (rule unsigned_word_eqI)
qed

lemma of_nat_pred:
  assumes "(a :: ulong_t) \<noteq> 0"
  shows "of_nat (unat a - 1) + 1 = a"
proof -
  have "0 < unat a" using assms by (simp add: unat_pos_iff)
  then have "of_nat (unat a - 1) + 1 = (of_nat (unat a - 1 + 1) :: ulong_t)" by simp
  also have "unat a - 1 + 1 = unat a" using \<open>0 < unat a\<close> by simp
  finally show ?thesis by simp
qed

text \<open>The identifier that is given out, and what the conversion makes of it.\<close>

definition make_semid :: "uint_t \<Rightarrow> nat \<Rightarrow> int32_t" where
  "make_semid q i = push_bit SEMA_SEQ_SHIFT q + of_nat i"

lemma make_semid_parts:
  assumes q: "unat q \<le> 32767" and i: "i \<le> 65535"
  shows "semid_index (make_semid q i) = i" "semid_seq (make_semid q i) = q" "0 \<le> sint (make_semid q i)"
proof -
  let ?w = "make_semid q i"
  have "?w = of_nat (unat q * 65536 + i)" by (simp add: make_semid_def SEMA_SEQ_SHIFT_def push_bit_eq_mult)
  then have u: "unat ?w = unat q * 65536 + i" using q i by (simp only: unat_of_nat) simp
  have "unat ?w < 2 ^ (LENGTH(32) - 1)" unfolding u using q i by simp
  then have s: "sint ?w = int (unat ?w)" by (rule sint_small)
  show "0 \<le> sint ?w" unfolding s by simp
  have "?w AND 0xffff = take_bit 16 ?w" by (simp add: take_bit_eq_mask mask_eq_exp_minus_1)
  then have "unat (?w AND 0xffff) = take_bit 16 (unat ?w)" by (simp only: unsigned_take_bit_eq)
  then have "unat (?w AND 0xffff) = unat ?w mod 65536" by (simp add: take_bit_eq_mod)
  then show "semid_index ?w = i" using i unfolding semid_index_def SEMA_INDEX_MASK_def u by simp
  have "sint (signed_drop_bit 16 ?w) = sint ?w div 65536" by (simp add: sint_signed_drop_bit_eq drop_bit_eq_div)
  also have "\<dots> = int (unat ?w div 65536)" unfolding s by (simp add: zdiv_int)
  also have "unat ?w div 65536 = unat q" unfolding u using i by simp
  also have "int (unat q) = sint q" by (rule sint_small [symmetric]) (use q in simp)
  finally have d: "signed_drop_bit 16 ?w = q" by (simp only: sint_inj)
  have "q AND 0x7fff = take_bit 15 q" by (simp add: take_bit_eq_mask mask_eq_exp_minus_1)
  then have "unat (q AND 0x7fff) = unat q" using q by (simp only: unsigned_take_bit_eq) (simp add: take_bit_nat_eq_self)
  then have "q AND 0x7fff = q" by (rule unsigned_word_eqI)
  then show "semid_seq ?w = q" using d by (simp add: semid_seq_def SEMA_SEQ_SHIFT_def SEMA_SEQ_MASK_def)
qed

lemma made_names_set:
  assumes inv: "sem_inv st" and i: "i < length (ss_sema st)" "set_alloc (ss_sema st ! i)"
  defines "sid \<equiv> make_semid (set_seq (ss_sema st ! i)) i"
  shows "names_set st sid (semid_index sid)" "0 \<le> sint sid"
proof -
  have "unat (set_seq (ss_sema st ! i)) \<le> 32767" using inv_set_ok [OF inv i(1)] by (simp add: set_ok_def)
  moreover have "i \<le> 65535" using inv_sets(2,4) [OF inv] i(1) by (simp add: sem_info_ok_def SEMA_INDEX_MAX_def)
  ultimately have p: "semid_index sid = i" "semid_seq sid = set_seq (ss_sema st ! i)" "0 \<le> sint sid"
    unfolding sid_def by (rule make_semid_parts)+
  show "names_set st sid (semid_index sid)" unfolding names_set_def p(1,2) using i by simp
  show "0 \<le> sint sid" by (rule p(3))
qed

lemma release_inv:
  assumes inv: "sem_inv st" and i: "i < length (ss_sema st)" "\<not> set_alloc (ss_sema st ! i)"
    and sp: "\<not> set_alloc sp" "set_seq sp = set_seq (ss_sema st ! i)"
    and mp: "map_inv mp" "map_units mp = map_units (ss_semmap st)"
  shows "sem_inv (sema_put i sp (st\<lparr>ss_semmap := mp\<rparr>))"
proof (rule sem_inv_replace [OF inv i(1) _ mp(1) _ _ _ not_alloc_unnamed [OF inv i(2)]])
  note m = inv_map [OF inv]
  show "set_ok (length (ss_sem st)) sp" using inv_set_ok [OF inv i(1)] sp by (simp add: set_ok_def)
  show "map_units mp \<subseteq> {1..length (ss_sem st)}" using m(2) unfolding mp(2) .
  have "live_ranges ((ss_sema st)[i := sp]) = live_ranges (ss_sema st)"
    using live_ranges_update [OF i(1), of sp] live_ranges_at [OF i(1)] sp(1) i(2) by simp
  then show "ranges_live (map_units mp) (live_ranges ((ss_sema st)[i := sp]))" using m(3) unfolding mp(2) by simp
  show "ipc.keys_unique (map sem_perm ((ss_sema st)[i := sp]))"
    using keys_unique_drop [OF m(4), of "sem_perm sp" i] sp(1) by (simp add: map_update set_alloc_def)
qed

lemma install_inv:
  assumes inv: "sem_inv st" and i: "i < length (ss_sema st)" "\<not> set_alloc (ss_sema st ! i)"
    and sp: "set_alloc sp" "set_seq sp = set_seq (ss_sema st ! i)" "set_range sp = (a, n)" "unat (sem_nsems sp) = unat n" "unat a = Suc (sem_base sp)"
    and mp: "map_inv mp" "seg_range a n \<subseteq> map_units (ss_semmap st)" "map_units mp = map_units (ss_semmap st) - seg_range a n"
      "ranges_live (map_units mp) ((a, n) # live_ranges (ss_sema st))"
    and key: "ipc.keys_unique (map sem_perm ((ss_sema st)[i := sp]))"
  shows "sem_inv (sema_put i sp (st\<lparr>ss_semmap := mp\<rparr>))"
proof (rule sem_inv_replace [OF inv i(1) _ mp(1) _ _ key not_alloc_unnamed [OF inv i(2)]])
  note m = inv_map [OF inv]
  have n: "0 < unat n" using mp(4) unfolding ranges_live_Cons by (simp add: unat_pos_iff)
  have "unat a + unat n - 1 \<in> seg_range a n" using n by (simp add: seg_range_def)
  then have "unat a + unat n - 1 \<le> length (ss_sem st)" using mp(2) m(2) by auto
  then show "set_ok (length (ss_sem st)) sp" using inv_set_ok [OF inv i(1)] sp n by (simp add: set_ok_def)
  show "map_units mp \<subseteq> {1..length (ss_sem st)}" using m(2) unfolding mp(3) by blast
  let ?xs = "live_ranges (take i (ss_sema st))" and ?ys = "live_ranges (drop (Suc i) (ss_sema st))"
  have "live_ranges (ss_sema st) = ?xs @ ?ys" using live_ranges_at [OF i(1)] i(2) by simp
  then have "ranges_live (map_units mp) ((a, n) # ?xs @ ?ys)" using mp(4) by simp
  then have "ranges_live (map_units mp) (?xs @ (a, n) # ?ys)" by (rule ranges_live_insert)
  then show "ranges_live (map_units mp) (live_ranges ((ss_sema st)[i := sp]))"
    using live_ranges_update [OF i(1), of sp] sp(1,3) by simp
qed

text \<open>What a call of \<open>semget\<close> promises, the identifier it returns included.\<close>

definition get_safe :: "((errno + int32_t) \<times> semstate) kres \<Rightarrow> bool" where
  "get_safe r \<longleftrightarrow> (\<exists>res st'. r = KRet (res, st') \<and> sem_inv st' \<and>
     (\<forall>sid. res = Inr sid \<longrightarrow> names_set st' sid (semid_index sid) \<and> 0 \<le> sint sid))"

lemma get_safe_error: "sem_inv st \<Longrightarrow> get_safe (KRet (Inl e, st))"
  by (simp add: get_safe_def)

lemma get_safe_found:
  assumes "sem_inv st" "i < length (ss_sema st)" "set_alloc (ss_sema st ! i)"
  shows "get_safe (KRet (Inr (push_bit SEMA_SEQ_SHIFT (set_seq (ss_sema st ! i)) + of_nat i), st))"
  using made_names_set [OF assms] assms(1) unfolding make_semid_def by (auto simp: get_safe_def)

lemma semget_safe:
  assumes inv: "sem_inv st"
  shows "get_safe (semget c key nsems flg st)"
proof (cases "ipcget (sc_cred c) key flg (map sem_perm (ss_sema st))")
  case (Inl e)
  then show ?thesis using inv by (simp add: semget_def get_safe_error)
next
  case (Inr r)
  obtain new i perms where r: "r = (new, i, perms)" by (cases r) auto
  show ?thesis
  proof (cases new)
    case False
    then have o: "perms = map sem_perm (ss_sema st)" "i < length (ss_sema st)" "set_alloc (ss_sema st ! i)"
      using ipcget_old [of "sc_cred c" key flg "map sem_perm (ss_sema st)" i perms] Inr r by (auto simp: set_alloc_def)
    then have same: "(ss_sema st ! i)\<lparr>sem_perm := perms ! i\<rparr> = ss_sema st ! i" by simp
    show ?thesis unfolding semget_def Inr r using False get_safe_found [OF inv o(2,3)] get_safe_error [OF inv]
      by (simp add: same Let_def set_seq_def)
  next
    case True
    have g: "ipcget (sc_cred c) key flg (map sem_perm (ss_sema st)) = Inr (True, i, perms)" using Inr r True by simp
    let ?q = "ipc_init key flg (sc_cred c) (sem_perm (ss_sema st ! i))"
    have i: "i < length (ss_sema st)" "\<not> set_alloc (ss_sema st ! i)" and pe: "perms ! i = ?q" "perms = (map sem_perm (ss_sema st))[i := ?q]"
      using ipcget_new [OF g] by (auto simp: set_alloc_def)
    have ku: "ipc.keys_unique perms" by (rule ipc.keys_unique_get [OF inv_map(4) [OF inv] g])
    define sp where "sp = (ss_sema st ! i)\<lparr>sem_perm := ?q\<rparr>"
    define rel where "rel = sp\<lparr>sem_perm := (sem_perm sp)\<lparr>ipc_mode := 0\<rparr>\<rparr>"
    have sq: "ipc_seq ?q = set_seq (ss_sema st ! i)" by (simp add: ipc_init_def set_seq_def)
    have rl: "\<not> set_alloc rel" "set_seq rel = set_seq (ss_sema st ! i)"
      using sq by (simp_all add: rel_def sp_def set_alloc_def ipc_allocated_def set_seq_def)
    have release: "sem_inv (sema_put i rel (st\<lparr>ss_semmap := mp\<rparr>))" if "map_inv mp" "map_units mp = map_units (ss_semmap st)" for mp
      by (rule release_inv [OF inv i rl that])
    show ?thesis
    proof (cases "sint nsems \<le> 0 \<or> si_semmsl (ss_info st) < sint nsems")
      case bad: True
      have "semget c key nsems flg st = KRet (Inl EINVAL, sema_put i rel st)"
        unfolding semget_def g using bad pe(1) by (simp add: Let_def rel_def sp_def)
      moreover have "sem_inv (sema_put i rel st)" using release [OF inv_map(1) [OF inv] refl] by simp
      ultimately show ?thesis by (simp add: get_safe_error)
    next
      case False
      then have n: "0 < sint nsems" "sint nsems \<le> 65535" using inv_sets(2) [OF inv] by (simp_all add: sem_info_ok_def)
      note w = new_set_words [OF n]
      have pos: "0 < sint (scast nsems :: size_t)" using w(1) n(1) by simp
      obtain a mp where al: "rmalloc (ss_semmap st) (scast nsems) = KRet (a, mp)" "map_inv mp"
        "if a = 0 then map_units mp = map_units (ss_semmap st)
         else unat a + unat (scast nsems :: size_t) < 2 ^ 64 \<and> seg_range a (scast nsems) \<subseteq> map_units (ss_semmap st) \<and>
           map_units mp = map_units (ss_semmap st) - seg_range a (scast nsems)"
        using rmap.alloc_ok [OF inv_map(1) [OF inv] pos] by blast
      show ?thesis
      proof (cases "a = 0")
        case True
        have "semget c key nsems flg st = KRet (Inl ENOSPC, sema_put i rel (st\<lparr>ss_semmap := mp\<rparr>))"
          unfolding semget_def g using False True pe(1) al(1) by (simp add: Let_def rel_def sp_def)
        moreover have "sem_inv (sema_put i rel (st\<lparr>ss_semmap := mp\<rparr>))" using al(3) True by (intro release [OF al(2)]) simp
        ultimately show ?thesis by (simp add: get_safe_error)
      next
        case a: False
        obtain a' mp' where "rmalloc (ss_semmap st) (scast nsems) = KRet (a', mp')"
          "if a' = 0 then ranges_live (map_units mp') (live_ranges (ss_sema st))
           else ranges_live (map_units mp') ((a', scast nsems) # live_ranges (ss_sema st))"
          using rmap.live_alloc [OF inv_map(1) [OF inv] pos inv_map(3) [OF inv]] .
        then have lv: "ranges_live (map_units mp) ((a, scast nsems) # live_ranges (ss_sema st))" using al(1) a by simp
        define sp' where "sp' = sp\<lparr>sem_base := unat a - 1, sem_binary := True, sem_nsems := ucast nsems, sem_ctime := sc_time c, sem_otime := 0\<rparr>"
        have f: "set_alloc sp'" "set_seq sp' = set_seq (ss_sema st ! i)" "sem_perm sp' = ?q"
          using ipc_init_allocated(1) sq by (simp_all add: sp'_def sp_def set_alloc_def set_seq_def)
        have sr: "set_range sp' = (a, scast nsems)" using of_nat_pred [OF a] w(4) by (simp add: set_range_def sp'_def)
        have "0 < unat a" using a by (simp add: unat_pos_iff)
        then have ba: "unat a = Suc (sem_base sp')" by (simp add: sp'_def)
        have ns: "unat (sem_nsems sp') = unat (scast nsems :: size_t)" using w(2,3) by (simp add: sp'_def)
        have km: "ipc.keys_unique (map sem_perm ((ss_sema st)[i := sp']))" using ku pe(2) f(3) by (simp add: map_update)
        have al3: "seg_range a (scast nsems) \<subseteq> map_units (ss_semmap st)" "map_units mp = map_units (ss_semmap st) - seg_range a (scast nsems)"
          using al(3) a by simp_all
        define st' where "st' = sema_put i sp' (st\<lparr>ss_semmap := mp\<rparr>)"
        have inv': "sem_inv st'" unfolding st'_def by (rule install_inv [OF inv i f(1,2) sr ns ba al(2) al3 lv km])
        have at: "ss_sema st' ! i = sp'" "i < length (ss_sema st')" using i(1) by (simp_all add: st'_def sema_put_def)
        have "semget c key nsems flg st = KRet (Inr (push_bit SEMA_SEQ_SHIFT (set_seq (ss_sema st' ! i)) + of_nat i), st')"
          unfolding semget_def g using False a pe(1) al(1) at(1) by (simp add: Let_def sp'_def sp_def st'_def set_seq_def)
        then show ?thesis using get_safe_found [OF inv' at(2)] at(1) f(1) by simp
      qed
    qed
  qed
qed

end
