(* ===== verification/Sem_Runs.thy ===== *)
theory Sem_Runs
  imports Sem_Inv
begin

text \<open>
  The calls of \<^verbatim>\<open>Sem\<close> as a whole: \<open>semop\<close> against the abstract pass of \<^verbatim>\<open>Sem_Op\<close>, the exit of a
  process, and runs of calls from the initial state.
\<close>

section \<open>Passes keep values and entries in order\<close>

lemma pass_spec_vals:
  "pass_spec info rm sid base ops vs ent = Inr (vs', ent') \<Longrightarrow> \<forall>v \<in> set vs. v \<le> si_semvmx info \<Longrightarrow>
   \<forall>opn \<in> set ops. op_pos base opn < length vs \<Longrightarrow> length vs' = length vs \<and> (\<forall>v \<in> set vs'. v \<le> si_semvmx info)"
proof (induction ops arbitrary: vs ent)
  case (Cons opn ops)
  let ?k = "op_pos base opn"
  have fit: "op_fits (si_semvmx info) opn (vs ! ?k)" using Cons.prems(1) by (auto simp: Let_def split: if_splits)
  show ?case
  proof (cases "sem_op opn = 0")
    case True
    then show ?thesis using Cons.IH [of vs ent] Cons.prems fit by (simp add: Let_def)
  next
    case False
    obtain e where e: "undo_spec info rm sid opn ent = Inr e" "pass_spec info rm sid base ops (vs[?k := vs ! ?k + sint (sem_op opn)]) e = Inr (vs', ent')"
      using Cons.prems(1) fit False by (auto simp: Let_def split: sum.splits)
    have "vs ! ?k \<le> si_semvmx info" using Cons.prems(2,3) by simp
    then have "vs ! ?k + sint (sem_op opn) \<le> si_semvmx info" using fit False unfolding op_fits_def by (auto split: if_splits)
    then have "\<forall>v \<in> set (vs[?k := vs ! ?k + sint (sem_op opn)]). v \<le> si_semvmx info"
      using Cons.prems(2) set_update_subset_insert [of vs ?k "vs ! ?k + sint (sem_op opn)"] by blast
    then show ?thesis using Cons.IH [OF e(2)] Cons.prems(3) by simp
  qed
qed simp

lemma ent_update_ids:
  assumes "ent_update info val sid num ent = Inr ent'" "u \<in> set ent'"
  shows "(\<exists>v \<in> set ent. un_id v = un_id u \<and> un_num v = un_num u) \<or> (un_id u = sid \<and> un_num u = num)"
proof -
  obtain i found where pos: "undo_pos ent sid num = (i, found)" by fastforce
  show ?thesis
  proof (cases found)
    case False
    then have "u \<in> set (take i ent) \<or> u = \<lparr>un_aoe = - val, un_num = num, un_id = sid\<rparr> \<or> u \<in> set (drop i ent)"
      using assms pos by (auto simp: ent_update_def split: if_splits)
    then show ?thesis by (auto dest: in_set_takeD in_set_dropD)
  next
    case True
    then have i: "i < length ent" using pos undo_pos_found by simp
    consider "u \<in> set (take i ent @ drop (Suc i) ent)" | a where "u \<in> set (ent[i := (ent ! i)\<lparr>un_aoe := a\<rparr>])"
      using assms pos True by (auto simp: ent_update_def Let_def split: if_splits)
    then show ?thesis
    proof cases
      case 1
      then show ?thesis by (auto dest: in_set_takeD in_set_dropD)
    next
      case (2 a)
      then have "u = (ent ! i)\<lparr>un_aoe := a\<rparr> \<or> u \<in> set ent" using set_update_subset_insert by fastforce
      then show ?thesis using nth_mem [OF i] by auto
    qed
  qed
qed

lemma pass_spec_ents:
  "pass_spec info rm sid base ops vs ent = Inr (vs', ent') \<Longrightarrow>
   \<forall>u \<in> set ent'. (\<exists>v \<in> set ent. un_id v = un_id u \<and> un_num v = un_num u) \<or> (un_id u = sid \<and> (\<exists>opn \<in> set ops. un_num u = sem_num opn))"
proof (induction ops arbitrary: vs ent)
  case (Cons opn ops)
  let ?k = "op_pos base opn"
  have fit: "op_fits (si_semvmx info) opn (vs ! ?k)" using Cons.prems(1) by (auto simp: Let_def split: if_splits)
  show ?case
  proof (cases "sem_op opn = 0")
    case True
    then have "pass_spec info rm sid base ops vs ent = Inr (vs', ent')" using Cons.prems fit by (simp add: Let_def)
    from Cons.IH [OF this] show ?thesis by fastforce
  next
    case False
    obtain e where e: "undo_spec info rm sid opn ent = Inr e" "pass_spec info rm sid base ops (vs[?k := vs ! ?k + sint (sem_op opn)]) e = Inr (vs', ent')"
      using Cons.prems(1) fit False by (auto simp: Let_def split: sum.splits)
    have "(\<exists>v \<in> set ent. un_id v = un_id u \<and> un_num v = un_num u) \<or> (un_id u = sid \<and> un_num u = sem_num opn)" if u: "u \<in> set e" for u
    proof (cases "sem_flg opn AND SEM_UNDO = 0")
      case True
      then show ?thesis using e(1) u by (auto simp: undo_spec_def)
    next
      case False
      then have "ent_update info (sem_op opn) sid (sem_num opn) ent = Inr e" using e(1) by (auto simp: undo_spec_def split: if_splits)
      from ent_update_ids [OF this u] show ?thesis .
    qed
    then show ?thesis using Cons.IH [OF e(2)] by fastforce
  qed
qed auto

section \<open>Semop\<close>

lemma sem_mark_ok:
  "\<forall>opn \<in> set ops. op_pos base opn < length (ss_sem st) \<Longrightarrow>
   \<exists>st'. sem_mark c base ops st = KRet st' \<and> same_undo st st' \<and> ss_sema st' = ss_sema st \<and> vals st' = vals st"
proof (induction ops arbitrary: st)
  case Nil
  then show ?case by (simp add: same_undo_def)
next
  case (Cons opn ops)
  let ?k = "base + unat (sem_num opn)"
  define st1 where "st1 = sem_put ?k ((ss_sem st ! ?k)\<lparr>sempid := sc_pid c\<rparr>) st"
  have k: "?k < length (ss_sem st)" using Cons.prems by (simp add: op_pos_def)
  have f: "same_undo st st1" "ss_sema st1 = ss_sema st" "length (ss_sem st1) = length (ss_sem st)" by (simp_all add: st1_def sem_put_def same_undo_def)
  have v: "vals st1 = vals st" unfolding vals_def st1_def sem_put_def using k by (simp add: map_update_same)
  obtain st2 where "sem_mark c base ops st1 = KRet st2" "same_undo st1 st2" "ss_sema st2 = ss_sema st1" "vals st2 = vals st1"
    using Cons.IH [of st1] Cons.prems f(3) by auto
  then show ?case using k f v same_undo_trans [OF f(1)] by (simp add: sem_at_def st1_def)
qed

text \<open>The operations lie in the set, as \<open>semop_verify\<close> establishes.\<close>

definition ops_in_set :: "semid_ds \<Rightarrow> sembuf list \<Rightarrow> bool" where
  "ops_in_set sp ops \<longleftrightarrow> (\<forall>opn \<in> set ops. sem_num opn < sem_nsems sp)"

lemma semop_verify_in_set: "semop_verify c sp ops = None \<Longrightarrow> ops_in_set sp ops"
  by (induction ops) (auto simp: ops_in_set_def not_le split: option.splits if_splits)

definition op_spec :: "semcaller \<Rightarrow> int32_t \<Rightarrow> sembuf list \<Rightarrow> semstate \<Rightarrow> pass_out + (int list \<times> undo list)" where
  "op_spec c sid ops st =
     pass_spec (ss_info st) (room (sc_slot c) st) sid (sem_base (ss_sema st ! semid_index sid)) ops (vals st) (ents_of st (sc_slot c))"

text \<open>
  What the caller gets, and what becomes of the values and the entries: all operations take
  effect, or none does.
\<close>

definition op_meets :: "nat \<Rightarrow> semstate \<Rightarrow> pass_out + (int list \<times> undo list) \<Rightarrow> semop_out \<times> semstate \<Rightarrow> bool" where
  "op_meets slot st spec r \<longleftrightarrow>
     (case (spec, r) of
        (Inl (Pass_error e), out, st') \<Rightarrow> out = Op_return (Some e) \<and> vals st' = vals st \<and> entl st' = entl st
      | (Inl (Pass_wait w k), out, st') \<Rightarrow> out = Op_sleep w k \<and> vals st' = vals st \<and> entl st' = entl st
      | (Inl Pass_done, out, st') \<Rightarrow> False
      | (Inr (vs, ent), out, st') \<Rightarrow> out = Op_return None \<and> vals st' = vs \<and> entl st' = (entl st)[slot := ent])"

lemma op_refused_not_done: "op_refused base opn \<noteq> Pass_done"
  by (simp add: op_refused_def)

lemma pass_spec_not_done: "pass_spec info rm sid base ops vs ent \<noteq> Inl Pass_done"
  by (induction ops arbitrary: vs ent) (auto simp: Let_def op_refused_not_done split: sum.splits)

definition op_frame :: "semstate \<Rightarrow> semstate \<Rightarrow> bool" where
  "op_frame st st' \<longleftrightarrow> ss_info st' = ss_info st \<and> map set_key (ss_sema st') = map set_key (ss_sema st) \<and> length (ss_undo st') = length (ss_undo st)"

lemma frame_op_frame: "frame st st' \<Longrightarrow> op_frame st st'"
  unfolding op_frame_def frame_def by (blast intro: unbinary_key)

lemma semop_check_meets:
  assumes inv: "sem_inv st" and slot: "sc_slot c < length (ss_undo st)" and set: "names_set st sid i" and pos: "0 \<le> sint sid"
    and ops: "ops_in_set (ss_sema st ! i) ops"
  shows "\<exists>r. semop_check c sid ops st = KRet r \<and> op_meets (sc_slot c) st (op_spec c sid ops st) r \<and> sem_inv (snd r) \<and> op_frame st (snd r)"
proof -
  let ?slot = "sc_slot c" and ?sp = "ss_sema st ! i"
  let ?base = "sem_base ?sp"
  note nd = names_setD [OF set]
  have ready: "sem_ready ?slot st" using inv_sets [OF inv] slot by (simp add: sem_ready_def sem_info_ok_def)
  have pos_ok: "\<forall>opn \<in> set ops. op_pos ?base opn < length (ss_sem st)"
  proof
    fix opn assume "opn \<in> set ops"
    then have "unat (sem_num opn) < unat (sem_nsems ?sp)" using ops by (simp add: ops_in_set_def word_less_nat_alt)
    from set_in_array(2) [OF inv set this] show "op_pos ?base opn < length (ss_sem st)" by (simp add: op_pos_def)
  qed
  have un: "undoes ?slot [] sid ?base st st" by (simp add: undoes_def)
  have fr: "frame st st" by (rule frame_refl [OF inv_sets(5) [OF inv]])
  define spec where "spec = op_spec c sid ops st"
  obtain out st1 where p: "sem_pass c sid i (sem_binary ?sp \<and> sem_nsems ?sp = 1) [] ops st = KRet (out, st1)"
    "case spec of Inl o' \<Rightarrow> out = o' \<and> pass_keeps st st1
     | Inr (vs, ent) \<Rightarrow> out = Pass_done \<and> frame st st1 \<and> vals st1 = vs \<and> entl st1 = (entl st)[?slot := ent]"
    using sem_pass_meets [OF ready nd(1) refl pos_ok fr nd(1) un] unfolding pass_meets_def spec_def op_spec_def nd(4) by blast
  have step: "semop_check c sid ops st = (case out of
        Pass_error e \<Rightarrow> KRet (Op_return (Some e), st1)
      | Pass_wait w k \<Rightarrow> KRet (Op_sleep w k, st1)
      | Pass_done \<Rightarrow> kbind (sem_mark c (sem_base (ss_sema st1 ! i)) ops st1) (\<lambda>st.
            KRet (Op_return None, sema_put i ((ss_sema st ! i)\<lparr>sem_otime := sc_time c\<rparr>) st)))"
    unfolding semop_check_def nd(4) Let_def p(1) by (simp split: pass_out.splits)
  show ?thesis
  proof (cases spec)
    case (Inl o')
    then have o: "out = o'" "pass_keeps st st1" using p(2) by simp_all
    have i1: "sem_inv st1" by (rule pass_keeps_inv [OF inv o(2)])
    have f1: "op_frame st st1" using o(2) by (simp add: pass_keeps_def frame_op_frame)
    have "o' \<noteq> Pass_done" using Inl pass_spec_not_done unfolding spec_def op_spec_def by blast
    then show ?thesis using Inl o i1 f1 unfolding step spec_def [symmetric]
      by (cases o') (auto simp: op_meets_def pass_keeps_def)
  next
    case (Inr r)
    then obtain vs ent where r: "spec = Inr (vs, ent)" by (cases r) simp
    then have o: "out = Pass_done" "frame st st1" "vals st1 = vs" "entl st1 = (entl st)[?slot := ent]" using p(2) by simp_all
    note b1 = frame_base [OF o(2) nd(1)]
    have inf: "ss_info st1 = ss_info st" using o(2) by (simp add: frame_def)
    have sp: "pass_spec (ss_info st) (room ?slot st) sid ?base ops (vals st) (ents_of st ?slot) = Inr (vs, ent)"
      using r unfolding spec_def op_spec_def nd(4) .
    have "vals_ok st" using inv by (simp add: sem_inv_def)
    then have v1: "vals_ok st1" using pass_spec_vals [OF sp] pos_ok o(3) inf by (simp add: vals_ok_def length_vals)
    have live: "ent_live (ss_sema st) u" if e: "e \<in> set (entl st)" "u \<in> set e" for e u
      using inv e unfolding sem_inv_def ents_live_def by blast
    have old: "ents_of st ?slot \<in> set (entl st)" using slot by (simp add: entl_def)
    have "ent_live (ss_sema st) u" if u: "u \<in> set ent" for u
    proof -
      consider v where "v \<in> set (ents_of st ?slot)" "un_id v = un_id u" "un_num v = un_num u" | opn where "un_id u = sid" "opn \<in> set ops" "un_num u = sem_num opn"
        using pass_spec_ents [OF sp] u by blast
      then show ?thesis
      proof cases
        case (1 v)
        then show ?thesis using live [OF old 1(1)] by (simp add: ent_live_def)
      next
        case (2 opn)
        then have "un_num u < sem_nsems ?sp" using ops by (simp add: ops_in_set_def)
        then show ?thesis using nd pos unfolding ent_live_def Let_def 2(1) nd(4) by simp
      qed
    qed
    then have l1: "\<forall>e \<in> set (entl st1). \<forall>u \<in> set e. ent_live (ss_sema st) u"
      unfolding o(4) using live set_update_subset_insert [of "entl st" ?slot ent] by blast
    have i1: "sem_inv st1" by (rule frame_inv [OF inv o(2) v1 l1])
    have pos1: "\<forall>opn \<in> set ops. op_pos ?base opn < length (ss_sem st1)" using pos_ok frame_length [OF o(2)] by simp
    obtain st2 where m: "sem_mark c ?base ops st1 = KRet st2" "same_undo st1 st2" "ss_sema st2 = ss_sema st1" "vals st2 = vals st1"
      using sem_mark_ok [OF pos1] by blast
    have ln: "length (ss_sem st2) = length (ss_sem st1)" using m(4) by (metis length_vals)
    have i2: "sem_inv st2"
    proof (rule sem_inv_keep [OF i1])
      show "undo_inv st2" "\<forall>ent \<in> set (entl st2). \<forall>u \<in> set ent. ent_live (ss_sema st1) u"
        using same_undo_inv [OF m(2)] i1 by (simp_all add: sem_inv_def ents_live_def)
      show "vals_ok st2" using i1 m(2,4) by (simp add: sem_inv_def vals_ok_def same_undo_def)
    qed (use m ln in \<open>simp_all add: same_undo_def\<close>)
    define st3 where "st3 = sema_put i ((ss_sema st2 ! i)\<lparr>sem_otime := sc_time c\<rparr>) st2"
    have i3: "sem_inv st3" unfolding st3_def
      by (rule sema_put_inv [OF i2]) (use b1(2) m(3) in \<open>simp_all add: set_key_eq set_alloc_def set_seq_def\<close>)
    have "entl st3 = entl st2" by (rule undo_inv_cong) (simp_all add: st3_def sema_put_def)
    then have e3: "entl st3 = (entl st)[?slot := ent]" using same_undo_inv(2) [OF m(2)] o(4) by simp
    have v3: "vals st3 = vs" using m(4) o(3) by (simp add: st3_def sema_put_def vals_def)
    have "map set_key (ss_sema st3) = map set_key (ss_sema st1)"
      unfolding st3_def sema_put_def using b1(2) m(3) by (simp add: map_update_same set_key_eq set_alloc_def set_seq_def)
    then have f3: "op_frame st st3" using frame_op_frame [OF o(2)] m(2) by (simp add: op_frame_def same_undo_def st3_def sema_put_def)
    have "semop_check c sid ops st = KRet (Op_return None, st3)" unfolding step o(1) b1(1) using m(1) by (simp add: st3_def)
    then show ?thesis using i3 e3 v3 f3 unfolding spec_def [symmetric] r by (simp add: op_meets_def)
  qed
qed

definition op_safe :: "(semop_out \<times> semstate) kres \<Rightarrow> bool" where
  "op_safe r \<longleftrightarrow> (\<exists>out st'. r = KRet (out, st') \<and> sem_inv st')"

lemma op_safe_ret: "sem_inv st \<Longrightarrow> op_safe (KRet (out, st))"
  by (simp add: op_safe_def)

lemma semop_check_safe:
  assumes "sem_inv st" "sc_slot c < length (ss_undo st)" "names_set st sid i" "0 \<le> sint sid" "ops_in_set (ss_sema st ! i) ops"
  shows "op_safe (semop_check c sid ops st)"
proof -
  obtain r where "semop_check c sid ops st = KRet r" "sem_inv (snd r)" using semop_check_meets [OF assms] by blast
  then show ?thesis by (cases r) (simp add: op_safe_def)
qed

lemma semop_safe:
  assumes inv: "sem_inv st" and slot: "sc_slot c < length (ss_undo st)" and pos: "0 \<le> sint sid"
  shows "op_safe (semop c sid usops nsops st)"
proof -
  have "op_safe (kbind (semconv_lock st sid) (\<lambda>sp. case sp of None \<Rightarrow> KRet (Op_return (Some EINVAL), st)
      | Some i \<Rightarrow> (case semop_verify c (ss_sema st ! i) ops of
           Some e \<Rightarrow> KRet (Op_return (Some e), st) | None \<Rightarrow> semop_check c sid ops st)))" for ops
  proof (cases "names_set st sid (semid_index sid)")
    case True
    show ?thesis
    proof (cases "semop_verify c (ss_sema st ! semid_index sid) ops")
      case None
      then show ?thesis using semop_check_safe [OF inv slot True pos semop_verify_in_set] True
        by (simp add: semconv_lock_ok [OF inv])
    qed (use True inv in \<open>simp add: semconv_lock_ok [OF inv] op_safe_ret\<close>)
  qed (use inv in \<open>simp add: semconv_lock_ok [OF inv] op_safe_ret\<close>)
  then show ?thesis using inv by (auto simp: semop_def op_safe_ret Let_def split: option.splits)
qed

lemma semop_woken_safe:
  assumes inv: "sem_inv st" and slot: "sc_slot c < length (ss_undo st)" and pos: "0 \<le> sint sid"
    and ops: "\<forall>i. names_set st sid i \<longrightarrow> ops_in_set (ss_sema st ! i) ops"
  shows "op_safe (semop_woken c sid ops st)"
  using inv ops semop_check_safe [OF inv slot _ pos]
  by (auto simp: semop_woken_def semconv_ok [OF inv] op_safe_ret)

lemma semop_interrupted_safe:
  assumes inv: "sem_inv st" and k: "k < length (ss_sem st)"
  shows "op_safe (semop_interrupted w k st)"
proof -
  let ?s = "ss_sem st ! k"
  have v: "int (unat (semval ?s)) \<le> si_semvmx (ss_info st)" using inv vals_nth [OF k] k
    by (metis length_vals nth_mem sem_inv_def vals_ok_def)
  have put: "sem_inv (sem_put k s st)" "sem_inv (cv_send e (sem_put k s st))" if "semval s = semval ?s" for s e
    by (rule sem_put_inv [OF inv, where k = k and s = s]; use that v in \<open>simp add: same_undo_def sem_put_def cv_send_def\<close>)+
  then show ?thesis using k by (cases w) (auto simp: semop_interrupted_def sem_at_def op_safe_def)
qed

section \<open>Semexit\<close>

text \<open>The adjustments of a process on the values alone; one that would leave the range is dropped.\<close>

fun exit_spec :: "int \<Rightarrow> semid_ds list \<Rightarrow> undo list \<Rightarrow> int list \<Rightarrow> int list" where
  "exit_spec vmx sema [] vs = vs"
| "exit_spec vmx sema (u # us) vs =
     (let k = sem_base (sema ! semid_index (un_id u)) + unat (un_num u); v = vs ! k + sint (un_aoe u) in
      exit_spec vmx sema us (if v < 0 \<or> vmx < v then vs else vs[k := v]))"

lemma semexit_undo_ok:
  "sem_inv st \<Longrightarrow> \<forall>u \<in> set us. ent_live (ss_sema st) u \<Longrightarrow>
   \<exists>st'. semexit_undo us st = KRet st' \<and> sem_inv st' \<and> same_undo st st' \<and> ss_sema st' = ss_sema st \<and>
     vals st' = exit_spec (si_semvmx (ss_info st)) (ss_sema st) us (vals st)"
proof (induction us arbitrary: st)
  case Nil
  then show ?case by (simp add: same_undo_def)
next
  case (Cons u us)
  define i where "i = semid_index (un_id u)"
  have set: "names_set st (un_id u) i" and num: "un_num u < sem_nsems (ss_sema st ! i)"
    using Cons.prems(2) by (simp_all add: ent_live_def names_set_def i_def Let_def)
  let ?k = "sem_base (ss_sema st ! i) + unat (un_num u)"
  have "unat (un_num u) < unat (sem_nsems (ss_sema st ! i))" using num by (simp add: word_less_nat_alt)
  note at = set_in_array [OF Cons.prems(1) set this]
  let ?s = "ss_sem st ! ?k"
  let ?v = "int (unat (semval ?s)) + sint (un_aoe u)"
  have vs: "vals st ! ?k = int (unat (semval ?s))" by (rule vals_nth [OF at(2)])
  have lock: "semconv_lock st (un_id u) = KRet (Some i)" using set semconv_lock_ok [OF Cons.prems(1), of "un_id u"] by (simp add: i_def)
  show ?case
  proof (cases "?v < 0 \<or> si_semvmx (ss_info st) < ?v")
    case True
    then have "semexit_undo (u # us) st = semexit_undo us st" by (auto simp: lock at(1) Let_def)
    moreover have "exit_spec (si_semvmx (ss_info st)) (ss_sema st) (u # us) (vals st) = exit_spec (si_semvmx (ss_info st)) (ss_sema st) us (vals st)"
      using True vs by (simp add: Let_def i_def)
    ultimately show ?thesis using Cons.IH [OF Cons.prems(1)] Cons.prems(2) by simp
  next
    case False
    define s0 where "s0 = ?s\<lparr>semval := of_int ?v\<rparr>"
    obtain sa sta where a: "(if ?v = 0 \<and> semzcnt s0 \<noteq> 0 then (s0\<lparr>semzcnt := 0\<rparr>, cv_send (Cv_broadcast Wait_z ?k) st) else (s0, st)) = (sa, sta)"
      by fastforce
    obtain s stb where b: "(if 0 < sint (un_aoe u) \<and> semncnt sa \<noteq> 0 then (sa\<lparr>semncnt := 0\<rparr>, cv_send (Cv_broadcast Wait_n ?k) sta) else (sa, sta)) = (s, stb)"
      by fastforce
    have fa: "semval sa = semval s0" "same_undo st sta" "ss_sema sta = ss_sema st" "ss_sem sta = ss_sem st"
      using a by (auto simp: same_undo_def cv_send_def split: if_splits)
    have fb: "semval s = semval s0" "same_undo st stb" "ss_sema stb = ss_sema st" "ss_sem stb = ss_sem st"
      using b fa by (auto simp: same_undo_def cv_send_def split: if_splits)
    define st1 where "st1 = sem_put ?k s stb"
    have e1: "semexit_undo (u # us) st = semexit_undo us st1"
      unfolding semexit_undo.simps lock kbind.simps option.case Let_def at(1) if_not_P [OF False] s0_def [symmetric] a prod.case b st1_def ..
    have "semval s0 = of_int ?v" by (simp only: s0_def) simp
    then have e: "semexit_undo (u # us) st = semexit_undo us st1" "same_undo st st1" "ss_sema st1 = ss_sema st"
      "ss_sem st1 = (ss_sem st)[?k := s]" "semval s = of_int ?v"
      using e1 fb by (simp_all add: st1_def sem_put_def same_undo_def)
    have "si_semvmx (ss_info st) \<le> 65535" using inv_sets(2) [OF Cons.prems(1)] by (simp add: sem_info_ok_def info_ok_def)
    then have "unat (of_int ?v :: ushort_t) = nat ?v" using False by (intro unat_of_int_small) simp_all
    then have sv: "int (unat (semval s)) = ?v" using False e(5) by simp
    have i1: "sem_inv st1" by (rule sem_put_inv [OF Cons.prems(1) e(2-4)]) (use sv False in simp)
    have "vals st1 = (vals st)[?k := ?v]" using e(4) sv by (simp add: vals_def map_update)
    then have sp: "exit_spec (si_semvmx (ss_info st)) (ss_sema st) (u # us) (vals st) = exit_spec (si_semvmx (ss_info st)) (ss_sema st) us (vals st1)"
      using False vs by (simp add: Let_def i_def)
    have "\<forall>u \<in> set us. ent_live (ss_sema st1) u" using Cons.prems(2) e(3) by simp
    from Cons.IH [OF i1 this] obtain st' where "semexit_undo us st1 = KRet st'" "sem_inv st'" "same_undo st1 st'" "ss_sema st' = ss_sema st1"
      "vals st' = exit_spec (si_semvmx (ss_info st1)) (ss_sema st1) us (vals st1)" by blast
    then show ?thesis unfolding e(1) sp using same_undo_trans [OF e(2)] e(2,3) by (simp add: same_undo_def)
  qed
qed

lemma owners_release:
  assumes own: "owners_ok free own n" and s: "s < length own" "own ! s = Some up"
  shows "owners_ok (up # free) (own[s := None]) n"
proof -
  have u: "own[s := None] ! t = Some p \<longleftrightarrow> t \<noteq> s \<and> own ! t = Some p" if "t < length own" for t p using that by (cases "t = s") simp_all
  have "p < n \<and> p \<notin> set (up # free)" if t: "t < length own" "own[s := None] ! t = Some p" for t p
  proof -
    have o: "t \<noteq> s" "own ! t = Some p" using t u by simp_all
    then have "p \<noteq> up" using own s t(1) unfolding owners_ok_def by auto
    then show ?thesis using own t(1) o unfolding owners_ok_def by auto
  qed
  moreover have "t = t'" if "t < length own" "t' < length own" "own[s := None] ! t = Some p" "own[s := None] ! t' = Some p" for t t' p
    using that u own unfolding owners_ok_def by auto
  moreover have "p \<in> set (up # free) \<or> Some p \<in> set (own[s := None])" if p: "p < n" for p
  proof (cases "p = up \<or> p \<in> set free")
    case False
    then have "Some p \<in> set own" using own p unfolding owners_ok_def by blast
    then obtain t where t: "t < length own" "own ! t = Some p" by (auto simp: in_set_conv_nth)
    then have "t \<noteq> s" using s(2) False by auto
    then have "own[s := None] ! t = Some p" using t by simp
    then show ?thesis using t(1) by (metis length_list_update nth_mem)
  qed auto
  ultimately show ?thesis unfolding owners_ok_def by (simp only: length_list_update) blast
qed

text \<open>What the exit of a process leaves behind.\<close>

lemma semexit_ok:
  assumes inv: "sem_inv st" and slot: "slot < length (ss_undo st)"
  shows "\<exists>st'. semexit slot st = KRet st' \<and> sem_inv st' \<and>
    vals st' = exit_spec (si_semvmx (ss_info st)) (ss_sema st) (rev (ents_of st slot)) (vals st) \<and>
    entl st' = (entl st)[slot := []] \<and> ss_undo st' = (ss_undo st)[slot := None]"
proof (cases "ss_undo st ! slot")
  case None
  have "(entl st)[slot := ents_of st slot] = entl st" using slot by (metis entl_nth list_update_id)
  moreover have "(ss_undo st)[slot := None] = ss_undo st" using None by (metis list_update_id)
  moreover have "ents_of st slot = []" using None by (simp add: ents_of_def)
  ultimately show ?thesis using None slot inv by (simp add: semexit_def)
next
  case (Some up)
  note u = inv_sets(5) [OF inv]
  have up: "up < length (ss_semu st)" using u slot Some by (simp add: undo_inv_def owners_ok_def)
  define ent where "ent = ss_semu st ! up"
  have ent: "ents_of st slot = ent" using Some by (simp add: ents_of_def ent_def)
  have "\<forall>v \<in> set (rev ent). ent_live (ss_sema st) v"
    using inv slot ent unfolding sem_inv_def ents_live_def by (auto simp: entl_def)
  from semexit_undo_ok [OF inv this] obtain st1 where s1: "semexit_undo (rev ent) st = KRet st1" "sem_inv st1" "same_undo st st1"
    "ss_sema st1 = ss_sema st" "vals st1 = exit_spec (si_semvmx (ss_info st)) (ss_sema st) (rev ent) (vals st)" by blast
  have c1: "ss_semu st1 = ss_semu st" "ss_semfup st1 = ss_semfup st" "ss_semunp st1 = ss_semunp st" "ss_undo st1 = ss_undo st" "ss_info st1 = ss_info st"
    "ss_semmap st1 = ss_semmap st"
    using s1(3) by (simp_all add: same_undo_def)
  define st2 where "st2 = st1\<lparr>ss_semu := (ss_semu st1)[up := []], ss_semunp := remove1 up (ss_semunp st1),
    ss_semfup := up # ss_semfup st1, ss_undo := (ss_undo st1)[slot := None]\<rparr>"
  have run: "semexit slot st = KRet st2"
  proof (cases "ent = []")
    case True
    then have "st1 = st" using s1(1) by simp
    moreover have "(ss_semu st)[up := []] = ss_semu st" using True by (metis ent_def list_update_id)
    moreover have "up \<notin> set (ss_semunp st)" using u True by (simp add: undo_inv_def ent_def)
    ultimately show ?thesis using Some slot up True by (simp add: semexit_def ent_def [symmetric] st2_def remove1_idem)
  next
    case False
    then show ?thesis using Some slot up s1(1) by (simp add: semexit_def ent_def [symmetric] st2_def)
  qed
  have f: "ss_semu st2 = (ss_semu st)[up := []]" "ss_semunp st2 = remove1 up (ss_semunp st)" "ss_semfup st2 = up # ss_semfup st"
    "ss_undo st2 = (ss_undo st)[slot := None]" "ss_info st2 = ss_info st" "ss_semmap st2 = ss_semmap st" "ss_sem st2 = ss_sem st1"
    "ss_sema st2 = ss_sema st1" by (simp_all add: st2_def c1)
  have n: "(ss_semu st)[up := []] ! p = (if p = up then [] else ss_semu st ! p)" for p using up by simp
  have uf: "up \<notin> set (ss_semfup st)" using u slot Some unfolding undo_inv_def owners_ok_def by blast
  have "distinct (remove1 up (ss_semunp st)) \<and> set (remove1 up (ss_semunp st)) = {p. p < length (ss_semu st) \<and> (ss_semu st)[up := []] ! p \<noteq> []}"
    using u unfolding undo_inv_def n by (auto simp: set_remove1_eq)
  moreover have "\<forall>p < length (ss_semu st). ents_ok (ss_info st) ((ss_semu st)[up := []] ! p)"
    using u inv_sets(2) [OF inv] unfolding n by (simp add: undo_inv_def info_ok_nil sem_info_ok_def)
  moreover have "\<forall>p \<in> set (up # ss_semfup st). p < length (ss_semu st) \<and> (ss_semu st)[up := []] ! p = []"
    using u up unfolding n by (simp add: undo_inv_def)
  moreover have "owners_ok (up # ss_semfup st) ((ss_undo st)[slot := None]) (length (ss_semu st))"
    by (rule owners_release [OF _ slot Some]) (use u in \<open>simp add: undo_inv_def\<close>)
  moreover have "distinct (up # ss_semfup st)" using u uf by (simp add: undo_inv_def)
  ultimately have u2: "undo_inv st2" unfolding undo_inv_def f by simp
  have el: "entl st2 = (entl st)[slot := []]"
  proof (rule entl_one)
    show "length (ss_undo st2) = length (ss_undo st)" by (simp add: f)
    show "\<forall>s < length (ss_undo st). ents_of st2 s = (if s = slot then [] else ents_of st s)"
    proof (intro allI impI)
      fix s assume s: "s < length (ss_undo st)"
      show "ents_of st2 s = (if s = slot then [] else ents_of st s)"
      proof (cases "s = slot")
        case True
        then show ?thesis using slot by (simp add: ents_of_def f)
      next
        case False
        have "ss_undo st ! s \<noteq> Some up" using u s slot Some False unfolding undo_inv_def owners_ok_def by blast
        then show ?thesis using False unfolding ents_of_def f n by (simp split: option.splits)
      qed
    qed
  qed
  have live: "\<forall>e \<in> set (entl st2). \<forall>v \<in> set e. ent_live (ss_sema st) v"
  proof (intro ballI)
    fix e v assume e: "e \<in> set (entl st2)" "v \<in> set e"
    then have "e \<in> set (entl st)" using set_update_subset_insert [of "entl st" slot "[]"] unfolding el by auto
    then show "ent_live (ss_sema st) v" using inv e(2) unfolding sem_inv_def ents_live_def by blast
  qed
  have "vals_ok st2" using s1(2) c1(5) by (simp add: sem_inv_def vals_ok_def vals_def f)
  moreover have "length (ss_sem st1) = length (ss_sem st)"
    using s1(2) inv c1(5) unfolding sem_inv_def sem_sets_def by simp
  ultimately have "sem_inv st2" using s1(4) live
    by (intro sem_inv_keep [OF inv u2]) (simp_all add: f)
  moreover have "vals st2 = exit_spec (si_semvmx (ss_info st)) (ss_sema st) (rev ent) (vals st)" using s1(5) by (simp add: vals_def f)
  ultimately show ?thesis using run el f(4) ent by blast
qed

section \<open>The initial state\<close>

text \<open>Values of the tunable variables that the module can be loaded with.\<close>

definition sem_tune_ok :: "seminfo \<Rightarrow> bool" where
  "sem_tune_ok tune \<longleftrightarrow> sem_info_ok (tune\<lparr>si_semmni := min (si_semmni tune) SEMA_INDEX_MAX\<rparr>) \<and> 0 < si_semmns tune \<and>
     2 \<le> si_semmap tune \<and> si_semmap tune < 2147483648 \<and> 0 < si_semmnu tune"

lemma entl_empty: "\<forall>e \<in> set (ss_semu st). e = [] \<Longrightarrow> \<forall>s < length (ss_undo st). ss_undo st ! s = None \<Longrightarrow> \<forall>e \<in> set (entl st). e = []"
  by (auto simp: entl_def ents_of_def)

lemma sem_init_ok:
  assumes tune: "sem_tune_ok tune"
  shows "\<exists>st. sem_init tune False True None nproc = KRet (None, Some st) \<and> sem_inv st \<and> length (ss_undo st) = nproc"
proof -
  define info where "info = (if SEMA_INDEX_MAX < si_semmni tune then tune\<lparr>si_semmni := SEMA_INDEX_MAX\<rparr> else tune)"
  have f: "si_semmns info = si_semmns tune" "si_semmap info = si_semmap tune" "si_semmnu info = si_semmnu tune" by (simp_all add: info_def)
  have "info = tune\<lparr>si_semmni := min (si_semmni tune) SEMA_INDEX_MAX\<rparr>" by (simp add: info_def min_def)
  then have ok: "sem_info_ok info" using tune by (simp add: sem_tune_ok_def)
  have t: "0 < si_semmns info" "2 \<le> si_semmap info" "si_semmap info < 2147483648" "0 < si_semmnu info" "si_semmns info < 2147483648"
    using tune ok f by (simp_all add: sem_tune_ok_def sem_info_ok_def)
  define n where "n = (of_int (si_semmap info) :: size_t)"
  have n: "unat n = nat (si_semmap info)" unfolding n_def by (rule unat_of_int_small) (use t in simp_all)
  have "0 < unat n" "unat n < 2 ^ 31" using n t by simp_all
  then obtain mp where mp: "mapinit (replicate (map_slots (n + of_nat MAP_OVERHEAD)) \<lparr>m_size = 0, m_addr = 0\<rparr>) 0 0 0 ''rmallocmap'' (n + of_nat MAP_OVERHEAD) = KRet mp"
    "map_wf mp" "map_segs mp = []" "unat (m_nslots mp) = unat n"
    using mapinit_new by blast
  have al: "rmallocmap True n = KRet (Some mp)" using mp(1) by (simp add: rmallocmap_def)
  have mi: "map_inv mp" using mp(2,4) n t by (simp add: map_inv_def)
  have mu: "map_units mp = {}" using mp(3) by (simp add: map_units_def seg_units_def)
  define k where "k = (of_int (si_semmns info) :: size_t)"
  have k: "unat k = nat (si_semmns info)" unfolding k_def by (rule unat_of_int_small) (use t in simp_all)
  have sk: "sint k = si_semmns info" unfolding k_def by (rule sint_of_int_small) (use t in simp_all)
  obtain mp' where fr: "rmfree mp k 1 = KRet mp'" "map_inv mp'" "map_units mp' \<subseteq> map_units mp \<union> seg_range 1 k"
  proof -
    have "unat (1 :: ulong_t) + unat k < 2 ^ 64" using k t by (simp add: nat_less_iff)
    then show thesis using rmap.release_ok [OF mi, of k 1] mu sk t(1) that by auto
  qed
  obtain st where st: "sem_init tune False True None nproc = KRet (None, Some st)" "ss_info st = info" "ss_semmap st = mp'"
    "ss_sema st = replicate (nat (si_semmni info)) \<lparr>sem_perm = \<lparr>ipc_uid = 0, ipc_gid = 0, ipc_cuid = 0, ipc_cgid = 0, ipc_mode = 0, ipc_seq = 0, ipc_key = 0\<rparr>,
        sem_base = 0, sem_nsems = 0, sem_otime = 0, sem_ctime = 0, sem_binary = False\<rparr>"
    "ss_sem st = replicate (nat (si_semmns info)) \<lparr>semval = 0, sempid = 0, semncnt = 0, semzcnt = 0\<rparr>"
    "ss_semu st = replicate (nat (si_semmnu info)) []" "ss_semfup st = [0 ..< nat (si_semmnu info)]" "ss_semunp st = []" "ss_undo st = replicate nproc None"
    using al fr(1) t(4) unfolding sem_init_def info_def [symmetric] n_def k_def Let_def by simp
  have free: "\<not> set_alloc sp" "set_seq sp = 0" if "sp \<in> set (ss_sema st)" for sp
    using that unfolding st(4) by (auto simp: set_alloc_def set_seq_def ipc_allocated_def)
  have lr: "live_ranges (ss_sema st) = []" using free(1) by (simp add: live_ranges_def)
  have ku: "ipc.keys_unique (map sem_perm (ss_sema st))" using free(1) unfolding ipc.keys_unique_def by (auto simp: set_alloc_def)
  have un: "map_units mp' \<subseteq> {1..length (ss_sem st)}" using fr(3) mu k unfolding st(5) by (auto simp: seg_range_def)
  have so: "\<forall>sp \<in> set (ss_sema st). set_ok (length (ss_sem st)) sp" using free by (simp add: set_ok_def)
  have "length (ss_sema st) = nat (si_semmni (ss_info st))" "length (ss_sem st) = nat (si_semmns (ss_info st))" using st by simp_all
  then have sets: "sem_sets st" unfolding sem_sets_def st(2,3) lr using ok fr(2) un ku so by (simp add: ranges_live_def)
  have ent: "\<forall>e \<in> set (entl st). e = []" by (rule entl_empty) (simp_all add: st)
  have "0 \<le> si_semvmx info" "0 \<le> si_semume info" using ok by (simp_all add: sem_info_ok_def info_ok_def)
  then have "vals_ok st" unfolding vals_ok_def vals_def st(2,5) by simp
  moreover have "ents_live st" using ent by (auto simp: ents_live_def)
  moreover have "undo_inv st" unfolding undo_inv_def st using \<open>0 \<le> si_semume info\<close> by (simp add: info_ok_nil owners_ok_def)
  ultimately show ?thesis using st(1,9) sets by (simp add: sem_inv_def)
qed

section \<open>Runs\<close>

text \<open>
  One call, or one event in the life of a caller: the return from a sleep, and the exit of a
  process.  Signals to a sleeper may come at any moment.
\<close>

datatype sem_call =
    Semget semcaller key_t int32_t int32_t
  | Semctl bool semcaller int32_t uint_t int ulong_t sem_umem
  | Semop semcaller int32_t "sembuf list option" size_t
  | Semop_woken semcaller int32_t "sembuf list"
  | Semop_interrupted sem_wait nat
  | Semexit nat

fun do_sem :: "sem_call \<Rightarrow> semstate \<Rightarrow> semstate kres" where
  "do_sem (Semget c key nsems flg) st = kbind (semget c key nsems flg st) (\<lambda>(_, st). KRet st)"
| "do_sem (Semctl ilp32 c sid num cmd arg um) st = kbind (semctl ilp32 c sid num cmd arg um st) (\<lambda>(_, _, st). KRet st)"
| "do_sem (Semop c sid usops nsops) st = kbind (semop c sid usops nsops st) (\<lambda>(_, st). KRet st)"
| "do_sem (Semop_woken c sid ops) st = kbind (semop_woken c sid ops st) (\<lambda>(_, st). KRet st)"
| "do_sem (Semop_interrupted w k) st = kbind (semop_interrupted w k st) (\<lambda>(_, st). KRet st)"
| "do_sem (Semexit slot) st = semexit slot st"

text \<open>
  The calls considered: from processes with a slot in the table, with identifiers in the range
  that \<open>semget\<close> returns, and with operations that were verified before a sleep.
\<close>

fun sem_allowed :: "semstate \<Rightarrow> sem_call \<Rightarrow> bool" where
  "sem_allowed st (Semget c key nsems flg) = True"
| "sem_allowed st (Semctl ilp32 c sid num cmd arg um) = (0 \<le> sint sid)"
| "sem_allowed st (Semop c sid usops nsops) = (0 \<le> sint sid \<and> sc_slot c < length (ss_undo st))"
| "sem_allowed st (Semop_woken c sid ops) =
     (0 \<le> sint sid \<and> sc_slot c < length (ss_undo st) \<and>
      (names_set st sid (semid_index sid) \<longrightarrow> ops_in_set (ss_sema st ! semid_index sid) ops))"
| "sem_allowed st (Semop_interrupted w k) = (k < length (ss_sem st))"
| "sem_allowed st (Semexit slot) = (slot < length (ss_undo st))"

inductive sem_reach :: "semstate \<Rightarrow> semstate \<Rightarrow> bool" where
  sem_reach_refl: "sem_reach st st"
| sem_reach_step: "sem_reach st st' \<Longrightarrow> sem_allowed st' call \<Longrightarrow> do_sem call st' = KRet st'' \<Longrightarrow> sem_reach st st''"

lemma semctl_safe:
  assumes inv: "sem_inv st" and pos: "0 \<le> sint sid"
  shows "sem_safe (semctl ilp32 c sid num cmd arg um st)"
proof (cases "names_set st sid (semid_index sid)")
  case True
  note set = inv True
  have "sem_safe (semctl_rmid c sid (semid_index sid) st)"
    using semctl_rmid_safe [OF inv True, of c] pos by (auto simp: sem_safe_def)
  then show ?thesis
    using inv semctl_set_safe [OF set] semctl_o_set_safe [OF set] semctl_stat_safe [OF inv] semctl_get_safe [OF set]
      semctl_getall_safe [OF set] semctl_setval_safe [OF set] semctl_setall_safe [OF set]
    unfolding semctl_def semconv_lock_ok [OF inv] kbind.simps if_P [OF True] option.case
      semctl_getncnt_def semctl_getpid_def semctl_getval_def semctl_getzcnt_def
    by (simp add: sem_safe_simps)
next
  case False
  then show ?thesis using inv by (simp add: semctl_def semconv_lock_ok [OF inv] sem_safe_simps)
qed

lemma do_sem_inv:
  assumes inv: "sem_inv st" and ok: "sem_allowed st call"
  shows "\<exists>st'. do_sem call st = KRet st' \<and> sem_inv st'"
proof (cases call)
  case (Semget c key nsems flg)
  then show ?thesis using semget_safe [OF inv, of c key nsems flg] by (auto simp: get_safe_def)
next
  case (Semctl ilp32 c sid num cmd arg um)
  then show ?thesis using semctl_safe [OF inv, of sid ilp32 c num cmd arg um] ok by (auto simp: sem_safe_def)
next
  case (Semop c sid usops nsops)
  then show ?thesis using semop_safe [OF inv, of c sid usops nsops] ok by (auto simp: op_safe_def)
next
  case (Semop_woken c sid ops)
  then have "\<forall>i. names_set st sid i \<longrightarrow> ops_in_set (ss_sema st ! i) ops" using ok by (auto dest: names_setD(4))
  then show ?thesis using semop_woken_safe [OF inv, of c sid ops] ok Semop_woken by (auto simp: op_safe_def)
next
  case (Semop_interrupted w k)
  then show ?thesis using semop_interrupted_safe [OF inv, of k w] ok by (auto simp: op_safe_def)
next
  case (Semexit slot)
  then show ?thesis using semexit_ok [OF inv, of slot] ok by auto
qed

lemma sem_reach_inv: "sem_reach st st' \<Longrightarrow> sem_inv st \<Longrightarrow> sem_inv st'"
  by (induction rule: sem_reach.induct) (use do_sem_inv in fastforce)+

text \<open>Two sets in use share no semaphore.\<close>

lemma sets_apart:
  assumes inv: "sem_inv st" and i: "i < j" "j < length (ss_sema st)" "set_alloc (ss_sema st ! i)" "set_alloc (ss_sema st ! j)"
  shows "{sem_base (ss_sema st ! i) ..< sem_base (ss_sema st ! i) + unat (sem_nsems (ss_sema st ! i))} \<inter>
    {sem_base (ss_sema st ! j) ..< sem_base (ss_sema st ! j) + unat (sem_nsems (ss_sema st ! j))} = {}"
proof -
  let ?a = "ss_sema st ! i" and ?b = "ss_sema st ! j"
  have range: "seg_range (fst (set_range sp)) (snd (set_range sp)) = {Suc (sem_base sp) ..< Suc (sem_base sp + unat (sem_nsems sp))}"
    if "k < length (ss_sema st)" "sp = ss_sema st ! k" "set_alloc sp" for sp k
  proof -
    have "names_set st (make_semid (set_seq sp) k) (semid_index (make_semid (set_seq sp) k))"
      using made_names_set(1) [OF inv that(1)] that by simp
    moreover have "semid_index (make_semid (set_seq sp) k) = k"
      using make_semid_parts(1) inv_set_ok [OF inv that(1)] inv_sets(2,4) [OF inv] that by (simp add: set_ok_def sem_info_ok_def SEMA_INDEX_MAX_def)
    ultimately show ?thesis using set_range_facts(2,3) [OF inv] that(2) by (simp add: seg_range_def)
  qed
  have "sorted_wrt (\<lambda>(a, n) (b, k). seg_range a n \<inter> seg_range b k = {}) (map set_range (filter set_alloc (ss_sema st)))"
    using inv_map(3) [OF inv] by (simp add: ranges_live_def live_ranges_def)
  moreover have "ss_sema st = take j (ss_sema st) @ ?b # drop (Suc j) (ss_sema st)" by (rule id_take_nth_drop [OF i(2)])
  ultimately have s: "sorted_wrt (\<lambda>(a, n) (b, k). seg_range a n \<inter> seg_range b k = {})
      (map set_range (filter set_alloc (take j (ss_sema st))) @ set_range ?b # map set_range (filter set_alloc (drop (Suc j) (ss_sema st))))"
    using i(4) by (metis (no_types, lifting) filter.simps(2) filter_append list.simps(9) map_append)
  have "?a = take j (ss_sema st) ! i" "i < length (take j (ss_sema st))" using i by simp_all
  then have "?a \<in> set (take j (ss_sema st))" by (metis nth_mem)
  then have "set_range ?a \<in> set (map set_range (filter set_alloc (take j (ss_sema st))))" using i(3) by auto
  then have "(\<lambda>(a, n) (b, k). seg_range a n \<inter> seg_range b k = {}) (set_range ?a) (set_range ?b)"
    using s unfolding sorted_wrt_append by (meson list.set_intros(1))
  then have "seg_range (fst (set_range ?a)) (snd (set_range ?a)) \<inter> seg_range (fst (set_range ?b)) (snd (set_range ?b)) = {}"
    by (simp add: case_prod_beta)
  then have "{Suc (sem_base ?a) ..< Suc (sem_base ?a + unat (sem_nsems ?a))} \<inter> {Suc (sem_base ?b) ..< Suc (sem_base ?b + unat (sem_nsems ?b))} = {}"
    using range [of i ?a] range [of j ?b] i by simp
  then show ?thesis by auto
qed

section \<open>An exit takes back what the entries record\<close>

lemma op_pos_inj: "op_pos base opn = base + unat n \<longleftrightarrow> n = sem_num opn"
  by (auto simp: op_pos_def word_unat_eq_iff)

text \<open>With \<^verbatim>\<open>SEM_UNDO\<close> on every operation, a value and its adjustment keep their sum.\<close>

definition balanced :: "int32_t \<Rightarrow> nat \<Rightarrow> sembuf list \<Rightarrow> int list \<Rightarrow> undo list \<Rightarrow> int list \<Rightarrow> undo list \<Rightarrow> bool" where
  "balanced sid base ops vs ent vs' ent' \<longleftrightarrow> length vs' = length vs \<and>
     (\<forall>n. base + unat n < length vs \<longrightarrow> vs' ! (base + unat n) + aoe_of ent' sid n = vs ! (base + unat n) + aoe_of ent sid n) \<and>
     (\<forall>k < length vs. (\<forall>opn \<in> set ops. op_pos base opn \<noteq> k) \<longrightarrow> vs' ! k = vs ! k)"

lemma pass_spec_balanced:
  "pass_spec info rm sid base ops vs ent = Inr (vs', ent') \<Longrightarrow> ents_ok info ent \<Longrightarrow> info_ok info \<Longrightarrow>
   \<forall>opn \<in> set ops. sem_op opn \<noteq> 0 \<longrightarrow> sem_flg opn AND SEM_UNDO \<noteq> 0 \<Longrightarrow> \<forall>opn \<in> set ops. op_pos base opn < length vs \<Longrightarrow>
   balanced sid base ops vs ent vs' ent' \<and> ents_ok info ent'"
proof (induction ops arbitrary: vs ent)
  case Nil
  then show ?case by (simp add: balanced_def)
next
  case (Cons opn ops)
  let ?k = "op_pos base opn"
  have fit: "op_fits (si_semvmx info) opn (vs ! ?k)" using Cons.prems(1) by (auto simp: Let_def split: if_splits)
  show ?case
  proof (cases "sem_op opn = 0")
    case True
    then have "pass_spec info rm sid base ops vs ent = Inr (vs', ent')" using Cons.prems(1) fit by (simp add: Let_def)
    from Cons.IH [OF this Cons.prems(2,3)] show ?thesis using Cons.prems(4,5) by (auto simp: balanced_def)
  next
    case False
    let ?vs = "vs[?k := vs ! ?k + sint (sem_op opn)]"
    obtain e where e: "undo_spec info rm sid opn ent = Inr e" "pass_spec info rm sid base ops ?vs e = Inr (vs', ent')"
      using Cons.prems(1) fit False by (auto simp: Let_def split: sum.splits)
    have "sem_flg opn AND SEM_UNDO \<noteq> 0" using Cons.prems(4) False by simp
    then have u: "undo_range info (sem_op opn)" "ent_update info (sem_op opn) sid (sem_num opn) ent = Inr e"
      using e(1) by (auto simp: undo_spec_def split: if_splits)
    note ch = ent_update_change [OF Cons.prems(2) u(2)]
    have eo: "ents_ok info e" by (rule ent_change_ok [OF ch Cons.prems(2,3) False u(1)])
    have ao: "aoe_of e sid n = (if n = sem_num opn then aoe_of ent sid n - sint (sem_op opn) else aoe_of ent sid n)" for n
      using ent_change_aoe [OF ch Cons.prems(2,3) u(1), of sid n] by simp
    have b: "balanced sid base ops ?vs e vs' ent' \<and> ents_ok info ent'"
      by (rule Cons.IH [OF e(2) eo Cons.prems(3)]) (use Cons.prems(4,5) in simp_all)
    have "vs' ! (base + unat n) + aoe_of ent' sid n = vs ! (base + unat n) + aoe_of ent sid n" if n: "base + unat n < length vs" for n
    proof -
      have "vs' ! (base + unat n) + aoe_of ent' sid n = ?vs ! (base + unat n) + aoe_of e sid n"
        using b n unfolding balanced_def by (simp only: length_list_update)
      also have "\<dots> = vs ! (base + unat n) + aoe_of ent sid n"
      proof (cases "n = sem_num opn")
        case True
        then have "?k = base + unat n" by (simp add: op_pos_def)
        then show ?thesis using ao [of n] True n by simp
      next
        case False
        then have "?k \<noteq> base + unat n" by (simp add: op_pos_inj)
        then show ?thesis using ao [of n] False by simp
      qed
      finally show ?thesis .
    qed
    moreover have "vs' ! k = vs ! k" if "k < length vs" "\<forall>o' \<in> set (opn # ops). op_pos base o' \<noteq> k" for k
      using that b by (simp add: balanced_def)
    ultimately show ?thesis using b by (simp add: balanced_def)
  qed
qed

lemma aoe_of_mem:
  assumes "ents_sorted ent" "u \<in> set ent"
  shows "aoe_of ent (un_id u) (un_num u) = sint (un_aoe u)"
  using assms
proof (induction ent)
  case (Cons v ent)
  show ?case
  proof (cases "u = v")
    case True
    then show ?thesis by (simp add: un_match_def)
  next
    case False
    then have "u \<in> set ent" "un_less v u" using Cons.prems by (auto simp: ents_sorted_Cons)
    then have "\<not> un_match v (un_id u) (un_num u)" by (auto simp: un_less_def un_before_def un_match_def)
    then show ?thesis using Cons \<open>u \<in> set ent\<close> by (simp add: ents_sorted_Cons)
  qed
qed simp

lemma ents_sorted_distinct:
  assumes "ents_sorted ent" "\<forall>u \<in> set ent. un_id u = sid"
  shows "distinct (map un_num ent)"
  using assms
proof (induction ent)
  case (Cons v ent)
  have "un_num v \<noteq> un_num u" if "u \<in> set ent" for u
    using Cons.prems that by (fastforce simp: ents_sorted_Cons un_less_def un_before_def)
  then show ?case using Cons by (auto simp: ents_sorted_Cons)
qed simp

lemma exit_spec_effect:
  assumes "distinct (map un_num us)" "\<forall>u \<in> set us. un_id u = sid" "base = sem_base (sema ! semid_index sid)"
    "\<forall>u \<in> set us. base + unat (un_num u) < length vs \<and> 0 \<le> vs ! (base + unat (un_num u)) + sint (un_aoe u) \<and>
       vs ! (base + unat (un_num u)) + sint (un_aoe u) \<le> vmx"
  shows "length (exit_spec vmx sema us vs) = length vs \<and>
    (\<forall>u \<in> set us. exit_spec vmx sema us vs ! (base + unat (un_num u)) = vs ! (base + unat (un_num u)) + sint (un_aoe u)) \<and>
    (\<forall>k. (\<forall>u \<in> set us. base + unat (un_num u) \<noteq> k) \<longrightarrow> exit_spec vmx sema us vs ! k = vs ! k)"
  using assms
proof (induction us arbitrary: vs)
  case (Cons u us)
  let ?p = "\<lambda>v. base + unat (un_num v)"
  let ?vs = "vs[?p u := vs ! ?p u + sint (un_aoe u)]"
  have ap: "?p v \<noteq> ?p u" if "v \<in> set us" for v
  proof
    assume "?p v = ?p u"
    then have "un_num v = un_num u" by (simp add: unsigned_word_eqI)
    then show False using Cons.prems(1) that by (metis (no_types, lifting) distinct.simps(2) image_eqI list.set_map list.simps(9))
  qed
  have step: "exit_spec vmx sema (u # us) vs = exit_spec vmx sema us ?vs"
    using Cons.prems(2-4) by (auto simp: Let_def)
  have IH: "length (exit_spec vmx sema us ?vs) = length ?vs \<and>
    (\<forall>v \<in> set us. exit_spec vmx sema us ?vs ! ?p v = ?vs ! ?p v + sint (un_aoe v)) \<and>
    (\<forall>k. (\<forall>v \<in> set us. ?p v \<noteq> k) \<longrightarrow> exit_spec vmx sema us ?vs ! k = ?vs ! k)"
  proof (rule Cons.IH)
    show "\<forall>v \<in> set us. ?p v < length ?vs \<and> 0 \<le> ?vs ! ?p v + sint (un_aoe v) \<and> ?vs ! ?p v + sint (un_aoe v) \<le> vmx"
    proof
      fix v assume v: "v \<in> set us"
      then have "?vs ! ?p v = vs ! ?p v" using ap [OF v] by (metis nth_list_update_neq)
      then show "?p v < length ?vs \<and> 0 \<le> ?vs ! ?p v + sint (un_aoe v) \<and> ?vs ! ?p v + sint (un_aoe v) \<le> vmx" using Cons.prems(4) v by simp
    qed
  qed (use Cons.prems in simp_all)
  have pu: "?p u < length vs" using Cons.prems(4) by simp
  have "exit_spec vmx sema us ?vs ! ?p u = ?vs ! ?p u" using IH ap by metis
  then have a: "exit_spec vmx sema us ?vs ! ?p u = vs ! ?p u + sint (un_aoe u)" using pu by simp
  have b: "exit_spec vmx sema us ?vs ! ?p v = vs ! ?p v + sint (un_aoe v)" if v: "v \<in> set us" for v
    using IH v ap [OF v] by (metis nth_list_update_neq)
  have c: "exit_spec vmx sema us ?vs ! k = vs ! k" if "\<forall>v \<in> set (u # us). ?p v \<noteq> k" for k
    using IH that by (metis list.set_intros nth_list_update_neq)
  show ?case unfolding step using IH a b c by simp
qed simp

lemma exit_restores:
  assumes sp: "pass_spec info rm sid base ops vs [] = Inr (vs', ent)" and ok: "ents_ok info []" "info_ok info"
    and ops: "\<forall>opn \<in> set ops. sem_op opn \<noteq> 0 \<longrightarrow> sem_flg opn AND SEM_UNDO \<noteq> 0" "\<forall>opn \<in> set ops. op_pos base opn < length vs"
    and vs: "\<forall>v \<in> set vs. 0 \<le> v \<and> v \<le> si_semvmx info" and base: "base = sem_base (sema ! semid_index sid)"
  shows "exit_spec (si_semvmx info) sema (rev ent) vs' = vs"
proof -
  note b = pass_spec_balanced [OF sp ok ops]
  have len: "length vs' = length vs" using b by (simp add: balanced_def)
  have bal: "vs' ! (base + unat n) + aoe_of ent sid n = vs ! (base + unat n)" if "base + unat n < length vs" for n
    using b that by (simp add: balanced_def)
  have so: "ents_sorted ent" using b by (simp add: ents_ok_def)
  have ids: "\<forall>u \<in> set ent. un_id u = sid \<and> (\<exists>opn \<in> set ops. un_num u = sem_num opn)" using pass_spec_ents [OF sp] by simp
  have pos: "base + unat (un_num u) < length vs" if "u \<in> set ent" for u using ids ops(2) that by (auto simp: op_pos_def)
  have aoe: "aoe_of ent sid (un_num u) = sint (un_aoe u)" if "u \<in> set ent" for u using aoe_of_mem [OF so that] ids that by simp
  have eff: "length (exit_spec (si_semvmx info) sema (rev ent) vs') = length vs' \<and>
    (\<forall>u \<in> set (rev ent). exit_spec (si_semvmx info) sema (rev ent) vs' ! (base + unat (un_num u)) = vs' ! (base + unat (un_num u)) + sint (un_aoe u)) \<and>
    (\<forall>k. (\<forall>u \<in> set (rev ent). base + unat (un_num u) \<noteq> k) \<longrightarrow> exit_spec (si_semvmx info) sema (rev ent) vs' ! k = vs' ! k)"
  proof (rule exit_spec_effect)
    show "distinct (map un_num (rev ent))" using ents_sorted_distinct [OF so, of sid] ids by (simp add: rev_map [symmetric])
    show "\<forall>u \<in> set (rev ent). un_id u = sid" using ids by simp
    show "\<forall>u \<in> set (rev ent). base + unat (un_num u) < length vs' \<and> 0 \<le> vs' ! (base + unat (un_num u)) + sint (un_aoe u) \<and>
      vs' ! (base + unat (un_num u)) + sint (un_aoe u) \<le> si_semvmx info"
    proof
      fix u assume "u \<in> set (rev ent)"
      then have u: "u \<in> set ent" by simp
      have "vs' ! (base + unat (un_num u)) + sint (un_aoe u) = vs ! (base + unat (un_num u))" using bal [OF pos [OF u]] aoe [OF u] by simp
      then show "base + unat (un_num u) < length vs' \<and> 0 \<le> vs' ! (base + unat (un_num u)) + sint (un_aoe u) \<and>
        vs' ! (base + unat (un_num u)) + sint (un_aoe u) \<le> si_semvmx info" using vs pos [OF u] len by simp
    qed
  qed (rule base)
  show ?thesis
  proof (rule nth_equalityI)
    show "length (exit_spec (si_semvmx info) sema (rev ent) vs') = length vs" using eff len by simp
    fix k assume "k < length (exit_spec (si_semvmx info) sema (rev ent) vs')"
    then have k: "k < length vs" using eff len by simp
    show "exit_spec (si_semvmx info) sema (rev ent) vs' ! k = vs ! k"
    proof (cases "\<exists>u \<in> set ent. base + unat (un_num u) = k")
      case True
      then obtain u where u: "u \<in> set ent" "base + unat (un_num u) = k" by blast
      then have "exit_spec (si_semvmx info) sema (rev ent) vs' ! k = vs' ! k + sint (un_aoe u)" using eff by auto
      then show ?thesis using bal [OF pos [OF u(1)]] aoe [OF u(1)] u(2) by simp
    next
      case False
      then have e: "exit_spec (si_semvmx info) sema (rev ent) vs' ! k = vs' ! k" using eff by simp
      show ?thesis
      proof (cases "\<exists>opn \<in> set ops. op_pos base opn = k")
        case True
        then obtain opn :: sembuf where o: "base + unat (sem_num opn) = k" unfolding op_pos_def by blast
        have "\<forall>u \<in> set ent. \<not> un_match u sid (sem_num opn)" using False o by (auto simp: un_match_def)
        then have "aoe_of ent sid (sem_num opn) = 0" by (rule aoe_of_absent)
        then show ?thesis using bal [of "sem_num opn"] o k e by simp
      next
        case False
        then show ?thesis using b k e by (simp add: balanced_def)
      qed
    qed
  qed
qed

end
