(* ===== verification/Sem_Props.thy ===== *)
theory Sem_Props
  imports Sem_Runs
begin

text \<open>
  The properties of the semaphores of \<^verbatim>\<open>Sem\<close>, over the lemmas of \<^verbatim>\<open>Sem_Op\<close>, \<^verbatim>\<open>Sem_Inv\<close> and
  \<^verbatim>\<open>Sem_Runs\<close>, with the state on which their witnesses are evaluated.
\<close>

section \<open>A sample state\<close>

definition sample_info :: seminfo where
  "sample_info = seminfo_default\<lparr>si_semmni := 2, si_semmns := 30, si_semmnu := 2\<rparr>"

definition free_set :: semid_ds where
  "free_set = \<lparr>sem_perm = \<lparr>ipc_uid = 0, ipc_gid = 0, ipc_cuid = 0, ipc_cgid = 0, ipc_mode = 0, ipc_seq = 0, ipc_key = 0\<rparr>,
     sem_base = 0, sem_nsems = 0, sem_otime = 0, sem_ctime = 0, sem_binary = False\<rparr>"

text \<open>A set of \<open>n\<close> semaphores with sequence number 3, so that its identifier is \<^verbatim>\<open>0x30000\<close>.\<close>

definition sample_set :: "ushort_t \<Rightarrow> semid_ds" where
  "sample_set n = \<lparr>sem_perm = \<lparr>ipc_uid = 100, ipc_gid = 1, ipc_cuid = 100, ipc_cgid = 1, ipc_mode = 0x8180, ipc_seq = 3, ipc_key = 5\<rparr>,
     sem_base = 0, sem_nsems = n, sem_otime = 0, sem_ctime = 0, sem_binary = True\<rparr>"

text \<open>The first semaphore has the value \<open>v\<close>; the process in slot 0 has the entries \<open>ent\<close>.\<close>

definition sample_sem :: "ushort_t \<Rightarrow> ushort_t \<Rightarrow> undo list \<Rightarrow> semstate" where
  "sample_sem n v ent = \<lparr>ss_info = sample_info, ss_sema = [sample_set n, free_set],
     ss_sem = \<lparr>semval = v, sempid = 0, semncnt = 0, semzcnt = 0\<rparr> # replicate 29 \<lparr>semval = 0, sempid = 0, semncnt = 0, semzcnt = 0\<rparr>,
     ss_semmap = sample_map, ss_semu = [ent, []], ss_semfup = [1], ss_semunp = (if ent = [] then [] else [0]),
     ss_undo = [Some 0, None, None], ss_acflag = 0, ss_cvs = []\<rparr>"

definition root_caller :: "nat \<Rightarrow> semcaller" where
  "root_caller slot = \<lparr>sc_cred = zero_cred 1, sc_slot = slot, sc_pid = 7, sc_time = 0\<rparr>"

lemma sample_set_facts:
  "set_alloc (sample_set n)" "\<not> set_alloc free_set" "set_seq (sample_set n) = 3" "set_seq free_set = 0"
  "sem_nsems (sample_set n) = n" "sem_base (sample_set n) = 0"
  by (simp_all add: sample_set_def free_set_def set_alloc_def set_seq_def ipc_allocated_def IPC_ALLOC_def)

lemma sample_semid: "semid_index 0x30000 = 0" "semid_seq 0x30000 = 3" "0 \<le> sint (0x30000 :: int32_t)"
  by (simp_all add: semid_index_def SEMA_INDEX_MASK_def semid_seq_def SEMA_SEQ_SHIFT_def SEMA_SEQ_MASK_def)

lemma sample_info_ok: "sem_info_ok sample_info"
  by (simp add: sample_info_def seminfo_default_def sem_info_ok_def info_ok_def SEMA_INDEX_MAX_def)

lemma sample_names: "names_set (sample_sem n v ent) 0x30000 0"
  by (simp add: names_set_def sample_sem_def sample_semid sample_set_facts)

lemma sample_entl: "entl (sample_sem n v ent) = [ent, [], []]"
  by (simp add: entl_def sample_sem_def ents_of_def upt_rec)

lemma sample_sets:
  assumes n: "0 < unat n" "unat n \<le> 5"
  shows "sem_sets (sample_sem n v ent)"
proof -
  let ?st = "sample_sem n v ent"
  have f: "ss_info ?st = sample_info" "ss_sema ?st = [sample_set n, free_set]" "ss_semmap ?st = sample_map" "length (ss_sem ?st) = 30"
    by (simp_all add: sample_sem_def)
  have mi: "map_inv sample_map" using sample_wf(1) by (simp add: map_inv_def sample_map_def)
  have lr: "live_ranges [sample_set n, free_set] = [(1, ucast n)]" by (simp add: live_ranges_def sample_set_facts set_range_def)
  have un: "unat (ucast n :: size_t) = unat n" by (rule unat_ucast_small) (use n in simp)
  then have "ucast n \<noteq> (0 :: size_t)" using n(1) by auto
  moreover have "seg_range 1 (ucast n) \<inter> map_units sample_map = {}" unfolding sample_units seg_range_def un using n by auto
  ultimately have rl: "ranges_live (map_units sample_map) [(1, ucast n)]" using un n by (simp add: ranges_live_def)
  have ku: "ipc.keys_unique (map sem_perm [sample_set n, free_set])"
    using sample_set_facts(2) by (simp add: ipc.keys_unique_def less_Suc_eq set_alloc_def)
  have si: "si_semmni sample_info = 2" "si_semmns sample_info = 30" by (simp_all add: sample_info_def)
  show ?thesis unfolding sem_sets_def f si using sample_info_ok mi lr rl ku n
    by (auto simp: sample_units set_ok_def sample_set_facts)
qed

lemma sample_vals: "vals (sample_sem n v ent) = int (unat v) # replicate 29 0"
  by (simp add: vals_def sample_sem_def)

lemma sample_sem_inv:
  assumes n: "0 < unat n" "unat n \<le> 5" and v: "unat v \<le> 32767" and ent: "ents_ok sample_info ent" "\<forall>u \<in> set ent. ent_live [sample_set n, free_set] u"
  shows "sem_inv (sample_sem n v ent)"
proof -
  let ?st = "sample_sem n v ent"
  have "int (unat v) \<le> 32767" using v by linarith
  then have "vals_ok ?st" by (simp add: vals_ok_def sample_vals) (simp add: sample_sem_def sample_info_def seminfo_default_def)
  moreover have "ents_live ?st" using ent(2) by (simp add: ents_live_def sample_entl) (simp add: sample_sem_def)
  moreover have "ents_ok sample_info []" by (simp add: info_ok_nil sample_info_def seminfo_default_def)
  then have "undo_inv ?st" using ent(1)
    by (auto simp: undo_inv_def sample_sem_def owners_ok_def less_Suc_eq nth_Cons')
  ultimately show ?thesis using sample_sets [OF n] by (simp add: sem_inv_def)
qed

lemma alias_parts:
  fixes s :: int32_t
  defines "t \<equiv> s OR 0x80000000"
  shows "semid_index t = semid_index s" "semid_seq t = semid_seq s" "sint t < 0"
proof -
  have b: "bit t n \<longleftrightarrow> bit s n \<or> n = 31" for n
  proof -
    have p: "(0x80000000 :: int32_t) = 2 ^ 31" by simp
    have "bit (0x80000000 :: int32_t) n \<longleftrightarrow> n = 31" unfolding p bit_exp_iff by auto
    then show ?thesis unfolding t_def by (simp add: bit_or_iff)
  qed
  have m: "(0xffff :: int32_t) = mask 16" "(0x7fff :: int32_t) = mask 15" by (simp_all add: mask_eq_exp_minus_1)
  have "t AND 0xffff = s AND 0xffff" unfolding m by (rule bit_eqI) (auto simp: bit_and_iff bit_mask_iff b)
  then show "semid_index t = semid_index s" by (simp add: semid_index_def SEMA_INDEX_MASK_def)
  have "signed_drop_bit 16 t AND 0x7fff = signed_drop_bit 16 s AND (0x7fff :: int32_t)" unfolding m
    by (rule bit_eqI) (auto simp: bit_and_iff bit_mask_iff bit_signed_drop_bit_iff b)
  then show "semid_seq t = semid_seq s" by (simp add: semid_seq_def SEMA_SEQ_SHIFT_def SEMA_SEQ_MASK_def)
  show "sint t < 0" using b [of 31] bit_last_iff [of t] by simp
qed

section \<open>Properties\<close>





lemma semop_eq_check:
  assumes "sem_inv st" "names_set st sid i" "nsops \<noteq> 0" "nsops \<le> of_int (si_semopm (ss_info st))" "unat nsops \<le> length u"
    "semop_verify c (ss_sema st ! i) (take (unat nsops) u) = None"
  shows "semop c sid (Some u) nsops st = semop_check c sid (take (unat nsops) u) st"
proof -
  have i: "semid_index sid = i" by (rule names_setD(4) [OF assms(2)])
  then have "names_set st sid (semid_index sid)" using assms(2) by simp
  moreover have "\<not> (of_int (si_semopm (ss_info st)) :: size_t) < nsops" using assms(4) by (rule leD)
  ultimately show ?thesis using assms(3,5,6) i by (simp add: semop_def semconv_lock_ok [OF assms(1)])
qed

definition sample_ops :: "sembuf list" where
  "sample_ops = [\<lparr>sem_num = 0, sem_op = -2, sem_flg = SEM_UNDO\<rparr>, \<lparr>sem_num = 1, sem_op = 1, sem_flg = SEM_UNDO\<rparr>]"

lemma sample_op_spec:
  "op_spec (root_caller 1) 0x30000 sample_ops (sample_sem 2 3 []) =
     Inr (1 # 1 # replicate 28 0, [\<lparr>un_aoe = 2, un_num = 0, un_id = 0x30000\<rparr>, \<lparr>un_aoe = -1, un_num = 1, un_id = 0x30000\<rparr>])"
proof -
  have r: "replicate 29 (0 :: int) = 0 # replicate 28 0" by (simp add: numeral_eq_Suc)
  show ?thesis unfolding op_spec_def sample_vals sample_semid r
    by (simp add: sample_ops_def sample_sem_def root_caller_def room_def ents_of_def op_pos_def op_fits_def undo_spec_def sample_set_facts
      sample_info_def seminfo_default_def SEM_UNDO_def undo_range_def ent_update_def Let_def)
qed

lemma sample_ops_facts:
  "take (unat (2 :: size_t)) sample_ops = sample_ops" "unat (2 :: size_t) \<le> length sample_ops"
  "(2 :: size_t) \<le> of_int (si_semopm (ss_info (sample_sem n v ent)))"
  "semop_verify (root_caller 1) (ss_sema (sample_sem 2 3 []) ! 0) sample_ops = None"
  "sc_slot (root_caller 1) < length (ss_undo (sample_sem n v ent))" "ents_of (sample_sem n v ent) (sc_slot (root_caller 1)) = []"
  by (simp_all add: sample_ops_def sample_sem_def root_caller_def zero_cred_def ipcaccess_def sample_set_facts word_le_nat_alt
    sample_info_def seminfo_default_def ents_of_def)

lemma sample_sem_inv_empty: "0 < unat n \<Longrightarrow> unat n \<le> 5 \<Longrightarrow> unat v \<le> 32767 \<Longrightarrow> sem_inv (sample_sem n v [])"
  by (rule sample_sem_inv) (simp_all add: info_ok_nil sample_info_def seminfo_default_def)

lemma sample_semop_eq:
  "semop (root_caller 1) 0x30000 (Some sample_ops) 2 (sample_sem 2 3 []) = semop_check (root_caller 1) 0x30000 sample_ops (sample_sem 2 3 [])"
  using semop_eq_check [OF sample_sem_inv_empty sample_names _ sample_ops_facts(3,2), unfolded sample_ops_facts(1), OF _ _ _ _ sample_ops_facts(4)] by simp

text \<open>
  C2.  \<open>semop\<close> on verified operations behaves as one atomic pass over the values of the semaphores
  and the entries of the caller: it performs all operations and returns 0, or it returns an error
  or goes to sleep and leaves every value and every entry as it was, although it works by doing
  operations and taking them back.
\<close>
theorem semop_all_or_nothing:
  assumes "sem_inv st" "sc_slot c < length (ss_undo st)" "names_set st sid i" "0 \<le> sint sid"
    "nsops \<noteq> 0" "nsops \<le> of_int (si_semopm (ss_info st))" "unat nsops \<le> length u"
    "semop_verify c (ss_sema st ! i) (take (unat nsops) u) = None"
  shows "\<exists>r. semop c sid (Some u) nsops st = KRet r \<and> op_meets (sc_slot c) st (op_spec c sid (take (unat nsops) u) st) r"
  unfolding semop_eq_check [OF assms(1,3,5-8)]
  using semop_check_meets [OF assms(1-4) semop_verify_in_set [OF assms(8)]] by blast

theorem semop_all_or_nothing_witness:
  "\<exists>st'. semop (root_caller 1) 0x30000 (Some sample_ops) 2 (sample_sem 2 3 []) = KRet (Op_return None, st') \<and>
     vals st' = 1 # 1 # replicate 28 0 \<and>
     entl st' = [[], [\<lparr>un_aoe = 2, un_num = 0, un_id = 0x30000\<rparr>, \<lparr>un_aoe = -1, un_num = 1, un_id = 0x30000\<rparr>], []]"
proof -
  let ?st = "sample_sem 2 3 []" and ?c = "root_caller 1"
  have inv: "sem_inv ?st" by (rule sample_sem_inv_empty) simp_all
  have nz: "(2 :: size_t) \<noteq> 0" by simp
  obtain out st' where "semop ?c 0x30000 (Some sample_ops) 2 ?st = KRet (out, st')"
    "op_meets (sc_slot ?c) ?st (op_spec ?c 0x30000 sample_ops ?st) (out, st')"
    using semop_all_or_nothing [OF inv sample_ops_facts(5) sample_names sample_semid(3) nz sample_ops_facts(3,2), unfolded sample_ops_facts(1),
      OF sample_ops_facts(4)] by auto
  then show ?thesis unfolding sample_op_spec by (simp add: op_meets_def sample_entl root_caller_def)
qed

text \<open>
  C9.  A process that has no entries performs operations that all carry \<^verbatim>\<open>SEM_UNDO\<close>, and exits:
  when nothing else happens in between, every semaphore has its old value again and no entry is
  left.
\<close>
theorem semop_exit_restores:
  assumes "sem_inv st" "sc_slot c < length (ss_undo st)" "0 \<le> sint sid" "ents_of st (sc_slot c) = []"
    "semop c sid (Some u) nsops st = KRet (Op_return None, st1)"
    "\<forall>opn \<in> set (take (unat nsops) u). sem_op opn \<noteq> 0 \<longrightarrow> sem_flg opn AND SEM_UNDO \<noteq> 0"
  shows "\<exists>st2. semexit (sc_slot c) st1 = KRet st2 \<and> sem_inv st2 \<and> vals st2 = vals st \<and> entl st2 = entl st"
proof -
  let ?slot = "sc_slot c" and ?ops = "take (unat nsops) u" and ?i = "semid_index sid"
  have none: "(entl st)[?slot := []] = entl st" using assms(2,4) by (metis entl_nth list_update_id)
  show ?thesis
  proof (cases "nsops = 0")
    case True
    then have "st1 = st" using assms(5) by (simp add: semop_def split: if_splits)
    then show ?thesis using semexit_ok [OF assms(1,2)] assms(4) none by auto
  next
    case False
    have ns: "names_set st sid ?i" and vf: "semop_verify c (ss_sema st ! ?i) ?ops = None" and ck: "semop_check c sid ?ops st = KRet (Op_return None, st1)"
      using assms(5) False by (auto simp: semop_def semconv_lock_ok [OF assms(1)] Let_def split: if_splits option.splits)
    note in_set = semop_verify_in_set [OF vf]
    have m: "op_meets ?slot st (op_spec c sid ?ops st) (Op_return None, st1)" "sem_inv st1" "op_frame st st1"
      using semop_check_meets [OF assms(1,2) ns assms(3) in_set] ck by auto
    obtain vs ent where sp: "op_spec c sid ?ops st = Inr (vs, ent)" "vals st1 = vs" "entl st1 = (entl st)[?slot := ent]"
      using m(1) by (auto simp: op_meets_def split: sum.splits pass_out.splits)
    have f: "ss_info st1 = ss_info st" "length (ss_undo st1) = length (ss_undo st)" "map set_key (ss_sema st1) = map set_key (ss_sema st)"
      using m(3) by (simp_all add: op_frame_def)
    have slot1: "?slot < length (ss_undo st1)" using assms(2) f(2) by simp
    have e1: "ents_of st1 ?slot = ent" using entl_nth [OF slot1] sp(3) assms(2) by (simp add: length_entl)
    have base: "sem_base (ss_sema st ! ?i) = sem_base (ss_sema st1 ! ?i)"
      using set_key_nth(2) [OF f(3) names_setD(1) [OF ns]] by (simp add: set_key_eq)
    have pos: "\<forall>opn \<in> set ?ops. op_pos (sem_base (ss_sema st ! ?i)) opn < length (vals st)"
    proof
      fix opn assume "opn \<in> set ?ops"
      then have "unat (sem_num opn) < unat (sem_nsems (ss_sema st ! ?i))" using in_set by (simp add: ops_in_set_def word_less_nat_alt)
      from set_in_array(2) [OF assms(1) ns this] show "op_pos (sem_base (ss_sema st ! ?i)) opn < length (vals st)" by (simp add: op_pos_def length_vals)
    qed
    have io: "info_ok (ss_info st)" "0 \<le> si_semume (ss_info st)" using inv_sets(2) [OF assms(1)] by (simp_all add: sem_info_ok_def)
    have vo: "\<forall>v \<in> set (vals st). 0 \<le> v \<and> v \<le> si_semvmx (ss_info st)" using assms(1) by (auto simp: sem_inv_def vals_ok_def vals_def)
    have "pass_spec (ss_info st) (room ?slot st) sid (sem_base (ss_sema st ! ?i)) ?ops (vals st) [] = Inr (vs, ent)"
      using sp(1) assms(4) by (simp add: op_spec_def)
    from exit_restores [OF this info_ok_nil [OF io(2)] io(1) assms(6) pos vo base]
    have "exit_spec (si_semvmx (ss_info st1)) (ss_sema st1) (rev (ents_of st1 ?slot)) (vals st1) = vals st" using f(1) e1 sp(2) by simp
    moreover have "(entl st1)[?slot := []] = entl st" using sp(3) none by simp
    ultimately show ?thesis using semexit_ok [OF m(2) slot1] by metis
  qed
qed

theorem semop_exit_restores_witness:
  "\<exists>st1 st2. semop (root_caller 1) 0x30000 (Some sample_ops) 2 (sample_sem 2 3 []) = KRet (Op_return None, st1) \<and>
     vals st1 = 1 # 1 # replicate 28 0 \<and> semexit 1 st1 = KRet st2 \<and> vals st2 = 3 # replicate 29 0"
proof -
  let ?st = "sample_sem 2 3 []" and ?c = "root_caller 1"
  have inv: "sem_inv ?st" by (rule sample_sem_inv_empty) simp_all
  obtain r where r: "semop_check ?c 0x30000 sample_ops ?st = KRet r" "op_meets (sc_slot ?c) ?st (op_spec ?c 0x30000 sample_ops ?st) r"
    using semop_check_meets [OF inv sample_ops_facts(5) sample_names sample_semid(3) semop_verify_in_set [OF sample_ops_facts(4)]] by blast
  then obtain st1 where s: "semop ?c 0x30000 (Some sample_ops) 2 ?st = KRet (Op_return None, st1)" "vals st1 = 1 # 1 # replicate 28 0"
    unfolding sample_op_spec sample_semop_eq by (cases r) (simp add: op_meets_def)
  have u: "\<forall>opn \<in> set (take (unat (2 :: size_t)) sample_ops). sem_op opn \<noteq> 0 \<longrightarrow> sem_flg opn AND SEM_UNDO \<noteq> 0"
    by (simp add: sample_ops_def SEM_UNDO_def)
  obtain st2 where "semexit (sc_slot ?c) st1 = KRet st2" "vals st2 = vals ?st"
    using semop_exit_restores [OF inv sample_ops_facts(5) sample_semid(3) sample_ops_facts(6) s(1) u] by blast
  then show ?thesis using s by (auto simp: root_caller_def sample_vals)
qed

lemma semctl_rmid_eq:
  assumes "sem_inv st" "names_set st sid i"
  shows "semctl ilp32 c sid num IPC_RMID arg um st = semctl_rmid c sid i st"
proof -
  have "semconv_lock st sid = KRet (Some i)" using assms(2) names_setD(4) [OF assms(2)] by (simp add: semconv_lock_ok [OF assms(1)])
  then show ?thesis by (simp add: semctl_def sem_commands)
qed

lemma sample_sem_inv_entry: "sem_inv (sample_sem 2 3 [\<lparr>un_aoe = 1, un_num = 1, un_id = 0x30000\<rparr>])"
  by (rule sample_sem_inv) (simp_all add: ents_ok_def ents_sorted_def undo_range_def sample_info_def seminfo_default_def ent_live_def Let_def
    sample_semid sample_set_facts word_less_nat_alt)

text \<open>
  C10.  After \<^verbatim>\<open>IPC_RMID\<close> by the owner, the creator or the super-user, the identifier is dead: every
  command of \<open>semctl\<close> and every \<open>semop\<close> with it gets \<^verbatim>\<open>EINVAL\<close>, a process that was asleep on the set
  gets \<^verbatim>\<open>EIDRM\<close>, no process keeps an entry for it, and the tables are in order.
\<close>
theorem rmid_ends_identifier:
  assumes "sem_inv st" "names_set st sid i" "0 \<le> sint sid"
    "cr_uid (sc_cred c) \<in> {0, ipc_uid (sem_perm (ss_sema st ! i)), ipc_cuid (sem_perm (ss_sema st ! i))}"
  shows "\<exists>out st'. semctl ilp32 c sid num IPC_RMID arg um st = KRet (Inr 0, out, st') \<and> sem_inv st' \<and>
    (\<forall>ent \<in> set (entl st'). \<forall>u \<in> set ent. un_id u \<noteq> sid) \<and>
    (\<forall>m c' n cmd a um'. semctl m c' sid n cmd a um' st' = KRet (Inl EINVAL, Out_none, st')) \<and>
    (\<forall>c' u. u \<noteq> [] \<and> length u < 2 ^ 64 \<and> of_nat (length u) \<le> (of_int (si_semopm (ss_info st')) :: size_t) \<longrightarrow>
       semop c' sid (Some u) (of_nat (length u)) st' = KRet (Op_return (Some EINVAL), st')) \<and>
    (\<forall>c' ops. semop_woken c' sid ops st' = KRet (Op_return (Some EIDRM), st'))"
proof -
  have i: "semid_index sid = i" by (rule names_setD(4) [OF assms(2)])
  obtain out st' where r: "semctl_rmid c sid i st = KRet (Inr 0, out, st')" "sem_inv st'" "\<not> set_alloc (ss_sema st' ! i)"
    using semctl_rmid_safe [OF assms(1,2), of c] assms(3,4) by auto
  have run: "semctl ilp32 c sid num IPC_RMID arg um st = KRet (Inr 0, out, st')"
    unfolding semctl_rmid_eq [OF assms(1,2)] by (rule r(1))
  have dead: "\<not> names_set st' sid (semid_index sid)" using r(3) i by (simp add: names_set_def)
  have "un_id u \<noteq> sid" if "ent \<in> set (entl st')" "u \<in> set ent" for ent u
    using not_alloc_unnamed [OF r(2,3)] that i by blast
  moreover have "semctl m c' sid n cmd a um' st' = KRet (Inl EINVAL, Out_none, st')" for m c' n cmd a um'
    using dead by (simp add: semctl_def semconv_lock_ok [OF r(2)] sem_fail_def)
  moreover have "semop c' sid (Some u) (of_nat (length u)) st' = KRet (Op_return (Some EINVAL), st')"
    if u: "u \<noteq> [] \<and> length u < 2 ^ 64 \<and> of_nat (length u) \<le> (of_int (si_semopm (ss_info st')) :: size_t)" for c' u
  proof -
    have l: "unat (of_nat (length u) :: size_t) = length u" using u unfolding unat_of_nat by simp
    then have nz: "(of_nat (length u) :: size_t) \<noteq> 0" using u by auto
    have "\<not> (of_int (si_semopm (ss_info st')) :: size_t) < of_nat (length u)" using u by (simp add: leD)
    then show ?thesis using l nz dead by (simp add: semop_def semconv_lock_ok [OF r(2)])
  qed
  moreover have "semop_woken c' sid ops st' = KRet (Op_return (Some EIDRM), st')" for c' ops
    using dead by (simp add: semop_woken_def semconv_ok [OF r(2)])
  ultimately show ?thesis using run r(2) by blast
qed

theorem rmid_ends_identifier_witness:
  "\<exists>out st'. semctl False (root_caller 1) 0x30000 0 IPC_RMID 0 \<lparr>um_sid = None, um_osid = None, um_vals = None, um_room = 0\<rparr>
       (sample_sem 2 3 [\<lparr>un_aoe = 1, un_num = 1, un_id = 0x30000\<rparr>]) = KRet (Inr 0, out, st') \<and>
     (\<forall>ent \<in> set (entl st'). \<forall>u \<in> set ent. un_id u \<noteq> 0x30000) \<and>
     (\<forall>c' ops. semop_woken c' 0x30000 ops st' = KRet (Op_return (Some EIDRM), st'))"
proof -
  let ?e = "[\<lparr>un_aoe = 1, un_num = 1, un_id = 0x30000\<rparr>]"
  have u: "cr_uid (sc_cred (root_caller 1)) \<in> {0, ipc_uid (sem_perm (ss_sema (sample_sem 2 3 ?e) ! 0)), ipc_cuid (sem_perm (ss_sema (sample_sem 2 3 ?e) ! 0))}"
    by (simp add: root_caller_def zero_cred_def)
  show ?thesis using rmid_ends_identifier [OF sample_sem_inv_entry sample_names sample_semid(3) u] by blast
qed

text \<open>
  C38.  The conversion of an identifier masks its sign bit away, while the removal of entries
  compares whole identifiers: \<^verbatim>\<open>IPC_RMID\<close> with the sign bit set removes the set and leaves every
  process its entries for it.
\<close>
theorem rmid_by_alias_leaves_entries:
  assumes "sem_inv st" "names_set st sid i"
    "cr_uid (sc_cred c) \<in> {0, ipc_uid (sem_perm (ss_sema st ! i)), ipc_cuid (sem_perm (ss_sema st ! i))}"
  shows "\<exists>out st'. semctl ilp32 c (sid OR 0x80000000) num IPC_RMID arg um st = KRet (Inr 0, out, st') \<and>
    \<not> set_alloc (ss_sema st' ! i) \<and> entl st' = entl st"
proof -
  let ?t = "sid OR 0x80000000"
  note a = alias_parts [of sid] and nd = names_setD [OF assms(2)]
  have n: "names_set st ?t i" unfolding names_set_def a using nd by simp
  obtain out st' where r: "semctl_rmid c ?t i st = KRet (Inr 0, out, st')" "\<not> set_alloc (ss_sema st' ! i)"
    "entl st' = map (filter (\<lambda>u. \<not> un_doomed ?t 0 (sem_nsems (ss_sema st ! i)) u)) (entl st)"
    using semctl_rmid_safe [OF assms(1) n, of c] assms(3) by auto
  have run: "semctl ilp32 c ?t num IPC_RMID arg um st = KRet (Inr 0, out, st')"
    unfolding semctl_rmid_eq [OF assms(1) n] by (rule r(1))
  have "filter (\<lambda>u. \<not> un_doomed ?t 0 (sem_nsems (ss_sema st ! i)) u) ent = ent" if e: "ent \<in> set (entl st)" for ent
  proof -
    have "0 \<le> sint (un_id u)" if "u \<in> set ent" for u
      using assms(1) e that by (auto simp: sem_inv_def ents_live_def ent_live_def Let_def)
    then have "\<forall>u \<in> set ent. un_id u \<noteq> ?t" using a(3) by fastforce
    then show ?thesis by (simp add: filter_id_conv un_doomed_def)
  qed
  then have "entl st' = entl st" unfolding r(3) by (simp add: map_idI)
  then show ?thesis using run r(2) by blast
qed

theorem rmid_by_alias_leaves_entries_witness:
  "\<exists>out st'. semctl False (root_caller 1) 0x80030000 0 IPC_RMID 0 \<lparr>um_sid = None, um_osid = None, um_vals = None, um_room = 0\<rparr>
       (sample_sem 2 3 [\<lparr>un_aoe = 1, un_num = 1, un_id = 0x30000\<rparr>]) = KRet (Inr 0, out, st') \<and>
     \<not> set_alloc (ss_sema st' ! 0) \<and> entl st' = [[\<lparr>un_aoe = 1, un_num = 1, un_id = 0x30000\<rparr>], [], []]"
proof -
  let ?e = "[\<lparr>un_aoe = 1, un_num = 1, un_id = 0x30000\<rparr>]"
  have u: "cr_uid (sc_cred (root_caller 1)) \<in> {0, ipc_uid (sem_perm (ss_sema (sample_sem 2 3 ?e) ! 0)), ipc_cuid (sem_perm (ss_sema (sample_sem 2 3 ?e) ! 0))}"
    by (simp add: root_caller_def zero_cred_def)
  have t: "(0x30000 :: int32_t) OR 0x80000000 = 0x80030000" by simp
  show ?thesis using rmid_by_alias_leaves_entries [OF sample_sem_inv_entry sample_names u, unfolded t sample_entl] by blast
qed




end
