(* ===== verification/Pid.thy ===== *)
theory Pid
  imports Bitmap Refcount
begin

text \<open>
  Process ids, the first half of \<^verbatim>\<open>uts/common/os/pid.c\<close>: the hash table of \<^verbatim>\<open>struct pid\<close>, the
  directory of process slots, and the choice of a new process id.  Structures are shared by
  reference, so they live in stores from addresses to structures, and a reference to an address
  that holds none is \<open>KFault\<close>.  A hash chain linked by \<^verbatim>\<open>pid_link\<close> is the list of its members;
  the other links are fields.  Addresses that an allocator returns are arguments.

  Each routine holds \<^verbatim>\<open>pidlock\<close> or \<^verbatim>\<open>pidlinklock\<close> around its accesses.  Signals that are sent
  to processes are recorded in \<open>ps_sigs\<close> in the order they are sent.
\<close>

section \<open>Data\<close>

type_synonym pid_t = "32 word"
type_synonym pid_ptr = nat
type_synonym proc_ptr = nat
type_synonym sess_ptr = nat

record pid =
  pid_prinactive :: bool
  pid_pgorphaned :: bool
  pid_prslot :: nat
  pid_id :: pid_t
  pid_pglink :: "proc_ptr option"
  pid_ref :: uint_t

text \<open>An entry of the directory of processes: the union of its two readings, with the one it has.\<close>

datatype procent = Pe_proc proc_ptr | Pe_next "nat option"

datatype proc_stat = SSLEEP | SRUN | SZOMB | SSTOP | SIDL | SONPROC

text \<open>
  The fields of a process that the routines use.  The children, linked by \<^verbatim>\<open>p_sibling\<close>, are the
  list \<open>p_child\<close>; \<open>p_lockp\<close> is the index into \<^verbatim>\<open>proc_lock\<close>.
\<close>

record proc_t =
  p_stat :: proc_stat
  p_flag :: uint_t
  p_pidp :: "pid_ptr option"
  p_lockp :: nat
  p_next :: "proc_ptr option"
  p_prev :: "proc_ptr option"
  p_pgidp :: "pid_ptr option"
  p_pglink :: "proc_ptr option"
  p_ppglink :: "proc_ptr option"
  p_sessp :: "sess_ptr option"
  p_parent :: "proc_ptr option"
  p_child :: "proc_ptr list"

record sess_t =
  s_ref :: uint_t
  s_sidp :: pid_ptr

record pidsys =
  ps_pids :: "pid_ptr \<rightharpoonup> pid"
  ps_procs :: "proc_ptr \<rightharpoonup> proc_t"
  ps_sess :: "sess_ptr \<rightharpoonup> sess_t"
  pid_hashsz :: "32 word"
  pidhash :: "pid_ptr list list"
  procdir :: "procent list"
  procentfree :: "nat option"
  minpid :: pid_t
  mpid :: pid_t
  maxpid :: pid_t
  practive :: "proc_ptr option"
  nproc :: uint_t
  ps_sigs :: "(proc_ptr \<times> int) list"

text \<open>The addresses of the structures that are part of the kernel image.\<close>

definition pid0 :: pid_ptr where
  "pid0 = 0"

definition p0 :: proc_ptr where
  "p0 = 0"

definition session0 :: sess_ptr where
  "session0 = 0"

definition pid_hashlen :: nat where
  "pid_hashlen = 4"

section \<open>Access to the stores\<close>

definition pid_at :: "pidsys \<Rightarrow> pid_ptr \<Rightarrow> pid kres" where
  "pid_at st a = (case ps_pids st a of None \<Rightarrow> KFault | Some x \<Rightarrow> KRet x)"

definition proc_at :: "pidsys \<Rightarrow> proc_ptr \<Rightarrow> proc_t kres" where
  "proc_at st p = (case ps_procs st p of None \<Rightarrow> KFault | Some r \<Rightarrow> KRet r)"

definition sess_at :: "pidsys \<Rightarrow> sess_ptr \<Rightarrow> sess_t kres" where
  "sess_at st s = (case ps_sess st s of None \<Rightarrow> KFault | Some x \<Rightarrow> KRet x)"

definition pid_upd :: "pid_ptr \<Rightarrow> (pid \<Rightarrow> pid) \<Rightarrow> pidsys \<Rightarrow> pidsys kres" where
  "pid_upd a f st = kbind (pid_at st a) (\<lambda>x. KRet (st\<lparr>ps_pids := (ps_pids st)(a \<mapsto> f x)\<rparr>))"

definition proc_upd :: "proc_ptr \<Rightarrow> (proc_t \<Rightarrow> proc_t) \<Rightarrow> pidsys \<Rightarrow> pidsys kres" where
  "proc_upd p f st = kbind (proc_at st p) (\<lambda>r. KRet (st\<lparr>ps_procs := (ps_procs st)(p \<mapsto> f r)\<rparr>))"

definition sess_upd :: "sess_ptr \<Rightarrow> (sess_t \<Rightarrow> sess_t) \<Rightarrow> pidsys \<Rightarrow> pidsys kres" where
  "sess_upd s f st = kbind (sess_at st s) (\<lambda>x. KRet (st\<lparr>ps_sess := (ps_sess st)(s \<mapsto> f x)\<rparr>))"

text \<open>An update through a pointer that is left out when the pointer is null.\<close>

definition proc_upd_opt :: "proc_ptr option \<Rightarrow> (proc_t \<Rightarrow> proc_t) \<Rightarrow> pidsys \<Rightarrow> pidsys kres" where
  "proc_upd_opt p f st = (case p of None \<Rightarrow> KRet st | Some q \<Rightarrow> proc_upd q f st)"

text \<open>A pointer that is followed without a test.\<close>

definition deref :: "'a option \<Rightarrow> 'a kres" where
  "deref p = (case p of None \<Rightarrow> KFault | Some a \<Rightarrow> KRet a)"

section \<open>The hash table\<close>

definition HASHPID :: "pidsys \<Rightarrow> pid_t \<Rightarrow> nat" where
  "HASHPID st pid = unat (pid AND (pid_hashsz st - 1))"

definition pid_chain :: "pidsys \<Rightarrow> pid_t \<Rightarrow> pid_ptr list kres" where
  "pid_chain st pid =
     (let i = HASHPID st pid in if length (pidhash st) \<le> i then KFault else KRet (pidhash st ! i))"

definition pid_chain_put :: "pid_t \<Rightarrow> pid_ptr list \<Rightarrow> pidsys \<Rightarrow> pidsys" where
  "pid_chain_put pid c st = st\<lparr>pidhash := (pidhash st)[HASHPID st pid := c]\<rparr>"

fun pid_scan :: "pidsys \<Rightarrow> pid_t \<Rightarrow> pid_ptr list \<Rightarrow> pid_ptr option kres" where
  "pid_scan st pid [] = KRet None"
| "pid_scan st pid (a # c) =
     kbind (pid_at st a) (\<lambda>x. if pid_id x = pid then KRet (Some a) else pid_scan st pid c)"

definition pid_lookup :: "pidsys \<Rightarrow> pid_t \<Rightarrow> pid_ptr option kres" where
  "pid_lookup st pid = kbind (pid_chain st pid) (pid_scan st pid)"

definition pid_setmin :: "pidsys \<Rightarrow> pidsys" where
  "pid_setmin st = st\<lparr>minpid := mpid st + 1\<rparr>"

definition next_pid :: "pidsys \<Rightarrow> pid_t \<Rightarrow> pid_t" where
  "next_pid st m = (if m + 1 = maxpid st then minpid st else m + 1)"

text \<open>The loop that chooses a process id; a loop that does not end is \<open>None\<close>.\<close>

partial_function (option) pid_search :: "pidsys \<Rightarrow> pid_t \<Rightarrow> pid_t kres option" where
  "pid_search st m =
     (let newpid = next_pid st m in
      case pid_lookup st newpid of
        KRet None \<Rightarrow> Some (KRet newpid)
      | KRet (Some a) \<Rightarrow> pid_search st newpid
      | KPanic s \<Rightarrow> Some (KPanic s)
      | KFault \<Rightarrow> Some KFault)"

text \<open>\<open>pid_assign\<close> is given the address of the new structure; its result \<open>None\<close> is the C result -1.\<close>

definition pid_assign :: "pid_ptr \<Rightarrow> proc_ptr \<Rightarrow> pidsys \<Rightarrow> (pid_t option \<times> pidsys) kres option" where
  "pid_assign pidp prp st =
     (case procentfree st of
        None \<Rightarrow> Some (KRet (None, st))
      | Some pep \<Rightarrow>
          if length (procdir st) \<le> pep then Some KFault
          else case procdir st ! pep of
            Pe_proc _ \<Rightarrow> Some KFault
          | Pe_next n \<Rightarrow>
              (case proc_upd prp (\<lambda>r. r\<lparr>p_pidp := Some pidp\<rparr>)
                   (st\<lparr>procentfree := n, procdir := (procdir st)[pep := Pe_proc prp]\<rparr>) of
                 KPanic s \<Rightarrow> Some (KPanic s)
               | KFault \<Rightarrow> Some KFault
               | KRet st \<Rightarrow>
                   map_option (\<lambda>m. kbind m (\<lambda>newpid.
                     kbind (pid_chain st newpid) (\<lambda>c.
                     let st = pid_chain_put newpid (pidp # c) (st\<lparr>mpid := newpid,
                           ps_pids := (ps_pids st)(pidp \<mapsto> \<lparr>pid_prinactive = False, pid_pgorphaned = False,
                             pid_prslot = pep mod 2 ^ 24, pid_id = newpid, pid_pglink = None, pid_ref = 1\<rparr>)\<rparr>)
                     in kbind (proc_upd prp (\<lambda>r. r\<lparr>p_lockp := pep mod 2 ^ 24\<rparr>) st) (\<lambda>st.
                       KRet (Some newpid, st)))))
                     (pid_search st (mpid st))))"

fun pid_unlink :: "pid_ptr \<Rightarrow> pid_ptr list \<Rightarrow> pid_ptr list kres" where
  "pid_unlink a [] = KFault"
| "pid_unlink a (b # c) = (if b = a then KRet c else kbind (pid_unlink a c) (\<lambda>c. KRet (b # c)))"

definition pid_rele :: "pid_ptr \<Rightarrow> pidsys \<Rightarrow> pidsys kres" where
  "pid_rele a st =
     kbind (pid_at st a) (\<lambda>x.
     kbind (pid_chain st (pid_id x)) (\<lambda>c.
     kbind (pid_unlink a c) (\<lambda>c.
       let st = pid_chain_put (pid_id x) c st in KRet (st\<lparr>ps_pids := (ps_pids st)(a := None)\<rparr>))))"

definition PID_HOLD :: "pidsys \<Rightarrow> pid_ptr \<Rightarrow> pidsys kres" where
  "PID_HOLD st a = pid_upd a (\<lambda>x. x\<lparr>pid_ref := pid_ref x + 1\<rparr>) st"

definition PID_RELE :: "pidsys \<Rightarrow> pid_ptr \<Rightarrow> pidsys kres" where
  "PID_RELE st a =
     kbind (pid_at st a) (\<lambda>x.
       if 1 < pid_ref x then pid_upd a (\<lambda>x. x\<lparr>pid_ref := pid_ref x - 1\<rparr>) st else pid_rele a st)"

section \<open>Process slots\<close>

definition proc_entry_free :: "pid_ptr \<Rightarrow> pidsys \<Rightarrow> pidsys kres" where
  "proc_entry_free a st =
     kbind (pid_upd a (\<lambda>x. x\<lparr>pid_prinactive := True\<rparr>) st) (\<lambda>st.
     kbind (pid_at st a) (\<lambda>x.
       if length (procdir st) \<le> pid_prslot x then KFault
       else KRet (st\<lparr>procdir := (procdir st)[pid_prslot x := Pe_next (procentfree st)],
                     procentfree := Some (pid_prslot x)\<rparr>)))"

text \<open>The reading of an entry as a process; a free entry holds no process.\<close>

definition pe_proc :: "pidsys \<Rightarrow> nat \<Rightarrow> proc_ptr kres" where
  "pe_proc st slot =
     (if length (procdir st) \<le> slot then KFault
      else case procdir st ! slot of Pe_proc p \<Rightarrow> KRet p | Pe_next _ \<Rightarrow> KFault)"

definition prfind :: "pidsys \<Rightarrow> pid_t \<Rightarrow> proc_ptr option kres" where
  "prfind st pid =
     kbind (pid_lookup st pid) (\<lambda>pidp.
       case pidp of
         None \<Rightarrow> KRet None
       | Some a \<Rightarrow>
           kbind (pid_at st a) (\<lambda>x.
             if \<not> pid_prinactive x then kbind (pe_proc st (pid_prslot x)) (\<lambda>p. KRet (Some p))
             else KRet None))"

definition pgfind :: "pidsys \<Rightarrow> pid_t \<Rightarrow> proc_ptr option kres" where
  "pgfind st pgid =
     kbind (pid_lookup st pgid) (\<lambda>pidp.
       case pidp of None \<Rightarrow> KRet None | Some a \<Rightarrow> kbind (pid_at st a) (\<lambda>x. KRet (pid_pglink x)))"

text \<open>
  The tables of \<open>v_proc\<close> processes.  Process 0 has its structures already; \<open>alloc\<close> says whether the
  memory could be had.  The table of process counts per user has its own model.
\<close>

definition pid_init :: "bool \<Rightarrow> nat \<Rightarrow> pidsys \<Rightarrow> pidsys kres" where
  "pid_init alloc v_proc st =
     (let hashsz = push_bit (highbit (of_nat (v_proc div pid_hashlen))) 1 in
      if \<not> alloc then KPanic ''Could not allocate space for pid tables''
      else if v_proc < 2 then KFault
      else
        let st = st\<lparr>pid_hashsz := hashsz, pidhash := replicate (unat hashsz) [], nproc := 1, practive := Some p0\<rparr> in
        kbind (proc_upd p0 (\<lambda>r. r\<lparr>p_next := None\<rparr>) st) (\<lambda>st.
          let st = st\<lparr>procdir := Pe_proc p0 # map (\<lambda>i. Pe_next (if i < v_proc - 1 then Some (Suc i) else None)) [1..<v_proc],
                      procentfree := Some 1\<rparr> in
          kbind (pid_chain st 0) (\<lambda>_. KRet (pid_chain_put 0 [pid0] st))))"

text \<open>
  A null pointer and a pointer outside the directory are read as the process of the entry, which
  is null at the end of the free list.
\<close>

definition pid_entry :: "pidsys \<Rightarrow> nat \<Rightarrow> proc_ptr option kres" where
  "pid_entry st slot =
     (if length (procdir st) \<le> slot then KFault
      else case procdir st ! slot of
        Pe_next _ \<Rightarrow> KRet None
      | Pe_proc p \<Rightarrow> kbind (proc_at st p) (\<lambda>r. KRet (if p_stat r = SIDL then None else Some p)))"

section \<open>Signals\<close>

text \<open>
  The walk along \<^verbatim>\<open>p_pglink\<close> that sends a signal to every member of a process group.  It is
  bounded by the number of process slots: a longer list is a cycle, and the walk a fault.
\<close>

definition sigtoproc :: "proc_ptr \<Rightarrow> int \<Rightarrow> pidsys \<Rightarrow> pidsys kres" where
  "sigtoproc p sig st = kbind (proc_at st p) (\<lambda>_. KRet (st\<lparr>ps_sigs := ps_sigs st @ [(p, sig)]\<rparr>))"

fun pg_signal_walk :: "nat \<Rightarrow> proc_ptr option \<Rightarrow> int \<Rightarrow> pidsys \<Rightarrow> pidsys kres" where
  "pg_signal_walk n None sig st = KRet st"
| "pg_signal_walk 0 (Some p) sig st = KFault"
| "pg_signal_walk (Suc n) (Some p) sig st =
     kbind (sigtoproc p sig st) (\<lambda>st. kbind (proc_at st p) (\<lambda>r. pg_signal_walk n (p_pglink r) sig st))"

definition signal :: "pid_t \<Rightarrow> int \<Rightarrow> pidsys \<Rightarrow> pidsys kres" where
  "signal pgid sig st =
     (if pgid = 0 then KRet st
      else
        kbind (pid_lookup st pgid) (\<lambda>pidp.
          case pidp of
            None \<Rightarrow> KRet st
          | Some a \<Rightarrow> kbind (pid_at st a) (\<lambda>x. pg_signal_walk (length (procdir st)) (pid_pglink x) sig st)))"

definition prsignal :: "pid_ptr \<Rightarrow> int \<Rightarrow> pidsys \<Rightarrow> pidsys kres" where
  "prsignal a sig st =
     kbind (pid_at st a) (\<lambda>x.
       if \<not> pid_prinactive x then kbind (pe_proc st (pid_prslot x)) (\<lambda>p. sigtoproc p sig st) else KRet st)"

definition proc_ref :: "proc_ptr \<Rightarrow> pidsys \<Rightarrow> (pid_ptr \<times> pidsys) kres" where
  "proc_ref curproc st =
     kbind (proc_at st curproc) (\<lambda>r.
     kbind (deref (p_pidp r)) (\<lambda>a.
     kbind (PID_HOLD st a) (\<lambda>st. KRet (a, st))))"

definition proc_unref :: "pid_ptr \<Rightarrow> pidsys \<Rightarrow> pidsys kres" where
  "proc_unref pref st = PID_RELE st pref"

definition proc_signal :: "pid_ptr \<Rightarrow> int \<Rightarrow> pidsys \<Rightarrow> (int \<times> pidsys) kres" where
  "proc_signal pref sig st =
     kbind (prsignal pref sig st) (\<lambda>st.
     kbind (pid_at st pref) (\<lambda>x. KRet (if pid_prinactive x then - 1 else 0, st)))"

end
