(* ===== verification/Pgrp.thy ===== *)
theory Pgrp
  imports Pid
begin

text \<open>
  Process groups and sessions on the state of \<^verbatim>\<open>Pid\<close>: \<^verbatim>\<open>uts/common/os/pgrp.c\<close>, the reference
  counts and the creation of sessions in \<^verbatim>\<open>uts/common/os/session.c\<close>, the system call of
  \<^verbatim>\<open>uts/common/syscall/pgrpsys.c\<close>, and the parts of \<^verbatim>\<open>fork.c\<close> and \<^verbatim>\<open>exit.c\<close> that enter a
  process into the tables and take it out again.
\<close>

section \<open>Process groups\<close>

definition pglinked :: "pidsys \<Rightarrow> proc_ptr \<Rightarrow> bool kres" where
  "pglinked st cp =
     kbind (proc_at st cp) (\<lambda>c.
       case p_parent c of
         None \<Rightarrow> KRet False
       | Some pp \<Rightarrow> kbind (proc_at st pp) (\<lambda>p. KRet (p_pgidp p \<noteq> p_pgidp c \<and> p_sessp p = p_sessp c)))"

definition sigtopg :: "pid_ptr \<Rightarrow> int \<Rightarrow> pidsys \<Rightarrow> pidsys kres" where
  "sigtopg pidp sig st =
     kbind (pid_at st pidp) (\<lambda>x. pg_signal_walk (length (procdir st)) (pid_pglink x) sig st)"

text \<open>\<open>pgsignal\<close> takes \<^verbatim>\<open>pidlock\<close> itself and is \<open>sigtopg\<close> otherwise.\<close>

definition pgsignal :: "pid_ptr \<Rightarrow> int \<Rightarrow> pidsys \<Rightarrow> pidsys kres" where
  "pgsignal pidp sig st =
     kbind (pid_at st pidp) (\<lambda>x. pg_signal_walk (length (procdir st)) (pid_pglink x) sig st)"

definition pgjoin :: "proc_ptr \<Rightarrow> pid_ptr \<Rightarrow> pidsys \<Rightarrow> pidsys kres" where
  "pgjoin p pgp st =
     kbind (pid_at st pgp) (\<lambda>g.
     kbind (proc_upd p (\<lambda>r. r\<lparr>p_ppglink := None, p_pglink := pid_pglink g\<rparr>) st) (\<lambda>st.
     kbind (proc_upd_opt (pid_pglink g) (\<lambda>r. r\<lparr>p_ppglink := Some p\<rparr>) st) (\<lambda>st.
     kbind (pid_upd pgp (\<lambda>x. x\<lparr>pid_pglink := Some p\<rparr>) st) (\<lambda>st.
     kbind (proc_upd p (\<lambda>r. r\<lparr>p_pgidp := Some pgp\<rparr>) st) (\<lambda>st.
     kbind (proc_at st p) (\<lambda>r.
       if p_pglink r = None then
         kbind (PID_HOLD st pgp) (\<lambda>st.
         kbind (pglinked st p) (\<lambda>l. pid_upd pgp (\<lambda>x. x\<lparr>pid_pgorphaned := \<not> l\<rparr>) st))
       else
         kbind (pid_at st pgp) (\<lambda>g.
           if pid_pgorphaned g then
             kbind (pglinked st p) (\<lambda>l. if l then pid_upd pgp (\<lambda>x. x\<lparr>pid_pgorphaned := False\<rparr>) st else KRet st)
           else KRet st)))))))"

text \<open>Whether a member from \<open>p\<close> on satisfies \<open>f\<close>; the bound is that of \<open>pg_signal_walk\<close>.\<close>

fun pg_any :: "nat \<Rightarrow> pidsys \<Rightarrow> (proc_ptr \<Rightarrow> bool kres) \<Rightarrow> proc_ptr option \<Rightarrow> bool kres" where
  "pg_any n st f None = KRet False"
| "pg_any 0 st f (Some p) = KFault"
| "pg_any (Suc n) st f (Some p) =
     kbind (f p) (\<lambda>b. if b then KRet True else kbind (proc_at st p) (\<lambda>r. pg_any n st f (p_pglink r)))"

definition pgexit :: "proc_ptr \<Rightarrow> pidsys \<Rightarrow> pidsys kres" where
  "pgexit prp st =
     kbind (proc_at st prp) (\<lambda>r.
     kbind (deref (p_pgidp r)) (\<lambda>pgp.
     kbind (pid_at st pgp) (\<lambda>g.
     kbind (if pid_pglink g = Some prp then pid_upd pgp (\<lambda>x. x\<lparr>pid_pglink := p_pglink r\<rparr>) st else KRet st) (\<lambda>st.
     kbind (proc_upd_opt (p_ppglink r) (\<lambda>x. x\<lparr>p_pglink := p_pglink r\<rparr>) st) (\<lambda>st.
     kbind (proc_upd_opt (p_pglink r) (\<lambda>x. x\<lparr>p_ppglink := p_ppglink r\<rparr>) st) (\<lambda>st.
     kbind (proc_upd prp (\<lambda>x. x\<lparr>p_pgidp := None, p_pglink := None, p_ppglink := None\<rparr>) st) (\<lambda>st.
     kbind (pid_at st pgp) (\<lambda>g.
       if pid_pglink g = None then PID_RELE st pgp
       else if \<not> pid_pgorphaned g then
         kbind (pg_any (length (procdir st)) st (pglinked st) (pid_pglink g)) (\<lambda>l.
           if l then KRet st else pid_upd pgp (\<lambda>x. x\<lparr>pid_pgorphaned := True\<rparr>) st)
       else KRet st))))))))"

text \<open>
  The walk of \<open>pgdetach\<close> over one group: \<open>None\<close> when a member keeps the group from being
  orphaned, and otherwise whether a member was stopped.  \<open>jobstopped\<close> looks at the threads of a
  process, which are not part of the state.
\<close>

definition SIGHUP :: int where
  "SIGHUP = 1"

definition SIGCONT :: int where
  "SIGCONT = 25"

fun pgdetach_group :: "(proc_ptr \<Rightarrow> bool) \<Rightarrow> proc_ptr \<Rightarrow> proc_ptr \<Rightarrow> pidsys \<Rightarrow> nat \<Rightarrow> proc_ptr \<Rightarrow> bool \<Rightarrow> bool option kres" where
  "pgdetach_group jobstopped curproc pp st 0 mp stopped = KFault"
| "pgdetach_group jobstopped curproc pp st (Suc n) mp stopped =
     kbind (proc_at st mp) (\<lambda>r.
     kbind (if mp \<noteq> pp \<and> p_parent r \<noteq> Some pp then pglinked st mp else KRet False) (\<lambda>l.
       if l then KRet None
       else
         let stopped = (if \<not> stopped \<and> mp \<noteq> curproc then jobstopped mp else stopped) in
         case p_pglink r of
           None \<Rightarrow> KRet (Some stopped)
         | Some m \<Rightarrow> pgdetach_group jobstopped curproc pp st n m stopped))"

fun pgdetach_loop :: "(proc_ptr \<Rightarrow> bool) \<Rightarrow> proc_ptr \<Rightarrow> proc_ptr \<Rightarrow> proc_ptr list \<Rightarrow> pidsys \<Rightarrow> pidsys kres" where
  "pgdetach_loop jobstopped curproc pp [] st = KRet st"
| "pgdetach_loop jobstopped curproc pp (cp # cs) st =
     kbind (proc_at st cp) (\<lambda>c.
     kbind (deref (p_pgidp c)) (\<lambda>pgp.
     kbind (pid_at st pgp) (\<lambda>g.
       if pid_pgorphaned g then pgdetach_loop jobstopped curproc pp cs st
       else
         kbind (deref (pid_pglink g)) (\<lambda>mp.
         kbind (pgdetach_group jobstopped curproc pp st (length (procdir st)) mp False) (\<lambda>res.
           case res of
             None \<Rightarrow> pgdetach_loop jobstopped curproc pp cs st
           | Some stopped \<Rightarrow>
               kbind (pid_upd pgp (\<lambda>x. x\<lparr>pid_pgorphaned := True\<rparr>) st) (\<lambda>st.
               kbind (if stopped then kbind (sigtopg pgp SIGHUP st) (sigtopg pgp SIGCONT) else KRet st)
                 (pgdetach_loop jobstopped curproc pp cs)))))))"

definition pgdetach :: "(proc_ptr \<Rightarrow> bool) \<Rightarrow> proc_ptr \<Rightarrow> proc_ptr \<Rightarrow> pidsys \<Rightarrow> pidsys kres" where
  "pgdetach jobstopped curproc pp st =
     kbind (proc_at st pp) (\<lambda>r. pgdetach_loop jobstopped curproc pp (p_child r) st)"

definition p_pid :: "pidsys \<Rightarrow> proc_ptr \<Rightarrow> pid_t kres" where
  "p_pid st p = kbind (proc_at st p) (\<lambda>r. kbind (deref (p_pidp r)) (\<lambda>a. kbind (pid_at st a) (\<lambda>x. KRet (pid_id x))))"

definition p_pgrp :: "pidsys \<Rightarrow> proc_ptr \<Rightarrow> pid_t kres" where
  "p_pgrp st p = kbind (proc_at st p) (\<lambda>r. kbind (deref (p_pgidp r)) (\<lambda>a. kbind (pid_at st a) (\<lambda>x. KRet (pid_id x))))"

definition pgmembers :: "pidsys \<Rightarrow> pid_t \<Rightarrow> bool kres" where
  "pgmembers st pgid =
     kbind (pgfind st pgid) (\<lambda>prp.
       pg_any (length (procdir st)) st (\<lambda>p. kbind (p_pid st p) (\<lambda>pid. KRet (pid \<noteq> pgid))) prp)"

section \<open>Sessions\<close>

definition SESS_HOLD :: "sess_ptr \<Rightarrow> pidsys \<Rightarrow> pidsys kres" where
  "SESS_HOLD sp st = sess_upd sp (\<lambda>x. x\<lparr>s_ref := s_ref x + 1\<rparr>) st"

definition sess_rele :: "sess_ptr \<Rightarrow> pidsys \<Rightarrow> pidsys kres" where
  "sess_rele sp st =
     (if sp = session0 then KPanic ''sp == &session0''
      else
        kbind (sess_at st sp) (\<lambda>x.
        kbind (PID_RELE st (s_sidp x)) (\<lambda>st. KRet (st\<lparr>ps_sess := (ps_sess st)(sp := None)\<rparr>))))"

text \<open>The count is an \<^verbatim>\<open>int\<close>, compared with 0 after it is decremented.\<close>

definition SESS_RELE :: "sess_ptr \<Rightarrow> pidsys \<Rightarrow> pidsys kres" where
  "SESS_RELE sp st =
     kbind (sess_upd sp (\<lambda>x. x\<lparr>s_ref := s_ref x - 1\<rparr>) st) (\<lambda>st.
     kbind (sess_at st sp) (\<lambda>x. if 0 < sint (s_ref x) then KRet st else sess_rele sp st))"

text \<open>\<open>sp\<close> is the address of the new structure.\<close>

definition sess_create :: "proc_ptr \<Rightarrow> sess_ptr \<Rightarrow> pidsys \<Rightarrow> pidsys kres" where
  "sess_create pp sp st =
     kbind (pgexit pp st) (\<lambda>st.
     kbind (proc_at st pp) (\<lambda>r.
     kbind (deref (p_sessp r)) (\<lambda>s.
     kbind (SESS_RELE s st) (\<lambda>st.
     kbind (deref (p_pidp r)) (\<lambda>a.
     kbind (proc_upd pp (\<lambda>r. r\<lparr>p_sessp := Some sp\<rparr>)
       (st\<lparr>ps_sess := (ps_sess st)(sp \<mapsto> \<lparr>s_ref = 1, s_sidp = a\<rparr>)\<rparr>)) (\<lambda>st.
     kbind (pgjoin pp a st) (\<lambda>st. PID_HOLD st a)))))))"

section \<open>The end of a process\<close>

definition pid_exit :: "proc_ptr \<Rightarrow> pidsys \<Rightarrow> pidsys kres" where
  "pid_exit prp st =
     kbind (proc_at st prp) (\<lambda>r.
     kbind (if p_pgidp r \<noteq> None then pgexit prp st else KRet st) (\<lambda>st.
     kbind (deref (p_sessp r)) (\<lambda>s.
     kbind (SESS_RELE s st) (\<lambda>st.
     kbind (deref (p_pidp r)) (\<lambda>pidp.
     kbind (proc_entry_free pidp st) (\<lambda>st.
     let st = (if practive st = Some prp then st\<lparr>practive := p_next r\<rparr> else st) in
     kbind (proc_upd_opt (p_next r) (\<lambda>x. x\<lparr>p_prev := p_prev r\<rparr>) st) (\<lambda>st.
     kbind (proc_upd_opt (p_prev r) (\<lambda>x. x\<lparr>p_next := p_next r\<rparr>) st) (\<lambda>st.
     kbind (PID_RELE st pidp) (\<lambda>st.
       KRet (st\<lparr>ps_procs := (ps_procs st)(prp := None), nproc := nproc st - 1\<rparr>))))))))))"

text \<open>
  The part of \<^verbatim>\<open>freeproc\<close> that takes a process out of the list of children of its parent; what it
  does for accounting, credentials and the list of changed states has no counterpart.
\<close>

definition freeproc :: "proc_ptr \<Rightarrow> pidsys \<Rightarrow> pidsys kres" where
  "freeproc p st =
     kbind (proc_at st p) (\<lambda>r.
     kbind (deref (p_parent r)) (\<lambda>q.
     kbind (proc_upd q (\<lambda>x. x\<lparr>p_child := remove1 p (p_child x)\<rparr>) st) (pid_exit p)))"

definition STRC :: uint_t where
  "STRC = 0x2"

definition SIGKILL :: int where
  "SIGKILL = 9"

fun reparent_loop :: "proc_ptr \<Rightarrow> proc_ptr list \<Rightarrow> pidsys \<Rightarrow> pidsys kres" where
  "reparent_loop initp [] st = KRet st"
| "reparent_loop initp (q # qs) st =
     kbind (proc_upd q (\<lambda>r. r\<lparr>p_parent := Some initp\<rparr>) st) (\<lambda>st.
     kbind (proc_upd initp (\<lambda>r. r\<lparr>p_child := q # p_child r\<rparr>) st) (\<lambda>st.
     kbind (proc_at st q) (\<lambda>r.
     kbind (if p_flag r AND STRC \<noteq> 0 then sigtoproc q SIGKILL st else KRet st) (reparent_loop initp qs))))"

text \<open>
  The part of \<^verbatim>\<open>exit\<close> that gives the children to \<^verbatim>\<open>init\<close> and makes the process a zombie.
\<close>

definition exit_links :: "(proc_ptr \<Rightarrow> bool) \<Rightarrow> proc_ptr \<Rightarrow> proc_ptr \<Rightarrow> pidsys \<Rightarrow> pidsys kres" where
  "exit_links jobstopped proc_init p st =
     kbind (proc_at st p) (\<lambda>r.
     kbind (if p_child r \<noteq> [] \<and> p \<noteq> proc_init then
              kbind (pgdetach jobstopped p p st) (\<lambda>st.
              kbind (reparent_loop proc_init (p_child r) st) (\<lambda>st. proc_upd p (\<lambda>r. r\<lparr>p_child := []\<rparr>) st))
            else KRet st) (\<lambda>st.
       proc_upd p (\<lambda>r. r\<lparr>p_stat := SZOMB, p_flag := p_flag r AND NOT STRC\<rparr>) st))"

section \<open>The start of a process\<close>

text \<open>A cleared structure.\<close>

definition zero_proc :: proc_t where
  "zero_proc = \<lparr>p_stat = SSLEEP, p_flag = 0, p_pidp = None, p_lockp = 0, p_next = None, p_prev = None,
     p_pgidp = None, p_pglink = None, p_ppglink = None, p_sessp = None, p_parent = None, p_child = []\<rparr>"

text \<open>
  The structures that are part of the kernel image, and process 0 as \<^verbatim>\<open>kern_setup1\<close> sets it up
  before it calls \<open>pid_init\<close>.
\<close>

definition SLOAD :: uint_t where
  "SLOAD = 0x8"

definition SSYS :: uint_t where
  "SSYS = 0x1"

definition SLOCK :: uint_t where
  "SLOCK = 0x10"

definition SULOAD :: uint_t where
  "SULOAD = 0x200"

definition kernel_image :: "pid_t \<Rightarrow> pidsys" where
  "kernel_image maxp =
     \<lparr>ps_pids = [pid0 \<mapsto> \<lparr>pid_prinactive = False, pid_pgorphaned = True, pid_prslot = 0, pid_id = 0, pid_pglink = None, pid_ref = 3\<rparr>],
      ps_procs = [p0 \<mapsto> zero_proc], ps_sess = [session0 \<mapsto> \<lparr>s_ref = 1, s_sidp = pid0\<rparr>],
      pid_hashsz = 0, pidhash = [], procdir = [], procentfree = None, minpid = 0, mpid = 0, maxpid = maxp,
      practive = None, nproc = 0, ps_sigs = []\<rparr>"

definition kern_setup1 :: "bool \<Rightarrow> nat \<Rightarrow> pidsys \<Rightarrow> pidsys kres" where
  "kern_setup1 alloc v_proc st =
     kbind (proc_upd p0 (\<lambda>r. r\<lparr>p_stat := SRUN, p_flag := SLOAD OR SSYS OR SLOCK OR SULOAD,
       p_pidp := Some pid0, p_pgidp := Some pid0, p_sessp := Some session0\<rparr>) st) (\<lambda>st.
     kbind (pid_upd pid0 (\<lambda>x. x\<lparr>pid_pglink := Some p0\<rparr>) st) (pid_init alloc v_proc))"

text \<open>
  \<^verbatim>\<open>getproc\<close> in three parts: up to the assignment of the id; the links of the new process, made
  under \<^verbatim>\<open>pidlock\<close>; and the end of an attempt refused for the limits on processes per user.
\<close>

definition getproc_assign :: "proc_ptr \<Rightarrow> pid_ptr \<Rightarrow> pidsys \<Rightarrow> (pid_t option \<times> pidsys) kres option" where
  "getproc_assign cp pidp st =
     map_option (\<lambda>m. kbind m (\<lambda>(newpid, st).
       KRet (newpid, if newpid = None then st\<lparr>ps_procs := (ps_procs st)(cp := None)\<rparr> else st)))
       (pid_assign pidp cp (st\<lparr>ps_procs := (ps_procs st)(cp \<mapsto> zero_proc\<lparr>p_stat := SIDL\<rparr>)\<rparr>))"

definition getproc_bad :: "proc_ptr \<Rightarrow> pidsys \<Rightarrow> pidsys kres" where
  "getproc_bad cp st =
     kbind (proc_at st cp) (\<lambda>r.
     kbind (deref (p_pidp r)) (\<lambda>a.
     kbind (proc_entry_free a st) (\<lambda>st.
     kbind (pid_rele a st) (\<lambda>st. KRet (st\<lparr>ps_procs := (ps_procs st)(cp := None)\<rparr>)))))"

definition getproc_link :: "proc_ptr \<Rightarrow> proc_ptr \<Rightarrow> pidsys \<Rightarrow> pidsys kres" where
  "getproc_link pp cp st =
     kbind (proc_upd cp (\<lambda>r. r\<lparr>p_next := practive st\<rparr>) (st\<lparr>nproc := nproc st + 1\<rparr>)) (\<lambda>st.
     kbind (deref (practive st)) (\<lambda>q.
     kbind (proc_upd q (\<lambda>r. r\<lparr>p_prev := Some cp\<rparr>) st) (\<lambda>st.
     let st = st\<lparr>practive := Some cp\<rparr> in
     kbind (proc_at st pp) (\<lambda>r.
     kbind (proc_upd cp (\<lambda>c. c\<lparr>p_sessp := p_sessp r\<rparr>) st) (\<lambda>st.
     kbind (deref (p_sessp r)) (\<lambda>s.
     kbind (SESS_HOLD s st) (\<lambda>st.
     kbind (proc_upd cp (\<lambda>c. c\<lparr>p_parent := Some pp\<rparr>) st)
       (proc_upd pp (\<lambda>r. r\<lparr>p_child := cp # p_child r\<rparr>)))))))))"

text \<open>
  What \<^verbatim>\<open>cfork\<close> does for the group of the child, and how it gives up a child that is not complete:
  the children of the parent become those that \<^verbatim>\<open>p_sibling\<close> of the child leads to.
\<close>

definition fork_join :: "proc_ptr \<Rightarrow> proc_ptr \<Rightarrow> pidsys \<Rightarrow> pidsys kres" where
  "fork_join p cp st =
     kbind (proc_at st p) (\<lambda>r.
     kbind (deref (p_pgidp r)) (\<lambda>a.
     kbind (pgjoin cp a st) (\<lambda>st. proc_upd cp (\<lambda>c. c\<lparr>p_stat := SRUN\<rparr>) st)))"

definition siblings_after :: "proc_ptr \<Rightarrow> proc_ptr list \<Rightarrow> proc_ptr list" where
  "siblings_after cp cs = tl (dropWhile (\<lambda>q. q \<noteq> cp) cs)"

definition fork_abort :: "proc_ptr \<Rightarrow> proc_ptr \<Rightarrow> pidsys \<Rightarrow> pidsys kres" where
  "fork_abort p cp st =
     kbind (proc_upd p (\<lambda>r. r\<lparr>p_child := siblings_after cp (p_child r)\<rparr>) st) (pid_exit cp)"

section \<open>The system call\<close>

definition SEXECED :: uint_t where
  "SEXECED = 0x4000"

definition s_sid :: "pidsys \<Rightarrow> proc_ptr \<Rightarrow> pid_t kres" where
  "s_sid st p =
     kbind (proc_at st p) (\<lambda>r. kbind (deref (p_sessp r)) (\<lambda>s. kbind (sess_at st s) (\<lambda>x.
     kbind (pid_at st (s_sidp x)) (\<lambda>y. KRet (pid_id y)))))"

type_synonym pg_result = "((errno + pid_t) \<times> pidsys) kres"

definition bad_pid :: "pidsys \<Rightarrow> pid_t \<Rightarrow> bool" where
  "bad_pid st pid \<longleftrightarrow> sint pid < 0 \<or> sint (maxpid st) \<le> sint pid"

text \<open>\<open>sp\<close> is the address of the session that the call may allocate.\<close>

definition setpgrp_call :: "proc_ptr \<Rightarrow> sess_ptr \<Rightarrow> pidsys \<Rightarrow> pg_result" where
  "setpgrp_call p sp st =
     kbind (proc_at st p) (\<lambda>r.
     kbind (deref (p_sessp r)) (\<lambda>s.
     kbind (sess_at st s) (\<lambda>x.
     kbind (p_pid st p) (\<lambda>pid.
     kbind (if Some (s_sidp x) \<noteq> p_pidp r then pgmembers st pid else KRet True) (\<lambda>stay.
     kbind (if \<not> stay then sess_create p sp st else KRet st) (\<lambda>st.
     kbind (s_sid st p) (\<lambda>sid. KRet (Inr sid, st))))))))"

definition setsid_call :: "proc_ptr \<Rightarrow> sess_ptr \<Rightarrow> pidsys \<Rightarrow> pg_result" where
  "setsid_call p sp st =
     kbind (proc_at st p) (\<lambda>r.
     kbind (p_pid st p) (\<lambda>pid.
     kbind (if p_pgidp r = p_pidp r then KRet True else pgmembers st pid) (\<lambda>eperm.
       if eperm then KRet (Inl EPERM, st)
       else kbind (sess_create p sp st) (\<lambda>st. kbind (s_sid st p) (\<lambda>sid. KRet (Inr sid, st))))))"

fun find_child :: "pidsys \<Rightarrow> pid_t \<Rightarrow> proc_ptr list \<Rightarrow> proc_ptr option kres" where
  "find_child st pid [] = KRet None"
| "find_child st pid (c # cs) = kbind (p_pid st c) (\<lambda>i. if i = pid then KRet (Some c) else find_child st pid cs)"

text \<open>The part of \<open>setpgid\<close> that finds the process: an error, or the process and its id.\<close>

definition setpgid_target :: "proc_ptr \<Rightarrow> pid_t \<Rightarrow> pidsys \<Rightarrow> (errno + proc_ptr \<times> pid_t) kres" where
  "setpgid_target p pid st =
     kbind (p_pid st p) (\<lambda>mypid.
       if pid = 0 then KRet (Inr (p, mypid))
       else if bad_pid st pid then KRet (Inl EINVAL)
       else if pid \<noteq> mypid then
         kbind (proc_at st p) (\<lambda>r.
         kbind (find_child st pid (p_child r)) (\<lambda>c.
           case c of
             None \<Rightarrow> KRet (Inl ESRCH)
           | Some c \<Rightarrow>
               kbind (proc_at st c) (\<lambda>cr.
                 if p_flag cr AND SEXECED \<noteq> 0 then KRet (Inl EACCES)
                 else if p_sessp cr \<noteq> p_sessp r then KRet (Inl EPERM)
                 else KRet (Inr (c, pid)))))
       else KRet (Inr (p, pid)))"

definition setpgid_call :: "proc_ptr \<Rightarrow> pid_t \<Rightarrow> pid_t \<Rightarrow> pidsys \<Rightarrow> pg_result" where
  "setpgid_call p pid pgid st =
     kbind (setpgid_target p pid st) (\<lambda>t.
       case t of
         Inl e \<Rightarrow> KRet (Inl e, st)
       | Inr (p, pid) \<Rightarrow>
           kbind (s_sid st p) (\<lambda>sid.
           if sid = pid then KRet (Inl EPERM, st)
           else
             kbind (p_pid st p) (\<lambda>mypid.
             if pgid \<noteq> 0 \<and> bad_pid st pgid then KRet (Inl EINVAL, st)
             else
               let pgid = (if pgid = 0 then mypid else pgid) in
               kbind (p_pgrp st p) (\<lambda>pgrp.
               if pgrp = pgid then KRet (Inr 0, st)
               else
                 kbind (proc_at st p) (\<lambda>r.
                 if mypid = pgid then
                   kbind (deref (p_pidp r)) (\<lambda>a.
                   kbind (pgexit p st) (\<lambda>st. kbind (pgjoin p a st) (\<lambda>st. KRet (Inr 0, st))))
                 else
                   kbind (pgfind st pgid) (\<lambda>q.
                   case q of
                     None \<Rightarrow> KRet (Inl EPERM, st)
                   | Some q \<Rightarrow>
                       kbind (proc_at st q) (\<lambda>qr.
                       if p_sessp qr \<noteq> p_sessp r then KRet (Inl EPERM, st)
                       else
                         kbind (pgexit p st) (\<lambda>st.
                         kbind (proc_at st q) (\<lambda>qr.
                         kbind (deref (p_pgidp qr)) (\<lambda>a.
                         kbind (pgjoin p a st) (\<lambda>st. KRet (Inr 0, st))))))))))))"

definition getid_call :: "bool \<Rightarrow> proc_ptr \<Rightarrow> pid_t \<Rightarrow> pidsys \<Rightarrow> pg_result" where
  "getid_call sid p pid st =
     (if bad_pid st pid then KRet (Inl EINVAL, st)
      else
        kbind (p_pid st p) (\<lambda>mypid.
        kbind (if pid \<noteq> 0 \<and> mypid \<noteq> pid then prfind st pid else KRet (Some p)) (\<lambda>q.
          case q of
            None \<Rightarrow> KRet (Inl ESRCH, st)
          | Some q \<Rightarrow> kbind (if sid then s_sid st q else p_pgrp st q) (\<lambda>i. KRet (Inr i, st)))))"

definition setpgrp :: "proc_ptr \<Rightarrow> sess_ptr \<Rightarrow> int \<Rightarrow> pid_t \<Rightarrow> pid_t \<Rightarrow> pidsys \<Rightarrow> pg_result" where
  "setpgrp p sp flag pid pgid st =
     (if flag = 1 then setpgrp_call p sp st
      else if flag = 3 then setsid_call p sp st
      else if flag = 5 then setpgid_call p pid pgid st
      else if flag = 0 then kbind (p_pgrp st p) (\<lambda>i. KRet (Inr i, st))
      else if flag = 2 then getid_call True p pid st
      else if flag = 4 then getid_call False p pid st
      else KRet (Inr 0, st))"

end
