(* ===== verification/Pid_Table.thy ===== *)
theory Pid_Table
  imports Pid
begin

text \<open>
  The table of process ids of \<^verbatim>\<open>Pid\<close>: the hash table finds a structure by its id, the counts are
  the numbers of holders, and the search for a new id ends whenever one is free.
\<close>

section \<open>The hash table\<close>

definition hash_ok :: "pidsys \<Rightarrow> bool" where
  "hash_ok st \<longleftrightarrow> (\<forall>pid. HASHPID st pid < length (pidhash st)) \<and>
     (\<forall>i < length (pidhash st). distinct (pidhash st ! i)) \<and>
     (\<forall>i < length (pidhash st). \<forall>a. a \<in> set (pidhash st ! i) \<longleftrightarrow> (\<exists>x. ps_pids st a = Some x \<and> HASHPID st (pid_id x) = i)) \<and>
     (\<forall>a b x y. ps_pids st a = Some x \<longrightarrow> ps_pids st b = Some y \<longrightarrow> pid_id x = pid_id y \<longrightarrow> a = b)"

lemma hash_okI:
  assumes "\<And>pid. HASHPID st pid < length (pidhash st)" "\<And>i. i < length (pidhash st) \<Longrightarrow> distinct (pidhash st ! i)"
    "\<And>i a. i < length (pidhash st) \<Longrightarrow> a \<in> set (pidhash st ! i) \<longleftrightarrow> (\<exists>x. ps_pids st a = Some x \<and> HASHPID st (pid_id x) = i)"
    "\<And>a b x y. ps_pids st a = Some x \<Longrightarrow> ps_pids st b = Some y \<Longrightarrow> pid_id x = pid_id y \<Longrightarrow> a = b"
  shows "hash_ok st"
  using assms unfolding hash_ok_def by blast

lemma hash_okD:
  assumes "hash_ok st"
  shows "HASHPID st pid < length (pidhash st)" "i < length (pidhash st) \<Longrightarrow> distinct (pidhash st ! i)"
    "i < length (pidhash st) \<Longrightarrow> a \<in> set (pidhash st ! i) \<longleftrightarrow> (\<exists>x. ps_pids st a = Some x \<and> HASHPID st (pid_id x) = i)"
    "ps_pids st a = Some x \<Longrightarrow> ps_pids st b = Some y \<Longrightarrow> pid_id x = pid_id y \<Longrightarrow> a = b"
  using assms unfolding hash_ok_def by blast+

lemma HASHPID_frame: "pid_hashsz st' = pid_hashsz st \<Longrightarrow> HASHPID st' pid = HASHPID st pid"
  by (simp add: HASHPID_def)

lemma pid_chain_ok: "hash_ok st \<Longrightarrow> pid_chain st pid = KRet (pidhash st ! HASHPID st pid)"
  using hash_okD(1) [of st pid] by (simp add: pid_chain_def Let_def)

definition pid_free :: "pidsys \<Rightarrow> pid_t \<Rightarrow> bool" where
  "pid_free st q \<longleftrightarrow> (\<forall>a x. ps_pids st a = Some x \<longrightarrow> pid_id x \<noteq> q)"

lemma pid_scan_ok:
  "\<forall>a \<in> set c. ps_pids st a \<noteq> None \<Longrightarrow>
   (\<exists>a \<in> set c. \<exists>x. ps_pids st a = Some x \<and> pid_id x = pid \<and> pid_scan st pid c = KRet (Some a)) \<or>
   ((\<forall>a \<in> set c. \<forall>x. ps_pids st a = Some x \<longrightarrow> pid_id x \<noteq> pid) \<and> pid_scan st pid c = KRet None)"
proof (induction c)
  case (Cons b c)
  then obtain y where "ps_pids st b = Some y" by auto
  then show ?case using Cons by (auto simp: pid_at_def)
qed simp

lemma pid_lookup_cases:
  assumes "hash_ok st"
  shows "(\<exists>a x. ps_pids st a = Some x \<and> pid_id x = pid \<and> pid_lookup st pid = KRet (Some a)) \<or>
    (pid_free st pid \<and> pid_lookup st pid = KRet None)"
proof -
  let ?c = "pidhash st ! HASHPID st pid"
  have m: "a \<in> set ?c \<longleftrightarrow> (\<exists>x. ps_pids st a = Some x \<and> HASHPID st (pid_id x) = HASHPID st pid)" for a
    using hash_okD(1,3) [OF assms] by blast
  have "\<forall>a \<in> set ?c. ps_pids st a \<noteq> None" using m by blast
  from pid_scan_ok [OF this, of pid] show ?thesis
    unfolding pid_lookup_def pid_chain_ok [OF assms] kbind.simps pid_free_def using m by blast
qed

lemma pid_lookup_found:
  assumes "hash_ok st" "ps_pids st a = Some x"
  shows "pid_lookup st (pid_id x) = KRet (Some a)"
  using pid_lookup_cases [OF assms(1), of "pid_id x"] hash_okD(4) [OF assms(1)] assms(2) unfolding pid_free_def by blast

lemma pid_lookup_free: "hash_ok st \<Longrightarrow> pid_lookup st q = KRet None \<longleftrightarrow> pid_free st q"
  using pid_lookup_cases [of st q] unfolding pid_free_def by auto

section \<open>The search for a new id\<close>

definition pid_range :: "pidsys \<Rightarrow> pid_t \<Rightarrow> bool" where
  "pid_range st q \<longleftrightarrow> minpid st \<le> q \<and> q < maxpid st"

definition mpid_ok :: "pidsys \<Rightarrow> pid_t \<Rightarrow> bool" where
  "mpid_ok st m \<longleftrightarrow> minpid st < maxpid st \<and> unat (minpid st) \<le> unat m + 1 \<and> m < maxpid st"

text \<open>The number of candidates that the search tries from \<open>m\<close> up to \<open>q\<close>.\<close>

definition pid_dist :: "pidsys \<Rightarrow> pid_t \<Rightarrow> pid_t \<Rightarrow> nat" where
  "pid_dist st m q = (if m < q then unat q - unat m else unat (maxpid st) - unat m + (unat q - unat (minpid st)))"

lemma unat_Suc_less: "(m :: 32 word) < n \<Longrightarrow> unat (m + 1) = unat m + 1"
  using unat_bound [of n] by (subst unat_add_no_wrap) (auto simp: word_less_nat_alt)

lemma next_pid_range:
  assumes "mpid_ok st m"
  shows "pid_range st (next_pid st m)" "mpid_ok st (next_pid st m)"
proof -
  have s: "unat (m + 1) = unat m + 1" and mm: "unat m < unat (maxpid st)" "minpid st < maxpid st" "unat (minpid st) \<le> unat m + 1"
    using assms unat_Suc_less [of m "maxpid st"] by (auto simp: mpid_ok_def word_less_nat_alt)
  show "pid_range st (next_pid st m)"
  proof (cases "m + 1 = maxpid st")
    case True
    then show ?thesis using mm by (simp add: next_pid_def pid_range_def)
  next
    case False
    then have "unat (m + 1) \<noteq> unat (maxpid st)" by (simp add: word_unat_eq_iff)
    then show ?thesis using False s mm by (simp add: next_pid_def pid_range_def word_less_nat_alt word_le_nat_alt)
  qed
  then show "mpid_ok st (next_pid st m)" using mm by (auto simp: mpid_ok_def pid_range_def word_le_nat_alt)
qed

lemma pid_dist_next:
  assumes "mpid_ok st m" "pid_range st q"
  shows "pid_dist st m q = (if next_pid st m = q then 1 else Suc (pid_dist st (next_pid st m) q))"
proof -
  have s: "unat (m + 1) = unat m + 1" using assms(1) unat_Suc_less [of m "maxpid st"] by (auto simp: mpid_ok_def)
  have n: "unat (next_pid st m) = (if unat m + 1 = unat (maxpid st) then unat (minpid st) else unat m + 1)"
    using s by (auto simp: next_pid_def word_unat_eq_iff)
  have r: "unat (minpid st) \<le> unat q" "unat q < unat (maxpid st)" "unat m < unat (maxpid st)" "unat (minpid st) \<le> unat m + 1"
    using assms by (auto simp: mpid_ok_def pid_range_def word_less_nat_alt word_le_nat_alt)
  show ?thesis unfolding pid_dist_def word_less_nat_alt word_unat_eq_iff n using r by auto
qed

lemma pid_dist_pos: "mpid_ok st m \<Longrightarrow> pid_range st q \<Longrightarrow> 1 \<le> pid_dist st m q"
  by (simp add: pid_dist_next)

lemma pid_search_step:
  assumes "hash_ok st"
  shows "pid_search st m = (if pid_free st (next_pid st m) then Some (KRet (next_pid st m)) else pid_search st (next_pid st m))"
  using pid_lookup_cases [OF assms, of "next_pid st m"] pid_lookup_free [OF assms, of "next_pid st m"]
  by (subst pid_search.simps) (auto simp: Let_def)

lemma pid_search_finds:
  assumes "hash_ok st"
  shows "mpid_ok st m \<Longrightarrow> pid_range st q \<Longrightarrow> pid_free st q \<Longrightarrow>
    \<exists>r. pid_search st m = Some (KRet r) \<and> pid_range st r \<and> pid_free st r \<and>
      (\<forall>q. pid_range st q \<and> pid_free st q \<longrightarrow> pid_dist st m r \<le> pid_dist st m q)"
proof (induction "pid_dist st m q" arbitrary: m rule: less_induct)
  case less
  let ?n = "next_pid st m"
  note nr = next_pid_range [OF less.prems(1)]
  show ?case
  proof (cases "pid_free st ?n")
    case True
    have "pid_dist st m ?n = 1" using pid_dist_next [OF less.prems(1) nr(1)] by simp
    then have "pid_search st m = Some (KRet ?n) \<and> (\<forall>q. pid_range st q \<and> pid_free st q \<longrightarrow> pid_dist st m ?n \<le> pid_dist st m q)"
      using pid_search_step [OF assms, of m] True pid_dist_pos [OF less.prems(1)] by simp
    then show ?thesis using True nr(1) by blast
  next
    case False
    have ne: "?n \<noteq> q'" if "pid_free st q'" for q' using False that by blast
    have d: "pid_dist st m q' = Suc (pid_dist st ?n q')" if "pid_range st q'" "pid_free st q'" for q'
      using pid_dist_next [OF less.prems(1) that(1)] ne [OF that(2)] by simp
    have lt: "pid_dist st ?n q < pid_dist st m q" using d [OF less.prems(2,3)] by simp
    obtain r where r: "pid_search st ?n = Some (KRet r)" "pid_range st r" "pid_free st r"
      "\<forall>q. pid_range st q \<and> pid_free st q \<longrightarrow> pid_dist st ?n r \<le> pid_dist st ?n q"
      using less.hyps [OF lt nr(2) less.prems(2,3)] by blast
    have "\<forall>q. pid_range st q \<and> pid_free st q \<longrightarrow> pid_dist st m r \<le> pid_dist st m q" using d r(2-4) by simp
    then show ?thesis using pid_search_step [OF assms, of m] False r(1-3) by auto
  qed
qed

lemma pid_search_some_free:
  assumes "pid_search st m = Some y"
  shows "hash_ok st \<longrightarrow> mpid_ok st m \<longrightarrow> (\<exists>q. pid_range st q \<and> pid_free st q)"
proof (rule pid_search.raw_induct [OF _ assms])
  fix search st m y
  assume IH: "\<And>st m y. search st m = Some y \<Longrightarrow> hash_ok st \<longrightarrow> mpid_ok st m \<longrightarrow> (\<exists>q. pid_range st q \<and> pid_free st q)"
    and eq: "(let newpid = next_pid st m in case pid_lookup st newpid of KRet None \<Rightarrow> Some (KRet newpid)
      | KRet (Some a) \<Rightarrow> search st newpid | KPanic s \<Rightarrow> Some (KPanic s) | KFault \<Rightarrow> Some KFault) = Some y"
  show "hash_ok st \<longrightarrow> mpid_ok st m \<longrightarrow> (\<exists>q. pid_range st q \<and> pid_free st q)"
  proof (intro impI)
    assume h: "hash_ok st" and m: "mpid_ok st m"
    note nr = next_pid_range [OF m]
    show "\<exists>q. pid_range st q \<and> pid_free st q"
    proof (cases "pid_free st (next_pid st m)")
      case True
      then show ?thesis using nr(1) by blast
    next
      case False
      then obtain a where "pid_lookup st (next_pid st m) = KRet (Some a)"
        using pid_lookup_cases [OF h, of "next_pid st m"] by blast
      then have "search st (next_pid st m) = Some y" using eq by (simp add: Let_def)
      then show ?thesis using IH h nr(2) by blast
    qed
  qed
qed

text \<open>The search ends exactly when an id of the range is free.\<close>

lemma pid_search_ends_iff:
  assumes "hash_ok st" "mpid_ok st m"
  shows "pid_search st m \<noteq> None \<longleftrightarrow> (\<exists>q. pid_range st q \<and> pid_free st q)"
  using pid_search_some_free [of st m] pid_search_finds [OF assms(1,2)] assms by fastforce

section \<open>Holders\<close>

definition pid_refs :: "pidsys \<Rightarrow> pid_ptr multiset \<Rightarrow> bool" where
  "pid_refs st M \<longleftrightarrow> hash_ok st \<and>
     (\<forall>a. case ps_pids st a of
        None \<Rightarrow> a \<notin># M
      | Some x \<Rightarrow> a \<in># M \<and> count M a < 2 ^ 32 \<and> unat (pid_ref x) = count M a)"

text \<open>A structure without its count.\<close>

definition pid_val :: "pidsys \<Rightarrow> pid_ptr \<Rightarrow> pid option" where
  "pid_val st a = map_option (\<lambda>x. x\<lparr>pid_ref := 0\<rparr>) (ps_pids st a)"

definition rest_fields :: "pidsys \<Rightarrow> pidsys \<Rightarrow> bool" where
  "rest_fields st st' \<longleftrightarrow>
     ps_sess st' = ps_sess st \<and> procdir st' = procdir st \<and> procentfree st' = procentfree st \<and> minpid st' = minpid st \<and>
     mpid st' = mpid st \<and> maxpid st' = maxpid st \<and> practive st' = practive st \<and> nproc st' = nproc st \<and>
     ps_sigs st' = ps_sigs st \<and> pid_hashsz st' = pid_hashsz st"

text \<open>Two states that differ in the table of process ids only.\<close>

definition same_rest :: "pidsys \<Rightarrow> pidsys \<Rightarrow> bool" where
  "same_rest st st' \<longleftrightarrow> ps_procs st' = ps_procs st \<and> rest_fields st st'"

lemma rest_fieldsD:
  assumes "rest_fields st st'"
  shows "ps_sess st' = ps_sess st" "procdir st' = procdir st" "procentfree st' = procentfree st" "minpid st' = minpid st" "mpid st' = mpid st" "maxpid st' = maxpid st" "practive st' = practive st" "nproc st' = nproc st" "ps_sigs st' = ps_sigs st" "pid_hashsz st' = pid_hashsz st"
  using assms by (simp_all add: rest_fields_def)

lemma rest_fields_trans: "rest_fields st1 st2 \<Longrightarrow> rest_fields st2 st3 \<Longrightarrow> rest_fields st1 st3"
  by (simp add: rest_fields_def)

lemma same_restD: "same_rest st st' \<Longrightarrow> ps_procs st' = ps_procs st" "same_rest st st' \<Longrightarrow> rest_fields st st'"
  by (simp_all add: same_rest_def)

lemma same_rest_upd: "same_rest st (st\<lparr>ps_pids := P\<rparr>)" "same_rest st (st\<lparr>ps_pids := P, pidhash := H\<rparr>)"
  by (simp_all add: same_rest_def rest_fields_def)

lemma pid_refsD:
  assumes "pid_refs st M"
  shows "hash_ok st" "ps_pids st a = Some x \<Longrightarrow> a \<in># M \<and> count M a < 2 ^ 32 \<and> unat (pid_ref x) = count M a"
    "a \<in># M \<Longrightarrow> \<exists>x. ps_pids st a = Some x" "ps_pids st a = None \<Longrightarrow> a \<notin># M"
  using assms unfolding pid_refs_def by (fastforce split: option.splits)+

lemma pid_refsI:
  assumes "hash_ok st" "\<And>a x. ps_pids st a = Some x \<Longrightarrow> a \<in># M \<and> count M a < 2 ^ 32 \<and> unat (pid_ref x) = count M a"
    "\<And>a. ps_pids st a = None \<Longrightarrow> a \<notin># M"
  shows "pid_refs st M"
  using assms unfolding pid_refs_def by (auto split: option.splits)

text \<open>An update that keeps the id keeps the table in order.\<close>

lemma hash_ok_update:
  assumes "hash_ok st" "ps_pids st a = Some x" "pid_id y = pid_id x"
  shows "hash_ok (st\<lparr>ps_pids := (ps_pids st)(a \<mapsto> y)\<rparr>)"
proof (rule hash_okI)
  let ?st = "st\<lparr>ps_pids := (ps_pids st)(a \<mapsto> y)\<rparr>"
  have e: "HASHPID ?st q = HASHPID st q" for q by (simp add: HASHPID_def)
  show "HASHPID ?st q < length (pidhash ?st)" for q using hash_okD(1) [OF assms(1)] by (simp add: e)
  show "distinct (pidhash ?st ! i)" if "i < length (pidhash ?st)" for i using hash_okD(2) [OF assms(1)] that by simp
  show "b \<in> set (pidhash ?st ! i) \<longleftrightarrow> (\<exists>z. ps_pids ?st b = Some z \<and> HASHPID ?st (pid_id z) = i)" if "i < length (pidhash ?st)" for i b
    using hash_okD(3) [OF assms(1), of i b] that assms(2,3) by (simp add: e)
  show "b = c" if "ps_pids ?st b = Some z" "ps_pids ?st c = Some w" "pid_id z = pid_id w" for b c z w
    using hash_okD(4) [OF assms(1)] that assms(2,3) by (auto split: if_splits)
qed

lemma pid_upd_ok:
  assumes "pid_refs st M" "ps_pids st a = Some x" "pid_id (f x) = pid_id x" "pid_ref (f x) = pid_ref x"
  shows "pid_upd a f st = KRet (st\<lparr>ps_pids := (ps_pids st)(a \<mapsto> f x)\<rparr>)" "pid_refs (st\<lparr>ps_pids := (ps_pids st)(a \<mapsto> f x)\<rparr>) M"
  using assms hash_ok_update [OF pid_refsD(1) [OF assms(1)] assms(2,3)] pid_refsD(2) [OF assms(1)]
  by (auto simp: pid_upd_def pid_at_def pid_refs_def split: option.splits)

lemma PID_HOLD_ok:
  assumes "pid_refs st M" "a \<in># M" "count M a + 1 < 2 ^ 32"
  shows "\<exists>st'. PID_HOLD st a = KRet st' \<and> pid_refs st' (M + {#a#}) \<and> pid_val st' = pid_val st \<and> same_rest st st'"
proof -
  obtain x where x: "ps_pids st a = Some x" using pid_refsD(3) [OF assms(1,2)] by blast
  let ?st = "st\<lparr>ps_pids := (ps_pids st)(a \<mapsto> x\<lparr>pid_ref := pid_ref x + 1\<rparr>)\<rparr>"
  have "unat (pid_ref x) = count M a" using pid_refsD(2) [OF assms(1) x] by simp
  then have u: "unat (pid_ref x + 1) = count M a + 1" using assms(3) by (subst unat_add_no_wrap) auto
  have h: "hash_ok ?st" by (rule hash_ok_update [OF pid_refsD(1) [OF assms(1)] x]) simp
  have "pid_refs ?st (M + {#a#})"
  proof (rule pid_refsI [OF h])
    show "b \<in># M + {#a#} \<and> count (M + {#a#}) b < 2 ^ 32 \<and> unat (pid_ref y) = count (M + {#a#}) b" if "ps_pids ?st b = Some y" for b y
      using that u assms(3) pid_refsD(2) [OF assms(1), of b y] by (cases "b = a") auto
    show "b \<notin># M + {#a#}" if "ps_pids ?st b = None" for b
      using that pid_refsD(4) [OF assms(1), of b] by (cases "b = a") auto
  qed
  moreover have "pid_val ?st = pid_val st" using x by (auto simp: pid_val_def fun_eq_iff)
  ultimately show ?thesis using x same_rest_upd(1) by (auto simp: PID_HOLD_def pid_upd_def pid_at_def)
qed

lemma pid_unlink_ok: "a \<in> set c \<Longrightarrow> pid_unlink a c = KRet (remove1 a c)"
  by (induction c) auto

text \<open>Freeing a structure takes it out of its chain.\<close>

lemma pid_rele_ok:
  assumes "hash_ok st" "ps_pids st a = Some x"
  shows "\<exists>st'. pid_rele a st = KRet st' \<and> hash_ok st' \<and> ps_pids st' = (ps_pids st)(a := None) \<and> same_rest st st'"
proof -
  let ?i = "HASHPID st (pid_id x)"
  let ?st = "st\<lparr>ps_pids := (ps_pids st)(a := None), pidhash := (pidhash st)[?i := remove1 a (pidhash st ! ?i)]\<rparr>"
  have i: "?i < length (pidhash st)" by (rule hash_okD(1) [OF assms(1)])
  have "a \<in> set (pidhash st ! ?i)" using hash_okD(3) [OF assms(1) i] assms(2) by blast
  then have run: "pid_rele a st = KRet ?st" using assms(2)
    by (simp add: pid_rele_def pid_at_def pid_chain_ok [OF assms(1)] pid_unlink_ok pid_chain_put_def Let_def)
  have e: "HASHPID ?st q = HASHPID st q" for q by (simp add: HASHPID_def)
  have "hash_ok ?st"
  proof (rule hash_okI)
    show "HASHPID ?st q < length (pidhash ?st)" for q using hash_okD(1) [OF assms(1)] by (simp add: e)
    show "distinct (pidhash ?st ! j)" if "j < length (pidhash ?st)" for j
      using hash_okD(2) [OF assms(1), of j] that by (cases "j = ?i") auto
    show "b \<in> set (pidhash ?st ! j) \<longleftrightarrow> (\<exists>z. ps_pids ?st b = Some z \<and> HASHPID ?st (pid_id z) = j)" if "j < length (pidhash ?st)" for j b
    proof (cases "j = ?i")
      case True
      then show ?thesis using hash_okD(2,3) [OF assms(1) i] i by (auto simp: e)
    next
      case False
      then show ?thesis using hash_okD(3) [OF assms(1), of j b] that assms(2) by (auto simp: e)
    qed
    show "b = c" if "ps_pids ?st b = Some z" "ps_pids ?st c = Some w" "pid_id z = pid_id w" for b c z w
      using hash_okD(4) [OF assms(1)] that by (auto split: if_splits)
  qed
  then show ?thesis using run same_rest_upd(2) by auto
qed

lemma PID_RELE_ok:
  assumes "pid_refs st M" "a \<in># M"
  shows "\<exists>st'. PID_RELE st a = KRet st' \<and> pid_refs st' (M - {#a#}) \<and>
    pid_val st' = (if a \<in># M - {#a#} then pid_val st else (pid_val st)(a := None)) \<and> same_rest st st'"
proof -
  obtain x where x: "ps_pids st a = Some x" using pid_refsD(3) [OF assms] by blast
  have c: "unat (pid_ref x) = count M a" "count M a < 2 ^ 32" using pid_refsD(2) [OF assms(1) x] by simp_all
  show ?thesis
  proof (cases "1 < pid_ref x")
    case True
    let ?st = "st\<lparr>ps_pids := (ps_pids st)(a \<mapsto> x\<lparr>pid_ref := pid_ref x - 1\<rparr>)\<rparr>"
    have big: "1 < count M a" using True c by (simp add: word_less_nat_alt)
    have u: "unat (pid_ref x - 1) = count M a - 1" using True c by (subst unat_sub_le) auto
    have h: "hash_ok ?st" by (rule hash_ok_update [OF pid_refsD(1) [OF assms(1)] x]) simp
    have "pid_refs ?st (M - {#a#})"
    proof (rule pid_refsI [OF h])
      show "b \<in># M - {#a#} \<and> count (M - {#a#}) b < 2 ^ 32 \<and> unat (pid_ref y) = count (M - {#a#}) b" if "ps_pids ?st b = Some y" for b y
        using that u big c pid_refsD(2) [OF assms(1), of b y] by (cases "b = a") (auto simp: in_diff_count)
      show "b \<notin># M - {#a#}" if "ps_pids ?st b = None" for b
        using that pid_refsD(4) [OF assms(1), of b] by (cases "b = a") (auto dest: in_diffD)
    qed
    moreover have "pid_val ?st = pid_val st" using x by (auto simp: pid_val_def fun_eq_iff)
    moreover have "a \<in># M - {#a#}" using big by (simp add: in_diff_count)
    ultimately show ?thesis using x True same_rest_upd(1) by (auto simp: PID_RELE_def pid_upd_def pid_at_def)
  next
    case False
    then have one: "count M a = 1" using c assms(2) by (simp add: word_less_nat_alt not_less count_greater_zero_iff [symmetric] del: count_greater_zero_iff)
    obtain st' where st': "pid_rele a st = KRet st'" "hash_ok st'" "ps_pids st' = (ps_pids st)(a := None)" "same_rest st st'"
      using pid_rele_ok [OF pid_refsD(1) [OF assms(1)] x] by blast
    have gone: "a \<notin># M - {#a#}" using one by (simp add: in_diff_count)
    have "pid_refs st' (M - {#a#})"
    proof (rule pid_refsI [OF st'(2)])
      show "b \<in># M - {#a#} \<and> count (M - {#a#}) b < 2 ^ 32 \<and> unat (pid_ref y) = count (M - {#a#}) b" if "ps_pids st' b = Some y" for b y
        using that st'(3) pid_refsD(2) [OF assms(1), of b y] by (cases "b = a") (auto simp: in_diff_count)
      show "b \<notin># M - {#a#}" if "ps_pids st' b = None" for b
        using that st'(3) gone pid_refsD(4) [OF assms(1), of b] by (cases "b = a") (auto dest: in_diffD)
    qed
    moreover have "pid_val st' = (pid_val st)(a := None)" using st'(3) by (auto simp: pid_val_def fun_eq_iff)
    ultimately show ?thesis using x False gone st'(1,4) by (simp add: PID_RELE_def pid_at_def)
  qed
qed

interpretation pidref: refcounted pid_refs pid_val PID_HOLD PID_RELE
proof
  show "pid_val st a \<noteq> None \<longleftrightarrow> a \<in># M" if "pid_refs st M" for st a M
    using that unfolding pid_refs_def pid_val_def by (auto split: option.splits)
  show "\<exists>st'. PID_HOLD st a = KRet st' \<and> pid_refs st' (M + {#a#}) \<and> pid_val st' = pid_val st"
    if "pid_refs st M" "a \<in># M" "count M a + 1 < 2 ^ 32" for st a M
    using PID_HOLD_ok [OF that] by blast
  show "\<exists>st'. PID_RELE st a = KRet st' \<and> pid_refs st' (M - {#a#}) \<and>
      pid_val st' = (if a \<in># M - {#a#} then pid_val st else (pid_val st)(a := None))"
    if "pid_refs st M" "a \<in># M" for st a M
    using PID_RELE_ok [OF that] by blast
qed

end
