(* ===== verification/Dlink.thy ===== *)
theory Dlink
  imports Kern_Prelude
begin

text \<open>
  Doubly linked lists with their links in the members: \<open>nx\<close> and \<open>pv\<close> give the successor and the
  predecessor of a member.  Process groups (\<^verbatim>\<open>p_pglink\<close>, \<^verbatim>\<open>p_ppglink\<close>) and the list of active
  processes (\<^verbatim>\<open>p_next\<close>, \<^verbatim>\<open>p_prev\<close>) are such lists; what putting a member in front and taking one
  out do to the list is proved here once.
\<close>

fun forth :: "('a \<Rightarrow> 'a option) \<Rightarrow> 'a option \<Rightarrow> 'a list \<Rightarrow> bool" where
  "forth nx h [] \<longleftrightarrow> h = None"
| "forth nx h (x # xs) \<longleftrightarrow> h = Some x \<and> forth nx (nx x) xs"

fun backs :: "('a \<Rightarrow> 'a option) \<Rightarrow> 'a option \<Rightarrow> 'a list \<Rightarrow> bool" where
  "backs pv q [] \<longleftrightarrow> True"
| "backs pv q (x # xs) \<longleftrightarrow> pv x = q \<and> backs pv (Some x) xs"

definition dlist :: "('a \<Rightarrow> 'a option) \<Rightarrow> ('a \<Rightarrow> 'a option) \<Rightarrow> 'a option \<Rightarrow> 'a list \<Rightarrow> bool" where
  "dlist nx pv h xs \<longleftrightarrow> forth nx h xs \<and> backs pv None xs \<and> distinct xs"

lemma forth_cong: "(\<And>x. x \<in> set xs \<Longrightarrow> nx' x = nx x) \<Longrightarrow> forth nx' h xs = forth nx h xs"
  by (induction xs arbitrary: h) auto

lemma backs_cong: "(\<And>x. x \<in> set xs \<Longrightarrow> pv' x = pv x) \<Longrightarrow> backs pv' q xs = backs pv q xs"
  by (induction xs arbitrary: q) auto

lemma dlist_cong:
  "(\<And>x. x \<in> set xs \<Longrightarrow> nx' x = nx x) \<Longrightarrow> (\<And>x. x \<in> set xs \<Longrightarrow> pv' x = pv x) \<Longrightarrow> dlist nx' pv' h xs = dlist nx pv h xs"
  using forth_cong [of xs nx' nx h] backs_cong [of xs pv' pv None] by (simp add: dlist_def)

lemma dlist_hd: "dlist nx pv h xs \<Longrightarrow> h = (case xs of [] \<Rightarrow> None | x # _ \<Rightarrow> Some x)"
  by (cases xs) (auto simp: dlist_def)

lemma dlist_Nil [simp]: "dlist nx pv h [] \<longleftrightarrow> h = None"
  by (simp add: dlist_def)

lemma dlist_None_iff: "dlist nx pv h xs \<Longrightarrow> h = None \<longleftrightarrow> xs = []"
  by (cases xs) (auto simp: dlist_def)

lemma forth_nx: "forth nx h xs \<Longrightarrow> x \<in> set xs \<Longrightarrow> nx x = Some y \<Longrightarrow> y \<in> set xs"
proof (induction xs arbitrary: h)
  case (Cons z zs)
  then show ?case by (cases "x = z"; cases zs) auto
qed simp

lemma backs_pv: "backs pv q xs \<Longrightarrow> x \<in> set xs \<Longrightarrow> pv x = Some y \<Longrightarrow> q = Some y \<or> y \<in> set xs"
  by (induction xs arbitrary: q) auto

lemma dlist_nx: "dlist nx pv h xs \<Longrightarrow> x \<in> set xs \<Longrightarrow> nx x = Some y \<Longrightarrow> y \<in> set xs"
  using forth_nx [of nx h xs x y] by (simp add: dlist_def)

lemma dlist_pv: "dlist nx pv h xs \<Longrightarrow> x \<in> set xs \<Longrightarrow> pv x = Some y \<Longrightarrow> y \<in> set xs"
  using backs_pv [of pv None xs x y] by (simp add: dlist_def)

definition dl_set :: "'a option \<Rightarrow> 'b \<Rightarrow> ('a \<Rightarrow> 'b) \<Rightarrow> 'a \<Rightarrow> 'b" where
  "dl_set h v f = (case h of None \<Rightarrow> f | Some q \<Rightarrow> f(q := v))"

lemma dl_set_simps [simp]: "dl_set None v f = f" "dl_set (Some q) v f = f(q := v)"
  by (simp_all add: dl_set_def)

lemma dlist_push:
  assumes "dlist nx pv h xs" "x \<notin> set xs"
  shows "dlist (nx(x := h)) (dl_set h (Some x) (pv(x := None))) (Some x) (x # xs)"
proof (cases xs)
  case Nil
  then show ?thesis using assms by (auto simp: dlist_def)
next
  case (Cons y ys)
  have "forth (nx(x := h)) h xs = forth nx h xs" using assms(2) by (intro forth_cong) auto
  moreover have "backs (pv(x := None, y := Some x)) (Some y) ys = backs pv (Some y) ys"
    using assms Cons by (intro backs_cong) (auto simp: dlist_def)
  ultimately show ?thesis using assms Cons by (auto simp: dlist_def)
qed

text \<open>Taking out a member that has a predecessor, and one that has none.\<close>

lemma forth_split:
  "distinct (xs @ x # ys) \<Longrightarrow> forth nx h (xs @ x # ys) \<Longrightarrow>
   forth (dl_set (if xs = [] then None else Some (last xs)) (nx x) nx) (if xs = [] then nx x else h) (xs @ ys)"
proof (induction xs arbitrary: h)
  case Nil
  then show ?case by simp
next
  case (Cons z zs)
  show ?case
  proof (cases "zs = []")
    case True
    have "forth (nx(z := nx x)) (nx x) ys = forth nx (nx x) ys" using Cons.prems True by (intro forth_cong) auto
    then show ?thesis using Cons.prems True by (simp add: fun_upd_def)
  next
    case False
    then have z: "z \<noteq> last zs" using Cons.prems by auto
    show ?thesis using Cons.IH [of "nx z"] Cons.prems False z by simp
  qed
qed

lemma backs_split:
  "distinct (xs @ x # ys) \<Longrightarrow> backs pv q (xs @ x # ys) \<Longrightarrow>
   pv x = (if xs = [] then q else Some (last xs)) \<and>
   backs (case ys of [] \<Rightarrow> pv | y # _ \<Rightarrow> pv(y := pv x)) q (xs @ ys)"
proof (induction xs arbitrary: q)
  case Nil
  then show ?case
  proof (cases ys)
    case (Cons y zs)
    have "backs (pv(y := q)) (Some y) zs = backs pv (Some y) zs" using Nil Cons by (intro backs_cong) auto
    then show ?thesis using Nil Cons by (simp add: fun_upd_def)
  qed simp
next
  case (Cons z zs)
  then have IH: "pv x = (if zs = [] then Some z else Some (last zs)) \<and>
      backs (case ys of [] \<Rightarrow> pv | y # _ \<Rightarrow> pv(y := pv x)) (Some z) (zs @ ys)" by simp
  have "(case ys of [] \<Rightarrow> pv | y # _ \<Rightarrow> pv(y := pv x)) z = pv z" using Cons.prems by (cases ys) auto
  then show ?case using IH Cons.prems by simp
qed

lemma forth_succ: "forth nx h (xs @ x # ys) \<Longrightarrow> nx x = (case ys of [] \<Rightarrow> None | y # _ \<Rightarrow> Some y)"
  by (induction xs arbitrary: h; cases ys) auto

lemma forth_first: "forth nx h (xs @ x # ys) \<Longrightarrow> distinct (xs @ x # ys) \<Longrightarrow> h = Some x \<longleftrightarrow> xs = []"
  by (cases xs) auto

theorem dlist_unlink:
  assumes "dlist nx pv h xs" "x \<in> set xs"
  shows "dlist (dl_set (pv x) (nx x) nx) (dl_set (nx x) (pv x) pv) (if h = Some x then nx x else h) (remove1 x xs)"
proof -
  obtain as bs where xs: "xs = as @ x # bs" "x \<notin> set as" using split_list_first [OF assms(2)] by blast
  have f: "forth nx h (as @ x # bs)" and b: "backs pv None (as @ x # bs)" and d: "distinct (as @ x # bs)"
    using assms(1) xs by (auto simp: dlist_def)
  have px: "pv x = (if as = [] then None else Some (last as))" using backs_split [OF d b] by simp
  have nxx: "nx x = (case bs of [] \<Rightarrow> None | y # _ \<Rightarrow> Some y)" by (rule forth_succ [OF f])
  have h: "h = Some x \<longleftrightarrow> as = []" by (rule forth_first [OF f d])
  have "forth (dl_set (pv x) (nx x) nx) (if h = Some x then nx x else h) (as @ bs)"
    using forth_split [OF d f] h px by simp
  moreover have "backs (dl_set (nx x) (pv x) pv) None (as @ bs)"
    using backs_split [OF d b] nxx by (cases bs) auto
  moreover have "remove1 x xs = as @ bs" using xs by (simp add: remove1_append)
  ultimately show ?thesis using d by (simp add: dlist_def)
qed

end
