(* ===== verification/Pgrp_Lists.thy ===== *)
theory Pgrp_Lists
  imports Pgrp Pid_Table Dlink
begin

text \<open>
  The lists of the members of the process groups of \<^verbatim>\<open>Pgrp\<close>, and what joining a group, leaving
  one and walking along one do to them.
\<close>

section \<open>Views of the state\<close>

text \<open>A field of a process, \<open>None\<close> also for an address that holds no process.\<close>

definition pf :: "(proc_t \<Rightarrow> 'b option) \<Rightarrow> pidsys \<Rightarrow> proc_ptr \<Rightarrow> 'b option" where
  "pf f st p = Option.bind (ps_procs st p) f"

lemma pf_Some: "ps_procs st p = Some r \<Longrightarrow> pf f st p = f r"
  by (simp add: pf_def)

lemma pf_SomeD: "pf f st p = Some y \<Longrightarrow> \<exists>r. ps_procs st p = Some r \<and> f r = Some y"
  by (auto simp: pf_def bind_eq_Some_conv)

lemma pf_update: "pf f (st\<lparr>ps_procs := (ps_procs st)(p \<mapsto> r)\<rparr>) = (pf f st)(p := f r)"
  by (auto simp: pf_def fun_eq_iff)

lemma pf_frame: "ps_procs st' = ps_procs st \<Longrightarrow> pf f st' = pf f st"
  by (simp add: pf_def fun_eq_iff)

definition proc_rest :: "proc_t \<Rightarrow> proc_t" where
  "proc_rest r = r\<lparr>p_pgidp := None, p_pglink := None, p_ppglink := None\<rparr>"

definition pid_rest :: "pid \<Rightarrow> pid" where
  "pid_rest x = x\<lparr>pid_pgorphaned := False, pid_pglink := None, pid_ref := 0\<rparr>"

text \<open>Two states that differ in the links of the groups, and in the counts and existence of ids.\<close>

definition grp_frame :: "pidsys \<Rightarrow> pidsys \<Rightarrow> bool" where
  "grp_frame st st' \<longleftrightarrow>
     (\<forall>p. map_option proc_rest (ps_procs st' p) = map_option proc_rest (ps_procs st p)) \<and>
     (\<forall>a x'. ps_pids st' a = Some x' \<longrightarrow> (\<exists>x. ps_pids st a = Some x \<and> pid_rest x' = pid_rest x)) \<and>
     rest_fields st st'"

lemma grp_frame_refl [simp]: "grp_frame st st"
  by (simp add: grp_frame_def rest_fields_def)

lemma grp_frameD:
  assumes "grp_frame st st'"
  shows "map_option proc_rest (ps_procs st' p) = map_option proc_rest (ps_procs st p)"
    "ps_pids st' a = Some x' \<Longrightarrow> \<exists>x. ps_pids st a = Some x \<and> pid_rest x' = pid_rest x" "rest_fields st st'"
  using assms unfolding grp_frame_def by blast+

lemma grp_frame_trans:
  assumes "grp_frame st1 st2" "grp_frame st2 st3"
  shows "grp_frame st1 st3"
proof -
  have "\<exists>x. ps_pids st1 a = Some x \<and> pid_rest x' = pid_rest x" if x': "ps_pids st3 a = Some x'" for a x'
  proof -
    obtain y where y: "ps_pids st2 a = Some y" "pid_rest x' = pid_rest y" using grp_frameD(2) [OF assms(2) x'] by blast
    then show ?thesis using grp_frameD(2) [OF assms(1) y(1)] by auto
  qed
  then show ?thesis using grp_frameD(1,3) [OF assms(1)] grp_frameD(1,3) [OF assms(2)] rest_fields_trans
    unfolding grp_frame_def by auto
qed

lemma grp_frame_pids:
  "same_rest st st' \<Longrightarrow> (\<And>a x'. ps_pids st' a = Some x' \<Longrightarrow> \<exists>x. ps_pids st a = Some x \<and> pid_rest x' = pid_rest x) \<Longrightarrow> grp_frame st st'"
  unfolding grp_frame_def using same_restD [of st st'] by auto

lemma grp_frame_proc:
  assumes "ps_procs st p = Some r" "proc_rest r' = proc_rest r"
  shows "grp_frame st (st\<lparr>ps_procs := (ps_procs st)(p \<mapsto> r')\<rparr>)"
  using assms by (simp add: grp_frame_def rest_fields_def)

lemma grp_frame_pid:
  assumes "ps_pids st a = Some x" "pid_rest x' = pid_rest x"
  shows "grp_frame st (st\<lparr>ps_pids := (ps_pids st)(a \<mapsto> x')\<rparr>)"
  using assms by (simp add: grp_frame_def rest_fields_def)

lemma pid_val_SomeD: "pid_val st a = Some x \<Longrightarrow> \<exists>y. ps_pids st a = Some y \<and> x = y\<lparr>pid_ref := 0\<rparr>"
  by (auto simp: pid_val_def)

lemma pid_val_grp_frame:
  assumes "same_rest st st'" "\<And>a x. pid_val st' a = Some x \<Longrightarrow> pid_val st a = Some x"
  shows "grp_frame st st'"
proof (rule grp_frame_pids [OF assms(1)])
  fix a x'
  assume "ps_pids st' a = Some x'"
  then have "pid_val st' a = Some (x'\<lparr>pid_ref := 0\<rparr>)" by (simp add: pid_val_def)
  from pid_val_SomeD [OF assms(2) [OF this]] obtain y where "ps_pids st a = Some y" "x'\<lparr>pid_ref := 0\<rparr> = y\<lparr>pid_ref := 0\<rparr>" by blast
  moreover have "pid_rest (x\<lparr>pid_ref := 0\<rparr>) = pid_rest x" for x by (simp add: pid_rest_def)
  ultimately show "\<exists>x. ps_pids st a = Some x \<and> pid_rest x' = pid_rest x" by metis
qed

text \<open>Fields outside of the links of the groups.\<close>

lemma pf_grp_frame:
  assumes "grp_frame st st'" "\<And>r. f (proc_rest r) = f r"
  shows "pf f st' = pf f st"
proof
  fix p
  have "map_option proc_rest (ps_procs st' p) = map_option proc_rest (ps_procs st p)" using assms(1) by (simp add: grp_frame_def)
  then show "pf f st' p = pf f st p"
    using assms(2) by (cases "ps_procs st p"; cases "ps_procs st' p") (auto simp: pf_def, metis)
qed

lemma grp_frame_dom: "grp_frame st st' \<Longrightarrow> dom (ps_procs st') = dom (ps_procs st)"
  unfolding grp_frame_def dom_def by (metis map_option_is_None)

lemma proc_rest_simps [simp]:
  "p_stat (proc_rest r) = p_stat r" "p_flag (proc_rest r) = p_flag r" "p_pidp (proc_rest r) = p_pidp r" "p_lockp (proc_rest r) = p_lockp r"
  "p_next (proc_rest r) = p_next r" "p_prev (proc_rest r) = p_prev r" "p_sessp (proc_rest r) = p_sessp r"
  "p_parent (proc_rest r) = p_parent r" "p_child (proc_rest r) = p_child r"
  by (simp_all add: proc_rest_def)

section \<open>Lists of members\<close>

definition groups :: "pidsys \<Rightarrow> (pid_ptr \<Rightarrow> proc_ptr list) \<Rightarrow> bool" where
  "groups st G \<longleftrightarrow>
     (\<forall>a x. pid_val st a = Some x \<longrightarrow> dlist (pf p_pglink st) (pf p_ppglink st) (pid_pglink x) (G a)) \<and>
     (\<forall>a p. p \<in> set (G a) \<longleftrightarrow> pf p_pgidp st p = Some a) \<and>
     (\<forall>p a. pf p_pgidp st p = Some a \<longrightarrow> pid_val st a \<noteq> None)"

lemma groupsD:
  assumes "groups st G"
  shows "pid_val st a = Some x \<Longrightarrow> dlist (pf p_pglink st) (pf p_ppglink st) (pid_pglink x) (G a)"
    "p \<in> set (G a) \<longleftrightarrow> pf p_pgidp st p = Some a" "pf p_pgidp st p = Some a \<Longrightarrow> pid_val st a \<noteq> None"
  using assms unfolding groups_def by blast+

lemma groups_live: "groups st G \<Longrightarrow> p \<in> set (G a) \<Longrightarrow> ps_procs st p \<noteq> None"
  using groupsD(2) [of st G p a] by (auto simp: pf_def bind_eq_Some_conv)

definition parents_ok :: "pidsys \<Rightarrow> bool" where
  "parents_ok st \<longleftrightarrow> (\<forall>p q. pf p_parent st p = Some q \<longrightarrow> ps_procs st q \<noteq> None)"

lemma parents_ok_frame: "grp_frame st st' \<Longrightarrow> parents_ok st \<Longrightarrow> parents_ok st'"
  using pf_grp_frame [of st st' p_parent] grp_frame_dom [of st st'] unfolding parents_ok_def by (auto simp: dom_def)

lemma pglinked_ok:
  assumes "parents_ok st" "ps_procs st p \<noteq> None"
  shows "\<exists>l. pglinked st p = KRet l"
proof -
  obtain r where r: "ps_procs st p = Some r" using assms(2) by blast
  show ?thesis
  proof (cases "p_parent r")
    case None
    then have "pglinked st p = KRet False" using r by (simp add: pglinked_def proc_at_def)
    then show ?thesis by blast
  next
    case (Some q)
    then have "pf p_parent st p = Some q" using r by (simp add: pf_Some)
    then obtain s where "ps_procs st q = Some s" using assms(1) unfolding parents_ok_def by blast
    then show ?thesis using r Some by (simp add: pglinked_def proc_at_def)
  qed
qed

text \<open>A walk that has as many steps as the list has members sees each of them.\<close>

lemma pg_any_ok:
  assumes "\<And>p. p \<in> set xs \<Longrightarrow> f p = KRet (g p)" "\<And>p. p \<in> set xs \<Longrightarrow> ps_procs st p \<noteq> None"
  shows "forth (pf p_pglink st) h xs \<Longrightarrow> length xs \<le> n \<Longrightarrow> pg_any n st f h = KRet (\<exists>p \<in> set xs. g p)"
  using assms
proof (induction xs arbitrary: h n)
  case Nil
  then show ?case by simp
next
  case (Cons x xs)
  then obtain m where m: "n = Suc m" by (cases n) auto
  obtain r where r: "ps_procs st x = Some r" using Cons.prems(4) [of x] by auto
  have "pg_any m st f (p_pglink r) = KRet (\<exists>p \<in> set xs. g p)"
    using Cons.IH [of "p_pglink r" m] Cons.prems m r by (simp add: pf_Some)
  then show ?case using Cons.prems m r by (simp add: proc_at_def)
qed

lemma pg_signal_walk_ok:
  "forth (pf p_pglink st) h xs \<Longrightarrow> length xs \<le> n \<Longrightarrow> (\<And>p. p \<in> set xs \<Longrightarrow> ps_procs st p \<noteq> None) \<Longrightarrow>
   pg_signal_walk n h sig st = KRet (st\<lparr>ps_sigs := ps_sigs st @ map (\<lambda>p. (p, sig)) xs\<rparr>)"
proof (induction xs arbitrary: h n st)
  case Nil
  then show ?case by simp
next
  case (Cons x xs)
  then obtain m where m: "n = Suc m" by (cases n) auto
  obtain r where r: "ps_procs st x = Some r" using Cons.prems(3) [of x] by auto
  let ?st = "st\<lparr>ps_sigs := ps_sigs st @ [(x, sig)]\<rparr>"
  have "pf p_pglink ?st = pf p_pglink st" by (rule pf_frame) simp
  then have "pg_signal_walk m (p_pglink r) sig ?st = KRet (?st\<lparr>ps_sigs := ps_sigs ?st @ map (\<lambda>p. (p, sig)) xs\<rparr>)"
    using Cons.IH [of ?st "p_pglink r" m] Cons.prems m r by (simp add: pf_Some)
  then show ?case using Cons.prems m r by (simp add: sigtoproc_def proc_at_def)
qed

section \<open>Updates through a pointer\<close>

definition put_opt :: "proc_ptr option \<Rightarrow> (proc_t \<Rightarrow> proc_t) \<Rightarrow> pidsys \<Rightarrow> pidsys" where
  "put_opt h f st = (case h of None \<Rightarrow> st | Some q \<Rightarrow> st\<lparr>ps_procs := (ps_procs st)(q \<mapsto> f (the (ps_procs st q)))\<rparr>)"

definition live_opt :: "pidsys \<Rightarrow> proc_ptr option \<Rightarrow> bool" where
  "live_opt st h \<longleftrightarrow> (\<forall>q. h = Some q \<longrightarrow> ps_procs st q \<noteq> None)"

lemma live_opt_simps [simp]: "live_opt st None" "live_opt st (Some q) \<longleftrightarrow> ps_procs st q \<noteq> None"
  by (auto simp: live_opt_def)

lemma put_opt_run:
  assumes "live_opt st h"
  shows "proc_upd_opt h f st = KRet (put_opt h f st)"
  using assms by (auto simp: proc_upd_opt_def put_opt_def proc_upd_def proc_at_def split: option.splits)

lemma put_some_run: "ps_procs st p \<noteq> None \<Longrightarrow> proc_upd p f st = KRet (put_opt (Some p) f st)"
  using put_opt_run [of st "Some p" f] by (simp add: proc_upd_opt_def)

lemma put_opt_frame_simps [simp]:
  "ps_pids (put_opt h f st) = ps_pids st" "pidhash (put_opt h f st) = pidhash st" "ps_sess (put_opt h f st) = ps_sess st"
  "procdir (put_opt h f st) = procdir st" "procentfree (put_opt h f st) = procentfree st" "minpid (put_opt h f st) = minpid st"
  "mpid (put_opt h f st) = mpid st" "maxpid (put_opt h f st) = maxpid st" "practive (put_opt h f st) = practive st"
  "nproc (put_opt h f st) = nproc st" "ps_sigs (put_opt h f st) = ps_sigs st" "pid_hashsz (put_opt h f st) = pid_hashsz st"
  by (auto simp: put_opt_def split: option.splits)

lemma pid_val_put_opt [simp]: "pid_val (put_opt h f st) = pid_val st"
  by (simp add: pid_val_def fun_eq_iff)

lemma live_put_opt [simp]:
  "live_opt st h \<Longrightarrow> ps_procs (put_opt h f st) q = None \<longleftrightarrow> ps_procs st q = None"
  by (auto simp: put_opt_def split: option.splits)

lemma live_opt_put [simp]: "live_opt st h \<Longrightarrow> live_opt (put_opt h f st) h' \<longleftrightarrow> live_opt st h'"
  by (simp add: live_opt_def)

lemma dom_put_opt: "live_opt st h \<Longrightarrow> dom (ps_procs (put_opt h f st)) = dom (ps_procs st)"
  by (auto simp: put_opt_def split: option.splits)

lemma pf_put_const:
  assumes "live_opt st h" "\<And>r. g (f r) = c"
  shows "pf g (put_opt h f st) = dl_set h c (pf g st)"
  using assms by (auto simp: put_opt_def pf_def fun_eq_iff split: option.splits)

lemma pf_put_same:
  assumes "live_opt st h" "\<And>r. g (f r) = g r"
  shows "pf g (put_opt h f st) = pf g st"
  using assms by (auto simp: put_opt_def pf_def fun_eq_iff split: option.splits)

lemma put_opt_frame:
  assumes "live_opt st h" "\<And>r. proc_rest (f r) = proc_rest r"
  shows "grp_frame st (put_opt h f st)"
  using assms by (auto simp: put_opt_def grp_frame_def rest_fields_def split: option.splits)

lemma hash_ok_frame:
  assumes "ps_pids st' = ps_pids st" "pidhash st' = pidhash st" "pid_hashsz st' = pid_hashsz st"
  shows "hash_ok st' = hash_ok st"
  using assms by (simp add: hash_ok_def HASHPID_def)

lemma pid_refs_frame:
  assumes "ps_pids st' = ps_pids st" "pidhash st' = pidhash st" "pid_hashsz st' = pid_hashsz st"
  shows "pid_refs st' M = pid_refs st M"
  using assms hash_ok_frame [OF assms] by (simp add: pid_refs_def)

lemma pid_refs_put [simp]: "pid_refs (put_opt h f st) M = pid_refs st M"
  by (rule pid_refs_frame) simp_all

lemma pid_val_live: "pid_refs st M \<Longrightarrow> pid_val st a \<noteq> None \<longleftrightarrow> a \<in># M"
  by (rule pidref.live)

text \<open>An update of the links or of the mark of an id.\<close>

lemma pid_upd_view:
  assumes "pid_refs st M" "a \<in># M" "\<And>x. pid_id (f x) = pid_id x" "\<And>x. pid_ref (f x) = pid_ref x"
    "\<And>x. f (x\<lparr>pid_ref := 0\<rparr>) = (f x)\<lparr>pid_ref := 0\<rparr>"
  shows "\<exists>st'. pid_upd a f st = KRet st' \<and> pid_refs st' M \<and> same_rest st st' \<and>
    pid_val st' = (pid_val st)(a := map_option f (pid_val st a))"
proof -
  obtain x where x: "ps_pids st a = Some x" using pid_refsD(3) [OF assms(1,2)] by blast
  have "pid_val (st\<lparr>ps_pids := (ps_pids st)(a \<mapsto> f x)\<rparr>) = (pid_val st)(a := map_option f (pid_val st a))"
    using x assms(5) by (auto simp: pid_val_def fun_eq_iff)
  then show ?thesis using pid_upd_ok [OF assms(1) x, of f] assms(3,4) same_rest_upd(1) by blast
qed

lemma pid_upd_frame:
  assumes "same_rest st st'" "pid_val st' = (pid_val st)(a := map_option f (pid_val st a))" "\<And>x. pid_rest (f x) = pid_rest x"
  shows "grp_frame st st'"
proof (rule grp_frame_pids [OF assms(1)])
  fix b x'
  assume x': "ps_pids st' b = Some x'"
  have z: "pid_rest (x\<lparr>pid_ref := 0\<rparr>) = pid_rest x" for x by (simp add: pid_rest_def)
  have "pid_val st' b = Some (x'\<lparr>pid_ref := 0\<rparr>)" using x' by (simp add: pid_val_def)
  then obtain y where "pid_val st b = Some y" "x'\<lparr>pid_ref := 0\<rparr> = y \<or> x'\<lparr>pid_ref := 0\<rparr> = f y"
    using assms(2) by (cases "b = a") auto
  then have y: "pid_val st b = Some y" "pid_rest (x'\<lparr>pid_ref := 0\<rparr>) = pid_rest y" using assms(3) [of y] by auto
  then show "\<exists>x. ps_pids st b = Some x \<and> pid_rest x' = pid_rest x"
    using pid_val_SomeD [OF y(1)] z by metis
qed

text \<open>Changes of ids that keep the links keep the groups.\<close>

lemma groups_frame:
  assumes "groups st G" "ps_procs st' = ps_procs st"
    "\<And>a x'. pid_val st' a = Some x' \<Longrightarrow> \<exists>x. pid_val st a = Some x \<and> pid_pglink x = pid_pglink x'"
    "\<And>p a. pf p_pgidp st p = Some a \<Longrightarrow> pid_val st' a \<noteq> None"
  shows "groups st' G"
proof -
  have e: "pf f st' = pf f st" for f :: "proc_t \<Rightarrow> nat option" by (rule pf_frame [OF assms(2)])
  have "dlist (pf p_pglink st) (pf p_ppglink st) (pid_pglink x) (G a)" if x: "pid_val st' a = Some x" for a x
  proof -
    obtain y where "pid_val st a = Some y" "pid_pglink y = pid_pglink x" using assms(3) [OF x] by blast
    then show ?thesis using groupsD(1) [OF assms(1)] by metis
  qed
  then show ?thesis using groupsD(2) [OF assms(1)] assms(4) unfolding groups_def e by blast
qed

end
