(* ===== verification/Pgrp_Ops.thy ===== *)
theory Pgrp_Ops
  imports Pgrp_Lists
begin

text \<open>
  Joining and leaving a process group, \<open>pgjoin\<close> and \<open>pgexit\<close> of \<^verbatim>\<open>Pgrp\<close>: what they do to the
  lists of members and to the count of the id that names the group.
\<close>

section \<open>Joining and leaving a group\<close>

lemma groups_push:
  assumes g: "groups st G" and p: "pf p_pgidp st p = None" and x: "pid_val st a = Some x"
    and nx: "pf p_pglink st' = (pf p_pglink st)(p := pid_pglink x)"
    and pv: "pf p_ppglink st' = dl_set (pid_pglink x) (Some p) ((pf p_ppglink st)(p := None))"
    and pg: "pf p_pgidp st' = (pf p_pgidp st)(p := Some a)"
    and val: "pid_val st' = (pid_val st)(a \<mapsto> x')" "pid_pglink x' = Some p"
  shows "groups st' (G(a := p # G a))"
proof -
  have np: "p \<notin> set (G b)" for b using groupsD(2) [OF g, of p b] p by simp
  have d: "dlist (pf p_pglink st) (pf p_ppglink st) (pid_pglink x) (G a)" by (rule groupsD(1) [OF g x])
  have "dlist (pf p_pglink st') (pf p_ppglink st') (pid_pglink y) ((G(a := p # G a)) b)" if y: "pid_val st' b = Some y" for b y
  proof (cases "b = a")
    case True
    then show ?thesis using dlist_push [OF d np] y val nx pv by simp
  next
    case False
    have q: "q \<notin> set (G b)" if "pid_pglink x = Some q" for q
    proof -
      have "q \<in> set (G a)" using dlist_hd [OF d] that by (cases "G a") auto
      then show ?thesis using False groupsD(2) [OF g, of q] by simp
    qed
    have "dlist (pf p_pglink st') (pf p_ppglink st') (pid_pglink y) (G b) = dlist (pf p_pglink st) (pf p_ppglink st) (pid_pglink y) (G b)"
    proof (rule dlist_cong)
      fix z
      assume z: "z \<in> set (G b)"
      then have "z \<noteq> p" "pid_pglink x \<noteq> Some z" using np q by auto
      then show "pf p_pglink st' z = pf p_pglink st z" "pf p_ppglink st' z = pf p_ppglink st z"
        using nx pv by (auto simp: dl_set_def split: option.splits)
    qed
    then show ?thesis using groupsD(1) [OF g, of b y] y val False by simp
  qed
  moreover have "q \<in> set ((G(a := p # G a)) b) \<longleftrightarrow> pf p_pgidp st' q = Some b" for q b
    using groupsD(2) [OF g, of q b] pg np by auto
  moreover have "pid_val st' b \<noteq> None" if "pf p_pgidp st' q = Some b" for q b
    using groupsD(3) [OF g, of q b] that pg val by (auto split: if_splits)
  ultimately show ?thesis unfolding groups_def by blast
qed

lemma groups_pop:
  assumes g: "groups st G" and p: "pf p_pgidp st p = Some a" and x: "pid_val st a = Some x"
    and nx: "pf p_pglink st' = (dl_set (pf p_ppglink st p) (pf p_pglink st p) (pf p_pglink st))(p := None)"
    and pv: "pf p_ppglink st' = (dl_set (pf p_pglink st p) (pf p_ppglink st p) (pf p_ppglink st))(p := None)"
    and pg: "pf p_pgidp st' = (pf p_pgidp st)(p := None)"
    and val: "pid_val st' = (pid_val st)(a \<mapsto> x')" "pid_pglink x' = (if pid_pglink x = Some p then pf p_pglink st p else pid_pglink x)"
  shows "groups st' (G(a := remove1 p (G a)))"
proof -
  have pa: "p \<in> set (G a)" using groupsD(2) [OF g] p by simp
  have d: "dlist (pf p_pglink st) (pf p_ppglink st) (pid_pglink x) (G a)" by (rule groupsD(1) [OF g x])
  have dist: "distinct (G a)" using d by (simp add: dlist_def)
  have "dlist (pf p_pglink st') (pf p_ppglink st') (pid_pglink y) ((G(a := remove1 p (G a))) b)" if y: "pid_val st' b = Some y" for b y
  proof (cases "b = a")
    case True
    have "dlist (pf p_pglink st') (pf p_ppglink st') (pid_pglink x') (remove1 p (G a)) =
      dlist (dl_set (pf p_ppglink st p) (pf p_pglink st p) (pf p_pglink st)) (dl_set (pf p_pglink st p) (pf p_ppglink st p) (pf p_ppglink st))
        (pid_pglink x') (remove1 p (G a))"
      using dist unfolding nx pv by (intro dlist_cong) auto
    then show ?thesis using dlist_unlink [OF d pa] y val True by simp
  next
    case False
    have q: "q \<notin> set (G b)" if "pf p_pglink st p = Some q \<or> pf p_ppglink st p = Some q" for q
    proof -
      have "q \<in> set (G a)" using dlist_nx [OF d pa] dlist_pv [OF d pa] that by blast
      then show ?thesis using False groupsD(2) [OF g, of q] by simp
    qed
    have np: "p \<notin> set (G b)" using False p groupsD(2) [OF g, of p] by simp
    have "dlist (pf p_pglink st') (pf p_ppglink st') (pid_pglink y) (G b) = dlist (pf p_pglink st) (pf p_ppglink st) (pid_pglink y) (G b)"
    proof (rule dlist_cong)
      fix z
      assume z: "z \<in> set (G b)"
      then have "z \<noteq> p" "pf p_pglink st p \<noteq> Some z" "pf p_ppglink st p \<noteq> Some z" using np q by auto
      then show "pf p_pglink st' z = pf p_pglink st z" "pf p_ppglink st' z = pf p_ppglink st z"
        using nx pv by (auto simp: dl_set_def split: option.splits)
    qed
    then show ?thesis using groupsD(1) [OF g, of b y] y val False by simp
  qed
  moreover have "q \<in> set ((G(a := remove1 p (G a))) b) \<longleftrightarrow> pf p_pgidp st' q = Some b" for q b
    using groupsD(2) [OF g, of q b] pg dist p by (auto simp: set_remove1_eq)
  moreover have "pid_val st' b \<noteq> None" if "pf p_pgidp st' q = Some b" for q b
    using groupsD(3) [OF g, of q b] that pg val by (auto split: if_splits)
  ultimately show ?thesis unfolding groups_def by blast
qed

text \<open>What is proved of an operation on the groups.\<close>

definition grp_result :: "pidsys kres \<Rightarrow> pidsys \<Rightarrow> pid_ptr multiset \<Rightarrow> (pid_ptr \<Rightarrow> proc_ptr list) \<Rightarrow> (proc_ptr \<Rightarrow> pid_ptr option) \<Rightarrow> bool" where
  "grp_result run st M G pg \<longleftrightarrow>
     (\<exists>st'. run = KRet st' \<and> pid_refs st' M \<and> groups st' G \<and> grp_frame st st' \<and> pf p_pgidp st' = pg)"

lemma pid_at_val:
  assumes "pid_val st a = Some x"
  shows "\<exists>y. pid_at st a = KRet y \<and> pid_pglink y = pid_pglink x \<and> pid_pgorphaned y = pid_pgorphaned x \<and> pid_id y = pid_id x"
  using pid_val_SomeD [OF assms] by (auto simp: pid_at_def)

lemma set_orphaned_ok:
  assumes "pid_refs st M" "groups st G" "a \<in># M" "grp_frame st0 st" "pf p_pgidp st = pg"
  shows "grp_result (pid_upd a (\<lambda>x. x\<lparr>pid_pgorphaned := b\<rparr>) st) st0 M G pg"
proof -
  obtain st' where st': "pid_upd a (\<lambda>x. x\<lparr>pid_pgorphaned := b\<rparr>) st = KRet st'" "pid_refs st' M" "same_rest st st'"
    "pid_val st' = (pid_val st)(a := map_option (\<lambda>x. x\<lparr>pid_pgorphaned := b\<rparr>) (pid_val st a))"
    using pid_upd_view [OF assms(1,3), of "\<lambda>x. x\<lparr>pid_pgorphaned := b\<rparr>"] by auto
  have f: "grp_frame st st'" by (rule pid_upd_frame [OF st'(3,4)]) (simp add: pid_rest_def)
  have "groups st' G"
  proof (rule groups_frame [OF assms(2) same_restD(1) [OF st'(3)]])
    show "\<exists>x. pid_val st c = Some x \<and> pid_pglink x = pid_pglink x'" if "pid_val st' c = Some x'" for c x'
      using that st'(4) by (auto split: if_splits)
    show "pid_val st' c \<noteq> None" if "pf p_pgidp st p = Some c" for p c
      using groupsD(3) [OF assms(2) that] st'(4) by auto
  qed
  moreover have "pf p_pgidp st' = pg" using pf_frame [OF same_restD(1) [OF st'(3)], of p_pgidp] assms(5) by simp
  ultimately show ?thesis using st'(1,2) grp_frame_trans [OF assms(4) f] unfolding grp_result_def by blast
qed

lemma groups_same_val:
  assumes "groups st G" "same_rest st st'" "pid_val st' = pid_val st"
  shows "groups st' G" "grp_frame st st'" "pf p_pgidp st' = pf p_pgidp st"
  using groups_frame [OF assms(1) same_restD(1) [OF assms(2)]] groupsD(3) [OF assms(1)] assms(3)
    pid_val_grp_frame [OF assms(2)] pf_frame [OF same_restD(1) [OF assms(2)]] by auto

text \<open>The state in which the new member is linked, and what is left to do there.\<close>

lemma pgjoin_links:
  assumes refs: "pid_refs st M" and g: "groups st G" and p: "ps_procs st p \<noteq> None" "pf p_pgidp st p = None" and a: "a \<in># M"
  shows "\<exists>st4. pid_refs st4 M \<and> groups st4 (G(a := p # G a)) \<and> grp_frame st st4 \<and> pf p_pgidp st4 = (pf p_pgidp st)(p := Some a) \<and>
    pgjoin p a st =
     (if G a = [] then
        kbind (PID_HOLD st4 a) (\<lambda>st. kbind (pglinked st p) (\<lambda>l. pid_upd a (\<lambda>x. x\<lparr>pid_pgorphaned := \<not> l\<rparr>) st))
      else
        kbind (pid_at st4 a) (\<lambda>g. if pid_pgorphaned g then
          kbind (pglinked st4 p) (\<lambda>l. if l then pid_upd a (\<lambda>x. x\<lparr>pid_pgorphaned := False\<rparr>) st4 else KRet st4) else KRet st4))"
proof -
  obtain x where x: "pid_val st a = Some x" using pid_val_live [OF refs, of a] a by blast
  obtain y where y: "pid_at st a = KRet y" "pid_pglink y = pid_pglink x" using pid_at_val [OF x] by blast
  let ?h = "pid_pglink x"
  have d: "dlist (pf p_pglink st) (pf p_ppglink st) ?h (G a)" by (rule groupsD(1) [OF g x])
  have hq: "q \<in> set (G a)" if "?h = Some q" for q using dlist_hd [OF d] that by (cases "G a") auto
  have live_h: "live_opt st ?h" using hq groups_live [OF g] by (auto simp: live_opt_def)
  define st1 where "st1 = put_opt (Some p) (\<lambda>r. r\<lparr>p_ppglink := None, p_pglink := ?h\<rparr>) st"
  define st2 where "st2 = put_opt ?h (\<lambda>r. r\<lparr>p_ppglink := Some p\<rparr>) st1"
  have l1: "live_opt st (Some p)" "live_opt st1 ?h" using p(1) live_h by (auto simp: st1_def)
  have refs2: "pid_refs st2 M" using refs by (simp add: st2_def st1_def)
  obtain st3 where st3: "pid_upd a (\<lambda>x. x\<lparr>pid_pglink := Some p\<rparr>) st2 = KRet st3" "pid_refs st3 M" "same_rest st2 st3"
    "pid_val st3 = (pid_val st2)(a := map_option (\<lambda>x. x\<lparr>pid_pglink := Some p\<rparr>) (pid_val st2 a))"
    using pid_upd_view [OF refs2 a, of "\<lambda>x. x\<lparr>pid_pglink := Some p\<rparr>"] by auto
  have p3: "ps_procs st3 p \<noteq> None" using same_restD(1) [OF st3(3)] l1 p(1) by (simp add: st2_def st1_def)
  define st4 where "st4 = put_opt (Some p) (\<lambda>r. r\<lparr>p_pgidp := Some a\<rparr>) st3"
  have l3: "live_opt st3 (Some p)" using p3 by simp
  have e3: "pf f st3 = pf f st2" for f :: "proc_t \<Rightarrow> nat option" by (rule pf_frame [OF same_restD(1) [OF st3(3)]])
  note views = pf_put_same [OF l3] pf_put_const [OF l3] pf_put_same [OF l1(2)] pf_put_const [OF l1(2)]
    pf_put_same [OF l1(1)] pf_put_const [OF l1(1)]
  have nx: "pf p_pglink st4 = (pf p_pglink st)(p := ?h)"
    unfolding st4_def by (subst views(1)) (simp, unfold e3 st2_def, subst views(3), simp, unfold st1_def, subst views(6), auto)
  have pv: "pf p_ppglink st4 = dl_set ?h (Some p) ((pf p_ppglink st)(p := None))"
    unfolding st4_def by (subst views(1)) (simp, unfold e3 st2_def, subst views(4), simp, unfold st1_def, subst views(6), auto)
  have pg: "pf p_pgidp st4 = (pf p_pgidp st)(p := Some a)"
    unfolding st4_def by (subst views(2)) (simp, unfold e3 st2_def, subst views(3), simp, unfold st1_def, subst views(5), auto)
  have val: "pid_val st4 = (pid_val st)(a \<mapsto> x\<lparr>pid_pglink := Some p\<rparr>)" using st3(4) x by (simp add: st4_def st2_def st1_def)
  have g4: "groups st4 (G(a := p # G a))" by (rule groups_push [OF g p(2) x nx pv pg val]) simp
  have "grp_frame st st1" unfolding st1_def by (rule put_opt_frame [OF l1(1)]) (simp add: proc_rest_def)
  moreover have "grp_frame st1 st2" unfolding st2_def by (rule put_opt_frame [OF l1(2)]) (simp add: proc_rest_def)
  moreover have "grp_frame st2 st3" by (rule pid_upd_frame [OF st3(3,4)]) (simp add: pid_rest_def)
  moreover have "grp_frame st3 st4" unfolding st4_def by (rule put_opt_frame [OF l3]) (simp add: proc_rest_def)
  ultimately have f4: "grp_frame st st4" by (blast intro: grp_frame_trans)
  obtain r where r: "ps_procs st4 p = Some r" using l3 p3 by (fastforce simp: st4_def)
  have rl: "p_pglink r = ?h" using nx pf_Some [OF r, of p_pglink] by simp
  have "pid_refs st4 M" using st3(2) by (simp add: st4_def)
  then show ?thesis
    using y p(1) l1 st3(1) p3 r rl g4 f4 pg dlist_None_iff [OF d] by (intro exI [of _ st4])
    (simp add: pgjoin_def put_some_run put_opt_run st1_def [symmetric] st2_def [symmetric] st4_def [symmetric] proc_at_def)
qed

lemma grp_resultI: "run = KRet st' \<Longrightarrow> pid_refs st' M \<Longrightarrow> groups st' G \<Longrightarrow> grp_frame st st' \<Longrightarrow> pf p_pgidp st' = pg \<Longrightarrow> grp_result run st M G pg"
  unfolding grp_result_def by blast

lemma pgjoin_ok:
  assumes refs: "pid_refs st M" and g: "groups st G" and par: "parents_ok st"
    and p: "ps_procs st p \<noteq> None" "pf p_pgidp st p = None" and a: "a \<in># M" and c: "count M a + 1 < 2 ^ 32"
  shows "grp_result (pgjoin p a st) st (if G a = [] then M + {#a#} else M) (G(a := p # G a)) ((pf p_pgidp st)(p := Some a))"
proof -
  let ?G = "G(a := p # G a)" and ?pg = "(pf p_pgidp st)(p := Some a)"
  obtain st4 where r4: "pid_refs st4 M" and g4: "groups st4 ?G" and f4: "grp_frame st st4" and pg: "pf p_pgidp st4 = ?pg"
    and run: "pgjoin p a st =
     (if G a = [] then
        kbind (PID_HOLD st4 a) (\<lambda>st. kbind (pglinked st p) (\<lambda>l. pid_upd a (\<lambda>x. x\<lparr>pid_pgorphaned := \<not> l\<rparr>) st))
      else
        kbind (pid_at st4 a) (\<lambda>g. if pid_pgorphaned g then
          kbind (pglinked st4 p) (\<lambda>l. if l then pid_upd a (\<lambda>x. x\<lparr>pid_pgorphaned := False\<rparr>) st4 else KRet st4) else KRet st4))"
    using pgjoin_links [OF refs g p a] by blast
  have p4: "ps_procs st4 p \<noteq> None" using groups_live [OF g4, of p a] by simp
  show ?thesis
  proof (cases "G a = []")
    case True
    obtain st5 where st5: "PID_HOLD st4 a = KRet st5" "pid_refs st5 (M + {#a#})" "pid_val st5 = pid_val st4" "same_rest st4 st5"
      using PID_HOLD_ok [OF r4 a c] by blast
    note s5 = groups_same_val [OF g4 st5(4,3)]
    have f5: "grp_frame st st5" by (rule grp_frame_trans [OF f4 s5(2)])
    have "ps_procs st5 p \<noteq> None" using same_restD(1) [OF st5(4)] p4 by simp
    then obtain l where l: "pglinked st5 p = KRet l" using pglinked_ok [OF parents_ok_frame [OF f5 par]] by blast
    have "grp_result (pid_upd a (\<lambda>x. x\<lparr>pid_pgorphaned := \<not> l\<rparr>) st5) st (M + {#a#}) ?G ?pg"
      by (rule set_orphaned_ok [OF st5(2) s5(1) _ f5]) (use s5(3) pg in auto)
    then show ?thesis using run True st5(1) l by simp
  next
    case False
    obtain z where z: "pid_at st4 a = KRet z" using pid_refsD(3) [OF r4 a] by (auto simp: pid_at_def)
    obtain l where l: "pglinked st4 p = KRet l" using pglinked_ok [OF parents_ok_frame [OF f4 par] p4] by blast
    have "grp_result (pid_upd a (\<lambda>x. x\<lparr>pid_pgorphaned := False\<rparr>) st4) st M ?G ?pg"
      by (rule set_orphaned_ok [OF r4 g4 a f4 pg])
    moreover have "grp_result (KRet st4) st M ?G ?pg" by (rule grp_resultI [OF refl r4 g4 f4 pg])
    ultimately show ?thesis using run False z l by simp
  qed
qed

text \<open>The state in which the member has left the list, and what is left to do there.\<close>

definition pgexit_tail :: "pid_ptr \<Rightarrow> pidsys \<Rightarrow> pidsys kres" where
  "pgexit_tail a st =
     kbind (pid_at st a) (\<lambda>g.
       if pid_pglink g = None then PID_RELE st a
       else if \<not> pid_pgorphaned g then
         kbind (pg_any (length (procdir st)) st (pglinked st) (pid_pglink g)) (\<lambda>l.
           if l then KRet st else pid_upd a (\<lambda>x. x\<lparr>pid_pgorphaned := True\<rparr>) st)
       else KRet st)"

lemma pgexit_links:
  assumes refs: "pid_refs st M" and g: "groups st G" and pa: "pf p_pgidp st p = Some a"
  shows "\<exists>st4. pid_refs st4 M \<and> groups st4 (G(a := remove1 p (G a))) \<and> grp_frame st st4 \<and>
    pf p_pgidp st4 = (pf p_pgidp st)(p := None) \<and> pgexit p st = pgexit_tail a st4"
proof -
  obtain r where r: "ps_procs st p = Some r" "p_pgidp r = Some a" using pf_SomeD [OF pa] by blast
  obtain x where x: "pid_val st a = Some x" using groupsD(3) [OF g pa] by blast
  have a: "a \<in># M" using pid_val_live [OF refs, of a] x by simp
  obtain y where y: "pid_at st a = KRet y" "pid_pglink y = pid_pglink x" using pid_at_val [OF x] by blast
  have d: "dlist (pf p_pglink st) (pf p_ppglink st) (pid_pglink x) (G a)" by (rule groupsD(1) [OF g x])
  have pG: "p \<in> set (G a)" using groupsD(2) [OF g] pa by simp
  have n: "pf p_pglink st p = p_pglink r" "pf p_ppglink st p = p_ppglink r" using pf_Some [OF r(1)] by auto
  have lv: "live_opt st (p_ppglink r)" "live_opt st (p_pglink r)"
    using dlist_nx [OF d pG] dlist_pv [OF d pG] groups_live [OF g] n by (auto simp: live_opt_def)
  let ?v = "\<lambda>x. if pid_pglink x = Some p then x\<lparr>pid_pglink := p_pglink r\<rparr> else x"
  have "pid_id (?v x) = pid_id x" "pid_ref (?v x) = pid_ref x" "?v (x\<lparr>pid_ref := 0\<rparr>) = (?v x)\<lparr>pid_ref := 0\<rparr>" for x by auto
  from pid_upd_view [OF refs a this] obtain st1 where st1: "pid_upd a ?v st = KRet st1" "pid_refs st1 M" "same_rest st st1"
    "pid_val st1 = (pid_val st)(a := map_option ?v (pid_val st a))" by blast
  have run1: "(if pid_pglink y = Some p then pid_upd a (\<lambda>x. x\<lparr>pid_pglink := p_pglink r\<rparr>) st else KRet st) = KRet st1"
    using y(1) st1(1) by (auto simp: pid_upd_def pid_at_def fun_upd_idem split: option.splits)
  have pr1: "ps_procs st1 = ps_procs st" by (rule same_restD(1) [OF st1(3)])
  define st2 where "st2 = put_opt (p_ppglink r) (\<lambda>x. x\<lparr>p_pglink := p_pglink r\<rparr>) st1"
  define st3 where "st3 = put_opt (p_pglink r) (\<lambda>x. x\<lparr>p_ppglink := p_ppglink r\<rparr>) st2"
  define st4 where "st4 = put_opt (Some p) (\<lambda>x. x\<lparr>p_pgidp := None, p_pglink := None, p_ppglink := None\<rparr>) st3"
  have l1: "live_opt st1 (p_ppglink r)" using lv pr1 by (simp add: live_opt_def)
  have l2: "live_opt st2 (p_pglink r)" using lv pr1 l1 by (simp add: st2_def) (simp add: live_opt_def)
  have l3: "live_opt st3 (Some p)" using r(1) pr1 l1 l2 by (simp add: st3_def st2_def)
  note views = pf_put_same [OF l3] pf_put_const [OF l3] pf_put_same [OF l2] pf_put_const [OF l2]
    pf_put_same [OF l1] pf_put_const [OF l1]
  have e1: "pf f st1 = pf f st" for f :: "proc_t \<Rightarrow> nat option" by (rule pf_frame [OF pr1])
  have nx: "pf p_pglink st4 = (dl_set (pf p_ppglink st p) (pf p_pglink st p) (pf p_pglink st))(p := None)"
    unfolding st4_def n by (subst views(2)) (simp, unfold st3_def, subst views(3), simp, unfold st2_def, subst views(6), auto simp: e1)
  have pv: "pf p_ppglink st4 = (dl_set (pf p_pglink st p) (pf p_ppglink st p) (pf p_ppglink st))(p := None)"
    unfolding st4_def n by (subst views(2)) (simp, unfold st3_def, subst views(4), simp, unfold st2_def, subst views(5), auto simp: e1)
  have pg: "pf p_pgidp st4 = (pf p_pgidp st)(p := None)"
    unfolding st4_def by (subst views(2)) (simp, unfold st3_def, subst views(3), simp, unfold st2_def, subst views(5), auto simp: e1)
  have val: "pid_val st4 = (pid_val st)(a \<mapsto> ?v x)" using st1(4) x by (simp add: st4_def st3_def st2_def)
  have g4: "groups st4 (G(a := remove1 p (G a)))" by (rule groups_pop [OF g pa x nx pv pg val]) (simp add: n)
  have "grp_frame st st1" by (rule pid_upd_frame [OF st1(3,4)]) (simp add: pid_rest_def)
  moreover have "grp_frame st1 st2" unfolding st2_def by (rule put_opt_frame [OF l1]) (simp add: proc_rest_def)
  moreover have "grp_frame st2 st3" unfolding st3_def by (rule put_opt_frame [OF l2]) (simp add: proc_rest_def)
  moreover have "grp_frame st3 st4" unfolding st4_def by (rule put_opt_frame [OF l3]) (simp add: proc_rest_def)
  ultimately have f4: "grp_frame st st4" by (blast intro: grp_frame_trans)
  have "pgexit p st = pgexit_tail a st4"
    using put_some_run [of st3 p] l3 r y(1) run1 put_opt_run [OF l1] put_opt_run [OF l2]
    by (simp add: pgexit_def pgexit_tail_def proc_at_def deref_def st2_def [symmetric] st3_def [symmetric] st4_def [symmetric])
  moreover have "pid_refs st4 M" using st1(2) by (simp add: st4_def st3_def st2_def)
  ultimately show ?thesis using g4 f4 pg by blast
qed

lemma pgexit_ok:
  assumes refs: "pid_refs st M" and g: "groups st G" and par: "parents_ok st" and few: "length (G a) \<le> length (procdir st)"
    and pa: "pf p_pgidp st p = Some a"
  shows "grp_result (pgexit p st) st (if remove1 p (G a) = [] then M - {#a#} else M) (G(a := remove1 p (G a))) ((pf p_pgidp st)(p := None))"
proof -
  let ?G = "G(a := remove1 p (G a))" and ?pg = "(pf p_pgidp st)(p := None)"
  obtain st4 where r4: "pid_refs st4 M" and g4: "groups st4 ?G" and f4: "grp_frame st st4" and pg: "pf p_pgidp st4 = ?pg"
    and run: "pgexit p st = pgexit_tail a st4" using pgexit_links [OF refs g pa] by blast
  have a: "a \<in># M" using pid_val_live [OF refs, of a] groupsD(3) [OF g pa] by simp
  obtain x where x: "pid_val st4 a = Some x" using pid_val_live [OF r4, of a] a by blast
  obtain y where y: "pid_at st4 a = KRet y" "pid_pglink y = pid_pglink x" using pid_at_val [OF x] by blast
  have d: "dlist (pf p_pglink st4) (pf p_ppglink st4) (pid_pglink x) (remove1 p (G a))" using groupsD(1) [OF g4 x] by simp
  show ?thesis
  proof (cases "remove1 p (G a) = []")
    case True
    obtain st5 where st5: "PID_RELE st4 a = KRet st5" "pid_refs st5 (M - {#a#})" "same_rest st4 st5"
      "pid_val st5 = (if a \<in># M - {#a#} then pid_val st4 else (pid_val st4)(a := None))" using PID_RELE_ok [OF r4 a] by blast
    have none: "b \<noteq> a" if "pf p_pgidp st4 q = Some b" for q b using groupsD(2) [OF g4, of q a] that True by auto
    have "groups st5 ?G"
      by (rule groups_frame [OF g4 same_restD(1) [OF st5(3)]])
         (use st5(4) none groupsD(3) [OF g4] in \<open>auto split: if_splits\<close>)
    moreover have "grp_frame st st5"
      by (rule grp_frame_trans [OF f4 pid_val_grp_frame [OF st5(3)]]) (use st5(4) in \<open>auto split: if_splits\<close>)
    moreover have "pf p_pgidp st5 = ?pg" using pf_frame [OF same_restD(1) [OF st5(3)], of p_pgidp] pg by simp
    moreover have "pgexit p st = KRet st5" using run y st5(1) dlist_None_iff [OF d] True by (simp add: pgexit_tail_def)
    ultimately show ?thesis using True st5(2) unfolding grp_result_def by auto
  next
    case False
    have live: "ps_procs st4 q \<noteq> None" if "q \<in> set (remove1 p (G a))" for q using groups_live [OF g4, of q a] that by simp
    have "\<forall>q. \<exists>l. q \<in> set (remove1 p (G a)) \<longrightarrow> pglinked st4 q = KRet l" using pglinked_ok [OF parents_ok_frame [OF f4 par]] live by metis
    then obtain lk where lk: "\<And>q. q \<in> set (remove1 p (G a)) \<Longrightarrow> pglinked st4 q = KRet (lk q)" by metis
    have len: "length (remove1 p (G a)) \<le> length (procdir st4)" using few rest_fieldsD(2) [OF grp_frameD(3) [OF f4]] by (auto simp: length_remove1)
    have any: "pg_any (length (procdir st4)) st4 (pglinked st4) (pid_pglink x) = KRet (\<exists>q \<in> set (remove1 p (G a)). lk q)"
      by (rule pg_any_ok [OF lk live _ len]) (use d in \<open>auto simp: dlist_def\<close>)
    have "grp_result (pid_upd a (\<lambda>x. x\<lparr>pid_pgorphaned := True\<rparr>) st4) st M ?G ?pg" by (rule set_orphaned_ok [OF r4 g4 a f4 pg])
    moreover have "grp_result (KRet st4) st M ?G ?pg" by (rule grp_resultI [OF refl r4 g4 f4 pg])
    ultimately show ?thesis using run y False dlist_None_iff [OF d] any by (auto simp: pgexit_tail_def)
  qed
qed

end
