(* ===== verification/Pid_Inv.thy ===== *)
theory Pid_Inv
  imports Pgrp_Ops
begin

text \<open>
  The invariant of the tables of \<^verbatim>\<open>Pid\<close> and \<^verbatim>\<open>Pgrp\<close>: slots and processes correspond, the active
  processes are on one list and have a session, sessions count their processes, children and
  parents agree, and the count of an id is the number of its holders.
\<close>

section \<open>Slots\<close>

fun free_chain :: "procent list \<Rightarrow> nat option \<Rightarrow> nat list \<Rightarrow> bool" where
  "free_chain d h [] \<longleftrightarrow> h = None"
| "free_chain d h (i # is) \<longleftrightarrow> h = Some i \<and> i < length d \<and> (\<exists>n. d ! i = Pe_next n \<and> free_chain d n is)"

text \<open>The slot of an id whose process is active.\<close>

definition pslot :: "pidsys \<Rightarrow> pid_ptr \<Rightarrow> nat option" where
  "pslot st a = Option.bind (pid_val st a) (\<lambda>x. if pid_prinactive x then None else Some (pid_prslot x))"

definition slots :: "pidsys \<Rightarrow> nat list \<Rightarrow> bool" where
  "slots st fs \<longleftrightarrow> free_chain (procdir st) (procentfree st) fs \<and> distinct fs \<and> length (procdir st) \<le> 2 ^ 24 \<and>
     (\<forall>i < length (procdir st). i \<notin> set fs \<longrightarrow> (\<exists>p a. procdir st ! i = Pe_proc p \<and> pf p_pidp st p = Some a \<and> pslot st a = Some i)) \<and>
     (\<forall>p. ps_procs st p \<noteq> None \<longrightarrow>
        (\<exists>a i. pf p_pidp st p = Some a \<and> pslot st a = Some i \<and> i < length (procdir st) \<and> procdir st ! i = Pe_proc p)) \<and>
     (\<forall>a i. pslot st a = Some i \<longrightarrow> (\<exists>p. pf p_pidp st p = Some a))"

lemma free_chain_update: "i \<notin> set fs \<Longrightarrow> free_chain (d[i := e]) h fs = free_chain d h fs"
  by (induction fs arbitrary: h) auto

lemma free_chain_next: "free_chain d h fs \<Longrightarrow> i \<in> set fs \<Longrightarrow> \<exists>n. d ! i = Pe_next n"
  by (induction fs arbitrary: h) auto

lemma slotsD:
  assumes "slots st fs"
  shows "free_chain (procdir st) (procentfree st) fs" "distinct fs" "length (procdir st) \<le> 2 ^ 24"
    "i < length (procdir st) \<Longrightarrow> i \<notin> set fs \<Longrightarrow> \<exists>p a. procdir st ! i = Pe_proc p \<and> pf p_pidp st p = Some a \<and> pslot st a = Some i"
    "ps_procs st p \<noteq> None \<Longrightarrow>
       \<exists>a i. pf p_pidp st p = Some a \<and> pslot st a = Some i \<and> i < length (procdir st) \<and> procdir st ! i = Pe_proc p"
    "pslot st a = Some j \<Longrightarrow> \<exists>p. pf p_pidp st p = Some a"
  using assms unfolding slots_def by blast+

lemma pf_live: "pf f st p \<noteq> None \<Longrightarrow> ps_procs st p \<noteq> None"
  by (cases "ps_procs st p") (auto simp: pf_def)

lemma slots_proc:
  assumes "slots st fs" "pf p_pidp st p = Some a"
  shows "\<exists>i. pslot st a = Some i \<and> i < length (procdir st) \<and> procdir st ! i = Pe_proc p"
  using slotsD(5) [OF assms(1), of p] pf_live [of p_pidp st p] assms(2) by auto

lemma slots_inj: "slots st fs \<Longrightarrow> pf p_pidp st p = Some a \<Longrightarrow> pf p_pidp st q = Some a \<Longrightarrow> p = q"
  using slots_proc [of st fs p a] slots_proc [of st fs q a] by auto

lemma slots_finite:
  assumes "slots st fs"
  shows "finite (dom (ps_procs st))" "card (dom (ps_procs st)) \<le> length (procdir st)"
proof -
  have sub: "Pe_proc ` dom (ps_procs st) \<subseteq> set (procdir st)"
    using slotsD(5) [OF assms] by (auto simp: dom_def) (metis nth_mem option.distinct(1))
  have inj: "inj_on Pe_proc (dom (ps_procs st))" by (auto intro: inj_onI)
  show f: "finite (dom (ps_procs st))" using finite_subset [OF sub] finite_imageD [OF _ inj] by blast
  have "card (dom (ps_procs st)) \<le> card (set (procdir st))" using card_mono [OF _ sub] card_image [OF inj] by simp
  then show "card (dom (ps_procs st)) \<le> length (procdir st)" using card_length [of "procdir st"] by linarith
qed

lemma slots_few:
  assumes "slots st fs" "groups st G"
  shows "length (G a) \<le> length (procdir st)"
proof (cases "pid_val st a")
  case None
  then have "G a = []" using groupsD(2,3) [OF assms(2)] by (metis last_in_set)
  then show ?thesis by simp
next
  case (Some x)
  have d: "distinct (G a)" using groupsD(1) [OF assms(2) Some] by (simp add: dlist_def)
  have "set (G a) \<subseteq> dom (ps_procs st)" using groups_live [OF assms(2)] by auto
  from card_mono [OF slots_finite(1) [OF assms(1)] this] show ?thesis
    using slots_finite(2) [OF assms(1)] distinct_card [OF d] by linarith
qed

section \<open>Lists, sessions and families\<close>

definition active :: "pidsys \<Rightarrow> proc_ptr list \<Rightarrow> bool" where
  "active st L \<longleftrightarrow> dlist (pf p_next st) (pf p_prev st) (practive st) L \<and>
     (\<forall>p. p \<in> set L \<longleftrightarrow> pf p_sessp st p \<noteq> None) \<and> (\<forall>p. pf p_sessp st p = None \<longrightarrow> pf p_prev st p = None) \<and>
     nproc st = of_nat (length L)"

definition sess_procs :: "pidsys \<Rightarrow> sess_ptr \<Rightarrow> proc_ptr set" where
  "sess_procs st s = {p. pf p_sessp st p = Some s}"

definition sess_ok :: "pidsys \<Rightarrow> bool" where
  "sess_ok st \<longleftrightarrow> (\<forall>p s. pf p_sessp st p = Some s \<longrightarrow> ps_sess st s \<noteq> None) \<and>
     (\<forall>s x. ps_sess st s = Some x \<longrightarrow> sess_procs st s \<noteq> {} \<and> unat (s_ref x) = card (sess_procs st s)) \<and>
     pf p_sessp st p0 = Some session0"

definition children :: "pidsys \<Rightarrow> proc_ptr \<Rightarrow> proc_ptr list" where
  "children st p = (case ps_procs st p of None \<Rightarrow> [] | Some r \<Rightarrow> p_child r)"

definition family :: "pidsys \<Rightarrow> bool" where
  "family st \<longleftrightarrow> (\<forall>p c. c \<in> set (children st p) \<longleftrightarrow> pf p_parent st c = Some p) \<and> (\<forall>p. distinct (children st p)) \<and>
     (\<forall>p. pf p_sessp st p \<noteq> None \<and> p \<noteq> p0 \<longrightarrow> pf p_parent st p \<noteq> None) \<and>
     (\<forall>p. pf p_sessp st p = None \<longrightarrow> pf p_parent st p = None \<and> children st p = [])"

definition sids :: "pidsys \<Rightarrow> pid_ptr \<Rightarrow> sess_ptr set" where
  "sids st a = {s. \<exists>x. ps_sess st s = Some x \<and> s_sidp x = a}"

text \<open>
  The holders of an id: its process, its group, the sessions it names, and those outside of the
  tables, which are the multiset \<open>D\<close>.
\<close>

definition holders :: "pidsys \<Rightarrow> (pid_ptr \<Rightarrow> proc_ptr list) \<Rightarrow> pid_ptr multiset \<Rightarrow> pid_ptr \<Rightarrow> nat" where
  "holders st G D a =
     (if pslot st a = None then 0 else 1) + (if G a = [] then 0 else 1) + card (sids st a) + count D a"

text \<open>The id of a process that is not linked yet names no group and no session.\<close>

definition named_ok :: "pidsys \<Rightarrow> bool" where
  "named_ok st \<longleftrightarrow> (\<forall>p a. pf p_pidp st p = Some a \<longrightarrow> sids st a \<noteq> {} \<or> (\<exists>q. pf p_pgidp st q = Some a) \<longrightarrow> pf p_sessp st p \<noteq> None)"

definition core :: "pidsys \<Rightarrow> nat list \<Rightarrow> proc_ptr list \<Rightarrow> bool" where
  "core st fs L \<longleftrightarrow> slots st fs \<and> active st L \<and> sess_ok st \<and> mpid_ok st (mpid st) \<and>
     (\<forall>p. pf p_pgidp st p \<noteq> None \<longrightarrow> pf p_sessp st p \<noteq> None) \<and> named_ok st"

text \<open>
  The tables without the families.  \<open>N\<close> are the holds of sessions that are still to be taken: a new
  session gets its hold last.
\<close>

definition pid_pend :: "pid_ptr multiset \<Rightarrow> pid_ptr multiset \<Rightarrow> pidsys \<Rightarrow> pid_ptr multiset \<Rightarrow> (pid_ptr \<Rightarrow> proc_ptr list) \<Rightarrow> bool" where
  "pid_pend N D st H G \<longleftrightarrow> (\<exists>fs L. pid_refs st H \<and> groups st G \<and> core st fs L \<and>
     (\<forall>a. count H a + count N a = holders st G D a \<and> count N a \<le> card (sids st a) \<and> count D a < 2 ^ 31))"

definition pid_inv :: "pid_ptr multiset \<Rightarrow> pidsys \<Rightarrow> bool" where
  "pid_inv D st \<longleftrightarrow> (\<exists>H G. pid_pend {#} D st H G) \<and> family st"

lemma coreD:
  assumes "core st fs L"
  shows "slots st fs" "active st L" "sess_ok st" "mpid_ok st (mpid st)" "pf p_pgidp st p \<noteq> None \<Longrightarrow> pf p_sessp st p \<noteq> None"
    "named_ok st"
  using assms by (simp_all add: core_def)

lemma pid_pendI:
  "pid_refs st H \<Longrightarrow> groups st G \<Longrightarrow> core st fs L \<Longrightarrow> (\<And>a. count H a + count N a = holders st G D a) \<Longrightarrow>
   (\<And>a. count N a \<le> card (sids st a)) \<Longrightarrow> (\<And>a. count D a < 2 ^ 31) \<Longrightarrow> pid_pend N D st H G"
  unfolding pid_pend_def by blast

lemma pid_pendD:
  assumes "pid_pend N D st H G"
  shows "pid_refs st H" "groups st G" "\<exists>fs L. core st fs L" "count H a + count N a = holders st G D a" "count N a \<le> card (sids st a)"
    "count D a < 2 ^ 31"
  using assms unfolding pid_pend_def by blast+

section \<open>What the parts depend on\<close>

lemma children_live: "c \<in> set (children st p) \<Longrightarrow> ps_procs st p \<noteq> None"
  by (cases "ps_procs st p") (auto simp: children_def)

lemma family_parents: "family st \<Longrightarrow> parents_ok st"
  unfolding family_def parents_ok_def by (metis children_live)

lemma slots_views:
  assumes "slots st fs" "procdir st' = procdir st" "procentfree st' = procentfree st" "pf p_pidp st' = pf p_pidp st"
    "pslot st' = pslot st" "dom (ps_procs st') = dom (ps_procs st)"
  shows "slots st' fs"
proof -
  have e: "ps_procs st' p = None \<longleftrightarrow> ps_procs st p = None" for p using assms(6) by (metis domIff)
  show ?thesis using assms(1) unfolding slots_def assms(2-5) e .
qed

lemma active_views:
  assumes "active st L" "pf p_next st' = pf p_next st" "pf p_prev st' = pf p_prev st" "practive st' = practive st"
    "\<And>p. pf p_sessp st' p = None \<longleftrightarrow> pf p_sessp st p = None" "nproc st' = nproc st"
  shows "active st' L"
  using assms unfolding active_def by simp

lemma sess_views:
  assumes "sess_ok st" "ps_sess st' = ps_sess st" "pf p_sessp st' = pf p_sessp st"
  shows "sess_ok st'"
  using assms unfolding sess_ok_def sess_procs_def by simp

lemma family_views:
  assumes "family st" "children st' = children st" "pf p_parent st' = pf p_parent st" "pf p_sessp st' = pf p_sessp st"
  shows "family st'"
  using assms unfolding family_def by simp

lemma children_grp_frame:
  assumes "grp_frame st st'"
  shows "children st' = children st"
proof
  fix p
  show "children st' p = children st p"
  proof (cases "ps_procs st p")
    case None
    then show ?thesis using grp_frameD(1) [OF assms, of p] by (simp add: children_def)
  next
    case (Some r)
    then obtain r' where r': "ps_procs st' p = Some r'" "proc_rest r' = proc_rest r" using grp_frameD(1) [OF assms, of p] by auto
    have "p_child r' = p_child r" using arg_cong [OF r'(2), of p_child] by simp
    then show ?thesis using Some r'(1) by (simp add: children_def)
  qed
qed

lemma grp_frame_fields:
  assumes "grp_frame st st'"
  shows "pf p_pidp st' = pf p_pidp st" "pf p_next st' = pf p_next st" "pf p_prev st' = pf p_prev st"
    "pf p_sessp st' = pf p_sessp st" "pf p_parent st' = pf p_parent st"
  by (rule pf_grp_frame [OF assms], simp)+

lemma pid_rest_simps [simp]: "pid_prinactive (pid_rest x) = pid_prinactive x" "pid_prslot (pid_rest x) = pid_prslot x" "pid_id (pid_rest x) = pid_id x"
  by (simp_all add: pid_rest_def)

lemma pslot_frame:
  assumes "grp_frame st st'" "\<And>a. pslot st a \<noteq> None \<Longrightarrow> pid_val st' a \<noteq> None"
  shows "pslot st' = pslot st"
proof
  fix a
  show "pslot st' a = pslot st a"
  proof (cases "ps_pids st' a")
    case None
    then have n: "pid_val st' a = None" by (simp add: pid_val_def)
    then show ?thesis using assms(2) [of a] by (cases "pslot st a") (auto simp: pslot_def)
  next
    case (Some x')
    then obtain x where x: "ps_pids st a = Some x" "pid_rest x' = pid_rest x" using grp_frameD(2) [OF assms(1)] by blast
    have "pid_prinactive x' = pid_prinactive x" "pid_prslot x' = pid_prslot x"
      using arg_cong [OF x(2), of pid_prinactive] arg_cong [OF x(2), of pid_prslot] by simp_all
    then show ?thesis using Some x(1) by (simp add: pslot_def pid_val_def)
  qed
qed

lemma core_frame:
  assumes "core st fs L" "grp_frame st st'" "\<And>a. pslot st a \<noteq> None \<Longrightarrow> pid_val st' a \<noteq> None"
    "\<And>p. pf p_pgidp st' p \<noteq> None \<Longrightarrow> pf p_sessp st p \<noteq> None"
    "\<And>p a q. pf p_pgidp st' q = Some a \<Longrightarrow> pf p_pgidp st q \<noteq> Some a \<Longrightarrow> pf p_pidp st p = Some a \<Longrightarrow> pf p_sessp st p \<noteq> None"
  shows "core st' fs L" "pslot st' = pslot st" "sids st' = sids st"
proof -
  note r = rest_fieldsD [OF grp_frameD(3) [OF assms(2)]] and e = grp_frame_fields [OF assms(2)]
  show ps: "pslot st' = pslot st" by (rule pslot_frame [OF assms(2,3)])
  show sid: "sids st' = sids st" using r(1) by (simp add: sids_def fun_eq_iff)
  have "slots st' fs" by (rule slots_views [OF coreD(1) [OF assms(1)]]) (simp_all add: r ps e grp_frame_dom [OF assms(2)])
  moreover have "active st' L" by (rule active_views [OF coreD(2) [OF assms(1)]]) (simp_all add: r e)
  moreover have "sess_ok st'" by (rule sess_views [OF coreD(3) [OF assms(1)]]) (simp_all add: r e)
  moreover have "mpid_ok st' (mpid st')" using coreD(4) [OF assms(1)] r by (simp add: mpid_ok_def)
  moreover have "named_ok st'" using coreD(6) [OF assms(1)] assms(5) unfolding named_ok_def sid e by blast
  ultimately show "core st' fs L" using assms(4) e by (simp add: core_def)
qed

section \<open>Bounds\<close>

lemma sess_finite:
  assumes "core st fs L"
  shows "finite (dom (ps_sess st))" "card (dom (ps_sess st)) \<le> 2 ^ 24" "finite (sess_procs st s)" "card (sess_procs st s) \<le> 2 ^ 24"
proof -
  note fin = slots_finite [OF coreD(1) [OF assms]]
  have big: "card (dom (ps_procs st)) \<le> 2 ^ 24" using fin(2) slotsD(3) [OF coreD(1) [OF assms]] by linarith
  have sub: "dom (ps_sess st) \<subseteq> (\<lambda>p. the (pf p_sessp st p)) ` dom (ps_procs st)"
  proof
    fix s
    assume "s \<in> dom (ps_sess st)"
    then obtain x where "ps_sess st s = Some x" by blast
    then have "sess_procs st s \<noteq> {}" using coreD(3) [OF assms] unfolding sess_ok_def by blast
    then obtain p where p: "pf p_sessp st p = Some s" unfolding sess_procs_def by blast
    then show "s \<in> (\<lambda>p. the (pf p_sessp st p)) ` dom (ps_procs st)" using pf_live [of p_sessp st p] by (intro image_eqI [of _ _ p]) auto
  qed
  show "finite (dom (ps_sess st))" using finite_subset [OF sub] fin(1) by blast
  show "card (dom (ps_sess st)) \<le> 2 ^ 24"
    using card_mono [OF finite_imageI [OF fin(1)] sub] card_image_le [OF fin(1), of "\<lambda>p. the (pf p_sessp st p)"] big by linarith
  have sub2: "sess_procs st s \<subseteq> dom (ps_procs st)" unfolding sess_procs_def using pf_live [of p_sessp st] by force
  show "finite (sess_procs st s)" by (rule finite_subset [OF sub2 fin(1)])
  show "card (sess_procs st s) \<le> 2 ^ 24" using card_mono [OF fin(1) sub2] big by linarith
qed

lemma sids_finite:
  assumes "core st fs L"
  shows "finite (sids st a)" "card (sids st a) \<le> 2 ^ 24"
proof -
  have sub: "sids st a \<subseteq> dom (ps_sess st)" by (auto simp: sids_def)
  show "finite (sids st a)" by (rule finite_subset [OF sub sess_finite(1) [OF assms]])
  show "card (sids st a) \<le> 2 ^ 24" using card_mono [OF sess_finite(1) [OF assms] sub] sess_finite(2) [OF assms] by linarith
qed

lemma pend_bound:
  assumes "pid_pend N D st H G"
  shows "count H a + 1 < 2 ^ 32"
proof -
  obtain fs L where c: "core st fs L" using pid_pendD(3) [OF assms] by blast
  have "count H a \<le> holders st G D a" using pid_pendD(4) [OF assms, of a] by linarith
  then show ?thesis using sids_finite(2) [OF c, of a] pid_pendD(6) [OF assms, of a] by (simp add: holders_def split: if_splits)
qed

lemma holders_gt: "pslot st a \<noteq> None \<or> G a \<noteq> [] \<Longrightarrow> card (sids st a) < holders st G D a"
  by (auto simp: holders_def)

text \<open>An id with an active process, or with a group, is live.\<close>

lemma pend_live:
  assumes "pid_pend N D st H G" "pslot st a \<noteq> None \<or> G a \<noteq> []"
  shows "a \<in># H"
proof -
  have "0 < count H a" using pid_pendD(4,5) [OF assms(1), of a] holders_gt [of st a G D] assms(2) by linarith
  then show ?thesis by simp
qed

section \<open>Group operations\<close>

lemma pgjoin_pend:
  assumes inv: "pid_pend N D st H G" and par: "parents_ok st" and p: "pf p_pgidp st p = None" "pf p_sessp st p \<noteq> None" and a: "a \<in># H"
    and na: "\<And>q. pf p_pidp st q = Some a \<Longrightarrow> pf p_sessp st q \<noteq> None"
  shows "\<exists>st' H'. pgjoin p a st = KRet st' \<and> pid_pend N D st' H' (G(a := p # G a)) \<and> grp_frame st st' \<and>
    pf p_pgidp st' = (pf p_pgidp st)(p := Some a)"
proof -
  obtain fs L where c: "core st fs L" using pid_pendD(3) [OF inv] by blast
  let ?M = "if G a = [] then H + {#a#} else H" and ?G = "G(a := p # G a)"
  obtain st' where st': "pgjoin p a st = KRet st'" "pid_refs st' ?M" "groups st' ?G" "grp_frame st st'"
    "pf p_pgidp st' = (pf p_pgidp st)(p := Some a)"
    using pgjoin_ok [OF pid_pendD(1,2) [OF inv] par pf_live [OF p(2)] p(1) a pend_bound [OF inv]] unfolding grp_result_def by blast
  have live: "pid_val st' b \<noteq> None" if "pslot st b \<noteq> None" for b
    using pid_val_live [OF st'(2), of b] pend_live [OF inv, of b] that by (auto split: if_splits)
  have join: "pf p_sessp st q \<noteq> None" if "pf p_pgidp st' q \<noteq> None" for q
    using coreD(5) [OF c, of q] that st'(5) p(2) by (cases "q = p") auto
  have named: "pf p_sessp st q \<noteq> None" if "pf p_pgidp st' x = Some b" "pf p_pgidp st x \<noteq> Some b" "pf p_pidp st q = Some b" for q b x
    using that st'(5) na [of q] by (auto split: if_splits)
  note cf = core_frame [OF c st'(4) live join named]
  have "count ?M b + count N b = holders st' ?G D b" for b
    using pid_pendD(4) [OF inv, of b] by (auto simp: holders_def cf)
  then have "pid_pend N D st' ?M ?G" using pid_pendI [OF st'(2,3) cf(1)] pid_pendD(5,6) [OF inv] cf(3) by simp
  then show ?thesis using st'(1,4,5) by blast
qed

lemma pgexit_pend:
  assumes inv: "pid_pend N D st H G" and par: "parents_ok st" and p: "pf p_pgidp st p = Some a"
  shows "\<exists>st' H'. pgexit p st = KRet st' \<and> pid_pend N D st' H' (G(a := remove1 p (G a))) \<and> grp_frame st st' \<and>
    pf p_pgidp st' = (pf p_pgidp st)(p := None)"
proof -
  obtain fs L where c: "core st fs L" using pid_pendD(3) [OF inv] by blast
  let ?M = "if remove1 p (G a) = [] then H - {#a#} else H" and ?G = "G(a := remove1 p (G a))"
  have pa: "p \<in> set (G a)" using groupsD(2) [OF pid_pendD(2) [OF inv]] p by simp
  obtain st' where st': "pgexit p st = KRet st'" "pid_refs st' ?M" "groups st' ?G" "grp_frame st st'"
    "pf p_pgidp st' = (pf p_pgidp st)(p := None)"
    using pgexit_ok [OF pid_pendD(1,2) [OF inv] par slots_few [OF coreD(1) [OF c] pid_pendD(2) [OF inv]] p] unfolding grp_result_def by blast
  have ne: "G a \<noteq> []" using pa by auto
  have cnt: "count ?M b + count N b = holders st ?G D b" for b
    using pid_pendD(4,5) [OF inv, of b] pa ne by (auto simp: holders_def)
  have live: "pid_val st' b \<noteq> None" if "pslot st b \<noteq> None" for b
  proof -
    have "0 < count ?M b" using cnt [of b] pid_pendD(5) [OF inv, of b] holders_gt [of st b ?G D] that by linarith
    then have "b \<in># ?M" by (simp only: count_greater_zero_iff)
    then show ?thesis using pid_val_live [OF st'(2), of b] by simp
  qed
  have join: "pf p_sessp st q \<noteq> None" if "pf p_pgidp st' q \<noteq> None" for q
    using coreD(5) [OF c, of q] that st'(5) by (cases "q = p") auto
  have named: "pf p_sessp st q \<noteq> None" if "pf p_pgidp st' x = Some b" "pf p_pgidp st x \<noteq> Some b" for q b x
    using that st'(5) by (auto split: if_splits)
  note cf = core_frame [OF c st'(4) live join named]
  have "count ?M b + count N b = holders st' ?G D b" for b using cnt [of b] by (simp add: holders_def cf)
  then have "pid_pend N D st' ?M ?G" using pid_pendI [OF st'(2,3) cf(1)] pid_pendD(5,6) [OF inv] cf(3) by simp
  then show ?thesis using st'(1,4,5) by blast
qed

end
