(* ===== verification/Pid_Sess.thy ===== *)
theory Pid_Sess
  imports Pid_Inv
begin

text \<open>
  Sessions, holds from outside of the tables, and the end of a process: the operations of \<^verbatim>\<open>Pgrp\<close>
  that change who holds an id keep the invariant of \<^verbatim>\<open>Pid_Inv\<close>.
\<close>

section \<open>Holds\<close>

lemma pslot_live: "pslot st a \<noteq> None \<Longrightarrow> pid_val st a \<noteq> None"
  by (cases "pid_val st a") (auto simp: pslot_def)

text \<open>A change of the counts that the holders explain.\<close>

lemma counts_pend:
  assumes inv: "pid_pend N D st H G" and refs: "pid_refs st' H'" and rest: "same_rest st st'"
    and val: "\<And>b. pid_val st' b = (if b \<in># H' then pid_val st b else None)"
    and cnt: "\<And>b. count H' b + count N' b = holders st G D' b" "\<And>b. count N' b \<le> card (sids st b)" "\<And>b. count D' b < 2 ^ 31"
  shows "pid_pend N' D' st' H' G" "grp_frame st st'" "pf p_pgidp st' = pf p_pgidp st"
proof -
  obtain fs L where c: "core st fs L" using pid_pendD(3) [OF inv] by blast
  have f: "b \<in># H'" if "pslot st b \<noteq> None \<or> G b \<noteq> []" for b
  proof -
    have "0 < count H' b" using cnt(1,2) [of b] holders_gt [of st b G D'] that by linarith
    then show ?thesis by simp
  qed
  show fr: "grp_frame st st'" by (rule pid_val_grp_frame [OF rest]) (use val in \<open>auto split: if_splits\<close>)
  show pg: "pf p_pgidp st' = pf p_pgidp st" by (rule pf_frame [OF same_restD(1) [OF rest]])
  have g: "groups st' G"
  proof (rule groups_frame [OF pid_pendD(2) [OF inv] same_restD(1) [OF rest]])
    show "\<exists>x. pid_val st b = Some x \<and> pid_pglink x = pid_pglink x'" if "pid_val st' b = Some x'" for b x'
      using that val by (auto split: if_splits)
    show "pid_val st' b \<noteq> None" if q: "pf p_pgidp st q = Some b" for q b
    proof -
      have "G b \<noteq> []" using groupsD(2) [OF pid_pendD(2) [OF inv], of q b] q by auto
      then show ?thesis using f [of b] val groupsD(3) [OF pid_pendD(2) [OF inv] q] by simp
    qed
  qed
  have live: "pid_val st' b \<noteq> None" if "pslot st b \<noteq> None" for b using f [of b] val that pslot_live [OF that] by simp
  have join: "pf p_sessp st q \<noteq> None" if "pf p_pgidp st' q \<noteq> None" for q using coreD(5) [OF c, of q] that pg by simp
  have named: "pf p_sessp st p \<noteq> None" if "pf p_pgidp st' q = Some b" "pf p_pgidp st q \<noteq> Some b" for p q b using that pg by simp
  note cf = core_frame [OF c fr live join named]
  show "pid_pend N' D' st' H' G"
    by (rule pid_pendI [OF refs g cf(1)]) (use cnt cf in \<open>simp_all add: holders_def\<close>)
qed

lemma pid_val_cut: "pid_refs st M \<Longrightarrow> pid_refs st' M' \<Longrightarrow> pid_val st' = pid_val st \<or> pid_val st' = (pid_val st)(a := None) \<Longrightarrow>
  pid_val st' b = (if b \<in># M' then pid_val st b else None)"
  using pid_val_live [of st M b] pid_val_live [of st' M' b] by (auto split: if_splits)

lemma PID_HOLD_cut:
  assumes "pid_refs st M" "a \<in># M" "count M a + 1 < 2 ^ 32"
  shows "\<exists>st'. PID_HOLD st a = KRet st' \<and> pid_refs st' (M + {#a#}) \<and> same_rest st st' \<and>
    (\<forall>b. pid_val st' b = (if b \<in># M + {#a#} then pid_val st b else None))"
proof -
  obtain st' where st': "PID_HOLD st a = KRet st'" "pid_refs st' (M + {#a#})" "pid_val st' = pid_val st" "same_rest st st'"
    using PID_HOLD_ok [OF assms] by blast
  then show ?thesis using pid_val_cut [OF assms(1) st'(2)] by blast
qed

lemma PID_RELE_cut:
  assumes "pid_refs st M" "a \<in># M"
  shows "\<exists>st'. PID_RELE st a = KRet st' \<and> pid_refs st' (M - {#a#}) \<and> same_rest st st' \<and>
    (\<forall>b. pid_val st' b = (if b \<in># M - {#a#} then pid_val st b else None))"
proof -
  obtain st' where st': "PID_RELE st a = KRet st'" "pid_refs st' (M - {#a#})"
    "pid_val st' = (if a \<in># M - {#a#} then pid_val st else (pid_val st)(a := None))" "same_rest st st'"
    using PID_RELE_ok [OF assms] by blast
  then have "pid_val st' = pid_val st \<or> pid_val st' = (pid_val st)(a := None)" by simp
  then show ?thesis using pid_val_cut [OF assms(1) st'(2)] st'(1,2,4) by blast
qed

text \<open>The hold that a new session takes, a hold from outside, and its release.\<close>

lemma hold_pending:
  assumes inv: "pid_pend {#a#} D st H G" and a: "a \<in># H"
  shows "\<exists>st' H'. PID_HOLD st a = KRet st' \<and> pid_pend {#} D st' H' G \<and> grp_frame st st' \<and> pf p_pgidp st' = pf p_pgidp st"
proof -
  obtain st' where st': "PID_HOLD st a = KRet st'" "pid_refs st' (H + {#a#})" "same_rest st st'"
    "\<forall>b. pid_val st' b = (if b \<in># H + {#a#} then pid_val st b else None)"
    using PID_HOLD_cut [OF pid_pendD(1) [OF inv] a pend_bound [OF inv]] by blast
  have "count (H + {#a#}) b + count {#} b = holders st G D b" for b using pid_pendD(4) [OF inv, of b] by (auto split: if_splits)
  from counts_pend [OF inv st'(2,3) _ this] st'(4) pid_pendD(6) [OF inv] st'(1) show ?thesis by auto
qed

lemma hold_outside:
  assumes inv: "pid_pend {#} D st H G" and a: "a \<in># H" and d: "count D a + 1 < 2 ^ 31"
  shows "\<exists>st' H'. PID_HOLD st a = KRet st' \<and> pid_pend {#} (D + {#a#}) st' H' G \<and> grp_frame st st' \<and> pf p_pgidp st' = pf p_pgidp st"
proof -
  obtain st' where st': "PID_HOLD st a = KRet st'" "pid_refs st' (H + {#a#})" "same_rest st st'"
    "\<forall>b. pid_val st' b = (if b \<in># H + {#a#} then pid_val st b else None)"
    using PID_HOLD_cut [OF pid_pendD(1) [OF inv] a pend_bound [OF inv]] by blast
  have cnt: "count (H + {#a#}) b + count {#} b = holders st G (D + {#a#}) b" for b
    using pid_pendD(4) [OF inv, of b] by (simp add: holders_def)
  have "count (D + {#a#}) b < 2 ^ 31" for b using pid_pendD(6) [OF inv, of b] d by auto
  from counts_pend [OF inv st'(2,3) _ cnt _ this] st'(4,1) show ?thesis by auto
qed

lemma rele_outside:
  assumes inv: "pid_pend {#} D st H G" and a: "a \<in># D"
  shows "\<exists>st' H'. PID_RELE st a = KRet st' \<and> pid_pend {#} (D - {#a#}) st' H' G \<and> grp_frame st st' \<and> pf p_pgidp st' = pf p_pgidp st"
proof -
  have pos: "0 < count D a" using a by simp
  then have "0 < count H a" using pid_pendD(4) [OF inv, of a] by (simp add: holders_def)
  then have "a \<in># H" by simp
  then obtain st' where st': "PID_RELE st a = KRet st'" "pid_refs st' (H - {#a#})" "same_rest st st'"
    "\<forall>b. pid_val st' b = (if b \<in># H - {#a#} then pid_val st b else None)"
    using PID_RELE_cut [OF pid_pendD(1) [OF inv]] by blast
  have cnt: "count (H - {#a#}) b + count {#} b = holders st G (D - {#a#}) b" for b
    using pid_pendD(4) [OF inv, of b] pos by (auto simp: holders_def)
  have "count (D - {#a#}) b < 2 ^ 31" for b using pid_pendD(6) [OF inv, of b] by simp
  from counts_pend [OF inv st'(2,3) _ cnt _ this] st'(4,1) show ?thesis by auto
qed

section \<open>Leaving a session\<close>

lemma SESS_RELE_ok:
  assumes refs: "pid_refs st M" and x: "ps_sess st s = Some x" and n: "0 < unat (s_ref x)" "unat (s_ref x) < 2 ^ 31"
    and one: "unat (s_ref x) = 1 \<Longrightarrow> s \<noteq> session0 \<and> s_sidp x \<in># M"
  defines "M' \<equiv> if unat (s_ref x) = 1 then M - {#s_sidp x#} else M"
    and "S' \<equiv> if unat (s_ref x) = 1 then (ps_sess st)(s := None) else (ps_sess st)(s \<mapsto> x\<lparr>s_ref := s_ref x - 1\<rparr>)"
  shows "\<exists>st'. SESS_RELE s st = KRet st' \<and> pid_refs st' M' \<and> same_rest (st\<lparr>ps_sess := S'\<rparr>) st' \<and>
    (\<forall>b. pid_val st' b = (if b \<in># M' then pid_val st b else None))"
proof -
  let ?x = "x\<lparr>s_ref := s_ref x - 1\<rparr>"
  let ?st = "st\<lparr>ps_sess := (ps_sess st)(s \<mapsto> ?x)\<rparr>"
  have "1 \<le> s_ref x" using n(1) by (simp add: word_le_nat_alt)
  then have u: "unat (s_ref x - 1) = unat (s_ref x) - 1" by (subst unat_sub_le) auto
  have refs': "pid_refs ?st M" using refs pid_refs_frame [of ?st st M] by simp
  have v: "pid_val ?st = pid_val st" by (simp add: pid_val_def fun_eq_iff)
  have i: "sint (s_ref x - 1) = int (unat (s_ref x) - 1)" using u n by (subst sint_small) auto
  show ?thesis
  proof (cases "unat (s_ref x) = 1")
    case True
    then have o: "s \<noteq> session0" "s_sidp x \<in># M" using one by auto
    obtain st' where st': "PID_RELE ?st (s_sidp x) = KRet st'" "pid_refs st' (M - {#s_sidp x#})" "same_rest ?st st'"
      "\<forall>b. pid_val st' b = (if b \<in># M - {#s_sidp x#} then pid_val ?st b else None)" using PID_RELE_cut [OF refs' o(2)] by blast
    let ?st' = "st'\<lparr>ps_sess := (ps_sess st')(s := None)\<rparr>"
    have "SESS_RELE s st = KRet ?st'" using x True i o(1) st'(1) by (simp add: SESS_RELE_def sess_upd_def sess_at_def sess_rele_def)
    moreover have "pid_refs ?st' (M - {#s_sidp x#})" using st'(2) pid_refs_frame [of ?st' st'] by simp
    moreover have "same_rest (st\<lparr>ps_sess := (ps_sess st)(s := None)\<rparr>) ?st'"
      using st'(3) by (auto simp: same_rest_def rest_fields_def)
    moreover have "pid_val ?st' b = pid_val st' b" for b by (simp add: pid_val_def)
    ultimately show ?thesis using True st'(4) v unfolding M'_def S'_def by auto
  next
    case False
    then have "1 < unat (s_ref x)" using n(1) by linarith
    then have "0 < sint (s_ref x - 1)" by (simp only: i of_nat_0_less_iff zero_less_diff)
    then have "SESS_RELE s st = KRet ?st" using x by (simp add: SESS_RELE_def sess_upd_def sess_at_def)
    moreover have "pid_val st b = (if b \<in># M then pid_val st b else None)" for b using pid_val_live [OF refs, of b] by auto
    ultimately show ?thesis using False refs' v unfolding M'_def S'_def by (auto simp: same_rest_def rest_fields_def)
  qed
qed

definition sess_left :: "proc_ptr \<Rightarrow> pidsys \<Rightarrow> pidsys \<Rightarrow> bool" where
  "sess_left p st st' \<longleftrightarrow>
     (\<forall>t y. ps_sess st' t = Some y \<longrightarrow> (\<exists>x. ps_sess st t = Some x \<and> s_sidp y = s_sidp x) \<and> sess_procs st t - {p} \<noteq> {} \<and> unat (s_ref y) = card (sess_procs st t - {p})) \<and>
     (\<forall>q t. q \<noteq> p \<longrightarrow> pf p_sessp st q = Some t \<longrightarrow> ps_sess st' t \<noteq> None)"

lemma sess_okD:
  assumes "sess_ok st"
  shows "pf p_sessp st p = Some s \<Longrightarrow> ps_sess st s \<noteq> None" "ps_sess st s = Some x \<Longrightarrow> sess_procs st s \<noteq> {}"
    "ps_sess st s = Some x \<Longrightarrow> unat (s_ref x) = card (sess_procs st s)" "pf p_sessp st p0 = Some session0"
  using assms unfolding sess_ok_def by blast+

lemma sess_leftI:
  assumes "\<And>t y. ps_sess st' t = Some y \<Longrightarrow> (\<exists>x. ps_sess st t = Some x \<and> s_sidp y = s_sidp x) \<and> sess_procs st t - {p} \<noteq> {} \<and> unat (s_ref y) = card (sess_procs st t - {p})"
    "\<And>q t. q \<noteq> p \<Longrightarrow> pf p_sessp st q = Some t \<Longrightarrow> ps_sess st' t \<noteq> None"
  shows "sess_left p st st'"
  using assms unfolding sess_left_def by blast

lemma sess_leftD:
  assumes "sess_left p st st'"
  shows "ps_sess st' t = Some y \<Longrightarrow> sess_procs st t - {p} \<noteq> {} \<and> unat (s_ref y) = card (sess_procs st t - {p})"
    "q \<noteq> p \<Longrightarrow> pf p_sessp st q = Some t \<Longrightarrow> ps_sess st' t \<noteq> None" "sids st' a \<subseteq> sids st a"
    "ps_sess st t = None \<Longrightarrow> ps_sess st' t = None"
proof -
  show "ps_sess st' t = Some y \<Longrightarrow> sess_procs st t - {p} \<noteq> {} \<and> unat (s_ref y) = card (sess_procs st t - {p})"
    "q \<noteq> p \<Longrightarrow> pf p_sessp st q = Some t \<Longrightarrow> ps_sess st' t \<noteq> None"
    using assms unfolding sess_left_def by blast+
  have old: "\<exists>x. ps_sess st t = Some x \<and> s_sidp y = s_sidp x" if "ps_sess st' t = Some y" for t y
    using assms that unfolding sess_left_def by blast
  then show "sids st' a \<subseteq> sids st a" by (fastforce simp: sids_def)
  show "ps_sess st t = None \<Longrightarrow> ps_sess st' t = None" using old [of t] by (cases "ps_sess st' t") auto
qed

lemma sess_left_last:
  assumes ok: "sess_ok st" and p: "pf p_sessp st p = Some s" and only: "sess_procs st s = {p}" and S: "ps_sess st' = (ps_sess st)(s := None)"
  shows "sess_left p st st'"
proof (rule sess_leftI)
  fix t y
  assume "ps_sess st' t = Some y"
  then have t: "t \<noteq> s" "ps_sess st t = Some y" using S by (auto split: if_splits)
  then have "sess_procs st t - {p} = sess_procs st t" using p by (auto simp: sess_procs_def)
  then show "(\<exists>x. ps_sess st t = Some x \<and> s_sidp y = s_sidp x) \<and> sess_procs st t - {p} \<noteq> {} \<and> unat (s_ref y) = card (sess_procs st t - {p})"
    using sess_okD(2,3) [OF ok t(2)] t(2) by simp
next
  fix q t
  assume "q \<noteq> p" "pf p_sessp st q = Some t"
  then show "ps_sess st' t \<noteq> None" using only sess_okD(1) [OF ok, of q t] S by (auto simp: sess_procs_def)
qed

lemma sess_left_more:
  assumes ok: "sess_ok st" and p: "pf p_sessp st p = Some s" and x: "ps_sess st s = Some x" and fin: "finite (sess_procs st s)"
    and more: "1 < unat (s_ref x)" and S: "ps_sess st' = (ps_sess st)(s \<mapsto> x\<lparr>s_ref := s_ref x - 1\<rparr>)"
  shows "sess_left p st st'"
proof -
  have n: "unat (s_ref x) = card (sess_procs st s)" by (rule sess_okD(3) [OF ok x])
  have ps: "p \<in> sess_procs st s" using p by (simp add: sess_procs_def)
  have "1 \<le> s_ref x" using more by (simp add: word_le_nat_alt)
  then have u: "unat (s_ref x - 1) = card (sess_procs st s - {p})" using n ps fin by (subst unat_sub_le) auto
  have pos: "0 < card (sess_procs st s - {p})" using more n ps fin by simp
  then have ne: "sess_procs st s - {p} \<noteq> {}" by (metis card.empty less_irrefl)
  show ?thesis
  proof (rule sess_leftI)
    fix t y
    assume y: "ps_sess st' t = Some y"
    show "(\<exists>x. ps_sess st t = Some x \<and> s_sidp y = s_sidp x) \<and> sess_procs st t - {p} \<noteq> {} \<and> unat (s_ref y) = card (sess_procs st t - {p})"
    proof (cases "t = s")
      case True
      have "y = x\<lparr>s_ref := s_ref x - 1\<rparr>" using y S True by simp
      then show ?thesis using u ne x True by simp
    next
      case False
      then have t: "ps_sess st t = Some y" using y S by simp
      have "sess_procs st t - {p} = sess_procs st t" using False p by (auto simp: sess_procs_def)
      then show ?thesis using sess_okD(2,3) [OF ok t] t by simp
    qed
  next
    fix q t
    assume "q \<noteq> p" "pf p_sessp st q = Some t"
    then show "ps_sess st' t \<noteq> None" using sess_okD(1) [OF ok, of q t] S by simp
  qed
qed

lemma leave_session:
  assumes inv: "pid_pend {#} D st H G" and p: "pf p_sessp st p = Some s" "p \<noteq> p0"
  shows "\<exists>st2 M2. SESS_RELE s st = KRet st2 \<and> pid_refs st2 M2 \<and> same_rest (st\<lparr>ps_sess := ps_sess st2\<rparr>) st2 \<and>
    (\<forall>b. pid_val st2 b = (if b \<in># M2 then pid_val st b else None)) \<and> sess_left p st st2 \<and>
    (\<forall>b. count M2 b = (if pslot st b = None then 0 else 1) + (if G b = [] then 0 else 1) + card (sids st2 b) + count D b)"
proof -
  obtain fs L where c: "core st fs L" using pid_pendD(3) [OF inv] by blast
  note ok = sess_okD [OF coreD(3) [OF c]]
  obtain x where x: "ps_sess st s = Some x" using ok(1) [OF p(1)] by blast
  have n: "unat (s_ref x) = card (sess_procs st s)" by (rule ok(3) [OF x])
  have ps: "p \<in> sess_procs st s" using p by (simp add: sess_procs_def)
  have pos: "0 < unat (s_ref x)" using n ps sess_finite(3) [OF c] by (metis card_gt_0_iff empty_iff)
  have small: "unat (s_ref x) < 2 ^ 31" using n sess_finite(4) [OF c, of s] by simp
  have cnt: "count H b = holders st G D b" for b using pid_pendD(4) [OF inv, of b] by simp
  have only: "sess_procs st s = {p}" if "unat (s_ref x) = 1" using that n ps by (metis card_1_singletonE singletonD)
  have sid: "s \<in> sids st (s_sidp x)" using x by (simp add: sids_def)
  have cp: "0 < card (sids st (s_sidp x))" using sid sids_finite(1) [OF c] by (metis card_gt_0_iff empty_iff)
  then have "0 < count H (s_sidp x)" using cnt [of "s_sidp x"] by (simp add: holders_def)
  then have live: "s_sidp x \<in># H" by simp
  have s0: "s \<noteq> session0" if "unat (s_ref x) = 1"
  proof
    assume "s = session0"
    then have "p0 \<in> sess_procs st s" using ok(4) by (simp add: sess_procs_def)
    then show False using only [OF that] p(2) by simp
  qed
  let ?M = "if unat (s_ref x) = 1 then H - {#s_sidp x#} else H"
  let ?S = "if unat (s_ref x) = 1 then (ps_sess st)(s := None) else (ps_sess st)(s \<mapsto> x\<lparr>s_ref := s_ref x - 1\<rparr>)"
  obtain st2 where st2: "SESS_RELE s st = KRet st2" "pid_refs st2 ?M" "same_rest (st\<lparr>ps_sess := ?S\<rparr>) st2"
    "\<forall>b. pid_val st2 b = (if b \<in># ?M then pid_val st b else None)"
    using SESS_RELE_ok [OF pid_pendD(1) [OF inv] x pos small] s0 live by blast
  have S: "ps_sess st2 = ?S" using st2(3) by (simp add: same_rest_def rest_fields_def)
  have left: "sess_left p st st2"
  proof (cases "unat (s_ref x) = 1")
    case True
    then show ?thesis using sess_left_last [OF coreD(3) [OF c] p(1) only [OF True]] S by simp
  next
    case False
    then have "1 < unat (s_ref x)" using pos by linarith
    then show ?thesis using sess_left_more [OF coreD(3) [OF c] p(1) x sess_finite(3) [OF c]] S False by simp
  qed
  have "count ?M b = (if pslot st b = None then 0 else 1) + (if G b = [] then 0 else 1) + card (sids st2 b) + count D b" for b
  proof (cases "unat (s_ref x) = 1")
    case True
    have "sids st2 b = sids st b - {s}" using S True by (auto simp: sids_def)
    moreover have "s \<in> sids st b \<longleftrightarrow> b = s_sidp x" using x by (auto simp: sids_def)
    ultimately have "card (sids st b) = card (sids st2 b) + (if b = s_sidp x then 1 else 0)"
      using card.remove [OF sids_finite(1) [OF c], of s b] by simp
    then show ?thesis using True cnt [of b] by (simp add: holders_def)
  next
    case False
    have "sids st2 b = sids st b" using S False x by (auto simp: sids_def)
    then show ?thesis using False cnt [of b] by (simp add: holders_def)
  qed
  moreover have "same_rest (st\<lparr>ps_sess := ps_sess st2\<rparr>) st2" using st2(3) unfolding S .
  ultimately show ?thesis using st2(1,2,4) left by blast
qed

lemma groups_views:
  assumes g: "groups st G" and pg: "pf p_pgidp st' = pf p_pgidp st"
    and links: "\<And>q. pf p_pgidp st q \<noteq> None \<Longrightarrow> pf p_pglink st' q = pf p_pglink st q \<and> pf p_ppglink st' q = pf p_ppglink st q"
    and val: "\<And>a x'. pid_val st' a = Some x' \<Longrightarrow> \<exists>x. pid_val st a = Some x \<and> pid_pglink x = pid_pglink x'"
    and live: "\<And>q a. pf p_pgidp st q = Some a \<Longrightarrow> pid_val st' a \<noteq> None"
  shows "groups st' G"
proof -
  have "dlist (pf p_pglink st') (pf p_ppglink st') (pid_pglink x') (G a)" if x': "pid_val st' a = Some x'" for a x'
  proof -
    obtain x where x: "pid_val st a = Some x" "pid_pglink x = pid_pglink x'" using val [OF x'] by blast
    have "dlist (pf p_pglink st') (pf p_ppglink st') (pid_pglink x') (G a) = dlist (pf p_pglink st) (pf p_ppglink st) (pid_pglink x) (G a)"
      unfolding x(2) by (rule dlist_cong) (use links groupsD(2) [OF g] in auto)
    then show ?thesis using groupsD(1) [OF g x(1)] by simp
  qed
  then show ?thesis using groupsD(2) [OF g] live unfolding groups_def pg by blast
qed

lemma groups_nonempty: "groups st G \<Longrightarrow> pf p_pgidp st q = Some b \<Longrightarrow> G b \<noteq> []"
  using groupsD(2) [of st G q b] by auto

lemma pslot_cut:
  assumes "\<And>b. pid_val st' b = (if b \<in># M then pid_val st b else None)" "\<And>b. pslot st b \<noteq> None \<Longrightarrow> b \<in># M"
  shows "pslot st' = pslot st"
proof
  fix b
  show "pslot st' b = pslot st b"
  proof (cases "b \<in># M")
    case False
    then have "pslot st b = None" using assms(2) [of b] by blast
    then show ?thesis using assms(1) [of b] False by (simp add: pslot_def)
  qed (use assms(1) [of b] in \<open>simp add: pslot_def\<close>)
qed

lemma switch_session:
  assumes inv: "pid_pend {#} D st H G" and p: "pf p_sessp st p = Some s" "p \<noteq> p0" "pf p_pidp st p = Some a" and fresh: "ps_sess st sp = None"
  shows "\<exists>st2 st3 H'. SESS_RELE s st = KRet st2 \<and>
    proc_upd p (\<lambda>r. r\<lparr>p_sessp := Some sp\<rparr>) (st2\<lparr>ps_sess := (ps_sess st2)(sp \<mapsto> \<lparr>s_ref = 1, s_sidp = a\<rparr>)\<rparr>) = KRet st3 \<and>
    pid_pend {#a#} D st3 H' G \<and> pf p_pgidp st3 = pf p_pgidp st \<and> pf p_pidp st3 = pf p_pidp st \<and> pf p_parent st3 = pf p_parent st \<and>
    children st3 = children st \<and> pf p_sessp st3 = (pf p_sessp st)(p := Some sp)"
proof -
  obtain fs L where c: "core st fs L" using pid_pendD(3) [OF inv] by blast
  obtain st2 M2 where run2: "SESS_RELE s st = KRet st2" and refs2: "pid_refs st2 M2" and rest2: "same_rest (st\<lparr>ps_sess := ps_sess st2\<rparr>) st2"
    and val2: "\<And>b. pid_val st2 b = (if b \<in># M2 then pid_val st b else None)" and left: "sess_left p st st2"
    and cnt2: "\<And>b. count M2 b = (if pslot st b = None then 0 else 1) + (if G b = [] then 0 else 1) + card (sids st2 b) + count D b"
    using leave_session [OF inv p(1,2)] by blast
  let ?st = "st2\<lparr>ps_sess := (ps_sess st2)(sp \<mapsto> \<lparr>s_ref = 1, s_sidp = a\<rparr>)\<rparr>"
  define st3 where "st3 = put_opt (Some p) (\<lambda>r. r\<lparr>p_sessp := Some sp\<rparr>) ?st"
  have procs2: "ps_procs st2 = ps_procs st" using same_restD(1) [OF rest2] by simp
  have lp: "live_opt ?st (Some p)" using pf_live [of p_sessp st p] p(1) procs2 by simp
  have run3: "proc_upd p (\<lambda>r. r\<lparr>p_sessp := Some sp\<rparr>) ?st = KRet st3" unfolding st3_def by (rule put_some_run) (use lp in simp)
  have e2: "pf f ?st = pf f st" for f :: "proc_t \<Rightarrow> nat option" by (rule pf_frame) (simp add: procs2)
  have same: "pf f st3 = pf f st" if "\<And>r. f (r\<lparr>p_sessp := Some sp\<rparr>) = f r" for f :: "proc_t \<Rightarrow> nat option"
    unfolding st3_def using pf_put_same [OF lp, of f] that e2 by simp
  have sess: "pf p_sessp st3 = (pf p_sessp st)(p := Some sp)" unfolding st3_def using pf_put_const [OF lp, of p_sessp] e2 by simp
  have ch: "children st3 = children st"
    using lp procs2 by (auto simp: st3_def put_opt_def children_def fun_eq_iff)
  have val3: "pid_val st3 b = (if b \<in># M2 then pid_val st b else None)" for b using val2 [of b] by (simp add: st3_def pid_val_def)
  have refs3: "pid_refs st3 M2" using refs2 pid_refs_frame [of st3 st2] by (simp add: st3_def)
  have new: "ps_sess st2 sp = None" by (rule sess_leftD(4) [OF left fresh])
  have sid: "sids st3 b = sids st2 b \<union> (if b = a then {sp} else {})" for b using new by (auto simp: st3_def sids_def)
  have fin: "finite (sids st2 b)" for b
  proof -
    have "sids st2 b \<subseteq> dom (ps_sess st)" using sess_leftD(3) [OF left, of b] by (auto simp: sids_def)
    then show ?thesis by (rule finite_subset [OF _ sess_finite(1) [OF c]])
  qed
  have "sp \<notin> sids st2 b" for b using new by (simp add: sids_def)
  then have csid: "card (sids st3 b) = card (sids st2 b) + (if b = a then 1 else 0)" for b using fin [of b] by (auto simp: sid)
  have live: "b \<in># M2" if "pslot st b \<noteq> None \<or> G b \<noteq> []" for b
  proof -
    have "0 < count M2 b" using cnt2 [of b] that by auto
    then show ?thesis by simp
  qed
  have slot: "pslot st3 = pslot st" by (rule pslot_cut [OF val3]) (use live in blast)
  have g3: "groups st3 G"
  proof (rule groups_views [OF pid_pendD(2) [OF inv]])
    show "\<exists>x. pid_val st b = Some x \<and> pid_pglink x = pid_pglink x'" if "pid_val st3 b = Some x'" for b x' using that val3 by (auto split: if_splits)
    show "pid_val st3 b \<noteq> None" if q: "pf p_pgidp st q = Some b" for q b
      using groups_nonempty [OF pid_pendD(2) [OF inv] q] groupsD(3) [OF pid_pendD(2) [OF inv] q] live [of b] val3 [of b] by simp
  qed (simp_all add: same)
  have r2: "procdir st2 = procdir st" "procentfree st2 = procentfree st" "minpid st2 = minpid st" "mpid st2 = mpid st" "maxpid st2 = maxpid st"
    "practive st2 = practive st" "nproc st2 = nproc st" using rest2 by (simp_all add: same_rest_def rest_fields_def)
  have "slots st3 fs" by (rule slots_views [OF coreD(1) [OF c]])
    (use r2 slot same dom_put_opt [OF lp] procs2 in \<open>simp_all add: st3_def\<close>)
  moreover have "active st3 L" by (rule active_views [OF coreD(2) [OF c]]) (use r2 same sess p(1) in \<open>simp_all add: st3_def\<close>)
  moreover have "sess_ok st3"
  proof -
    have "pf p_sessp st q \<noteq> Some sp" for q using sess_okD(1) [OF coreD(3) [OF c], of q sp] fresh by blast
    then have sp3: "sess_procs st3 t = (if t = sp then {p} else sess_procs st t - {p})" for t
      unfolding sess_procs_def sess by (auto split: if_splits)
    have S: "ps_sess st3 = (ps_sess st2)(sp \<mapsto> \<lparr>s_ref = 1, s_sidp = a\<rparr>)" by (simp add: st3_def)
    have "ps_sess st3 t \<noteq> None" if "pf p_sessp st3 q = Some t" for q t
      using that sess_leftD(2) [OF left, of q t] unfolding sess S by (auto split: if_splits)
    moreover have "sess_procs st3 t \<noteq> {} \<and> unat (s_ref y) = card (sess_procs st3 t)" if "ps_sess st3 t = Some y" for t y
      using that sess_leftD(1) [OF left, of t y] unfolding sp3 S by (auto split: if_splits)
    ultimately show ?thesis using sess_okD(4) [OF coreD(3) [OF c]] p(2) sess unfolding sess_ok_def by auto
  qed
  moreover have "mpid_ok st3 (mpid st3)" using coreD(4) [OF c] r2 by (simp add: mpid_ok_def st3_def)
  moreover have "pf p_sessp st3 q \<noteq> None" if "pf p_pgidp st3 q \<noteq> None" for q using that coreD(5) [OF c, of q] same [of p_pgidp] sess by simp
  moreover have "named_ok st3"
  proof -
    have "pf p_sessp st q \<noteq> None" if q: "pf p_pidp st q = Some b" "sids st3 b \<noteq> {} \<or> (\<exists>x. pf p_pgidp st x = Some b)" for q b
    proof (cases "b = a")
      case True
      then show ?thesis using slots_inj [OF coreD(1) [OF c] p(3), of q] q(1) p(1) by simp
    next
      case False
      then have "sids st b \<noteq> {} \<or> (\<exists>x. pf p_pgidp st x = Some b)" using q(2) sid [of b] sess_leftD(3) [OF left, of b] by auto
      then show ?thesis using coreD(6) [OF c] q(1) unfolding named_ok_def by blast
    qed
    moreover have "pf p_pidp st3 = pf p_pidp st" "pf p_pgidp st3 = pf p_pgidp st" by (simp_all add: same)
    ultimately show ?thesis unfolding named_ok_def sess by auto
  qed
  ultimately have c3: "core st3 fs L" unfolding core_def by blast
  have "pid_pend {#a#} D st3 M2 G"
  proof (rule pid_pendI [OF refs3 g3 c3])
    show "count M2 b + count {#a#} b = holders st3 G D b" for b using cnt2 [of b] csid [of b] slot by (simp add: holders_def)
    show "count {#a#} b \<le> card (sids st3 b)" for b using csid [of b] by simp
    show "count D b < 2 ^ 31" for b by (rule pid_pendD(6) [OF inv])
  qed
  then show ?thesis using run2 run3 ch sess same by auto
qed

lemma kret_live: "pf f st p = Some y \<Longrightarrow> \<exists>r. proc_at st p = KRet r \<and> f r = Some y"
  using pf_SomeD [of f st p y] by (auto simp: proc_at_def)

lemma family_sess:
  assumes "family st" "pf p_parent st' = pf p_parent st" "children st' = children st" "\<And>q. pf p_sessp st' q = None \<longleftrightarrow> pf p_sessp st q = None"
  shows "family st'"
  using assms unfolding family_def by simp

lemma parents_okI: "pf p_parent st' = pf p_parent st \<Longrightarrow> children st' = children st \<Longrightarrow> family st \<Longrightarrow> parents_ok st'"
  unfolding family_def parents_ok_def by (metis children_live)

text \<open>
  Making a session: the process leaves its group and its session and is the only member of a new
  session and a new group, both named by its id.
\<close>

lemma sess_create_inv:
  assumes inv: "pid_inv D st" and p: "pf p_pgidp st p \<noteq> None" "p \<noteq> p0" and fresh: "ps_sess st sp = None"
  shows "\<exists>st'. sess_create p sp st = KRet st' \<and> pid_inv D st' \<and> pf p_sessp st' = (pf p_sessp st)(p := Some sp) \<and>
    pf p_pgidp st' = (pf p_pgidp st)(p := pf p_pidp st p) \<and> pf p_pidp st' = pf p_pidp st"
proof -
  obtain H G where pend: "pid_pend {#} D st H G" and fam: "family st" using inv unfolding pid_inv_def by blast
  obtain fs L where c: "core st fs L" using pid_pendD(3) [OF pend] by blast
  obtain g where g: "pf p_pgidp st p = Some g" using p(1) by blast
  obtain s where s: "pf p_sessp st p = Some s" using coreD(5) [OF c p(1)] by blast
  obtain a where a: "pf p_pidp st p = Some a" using slotsD(5) [OF coreD(1) [OF c] pf_live [OF p(1)]] by blast
  obtain st1 H1 G1 where st1: "pgexit p st = KRet st1" "pid_pend {#} D st1 H1 G1" "grp_frame st st1" "pf p_pgidp st1 = (pf p_pgidp st)(p := None)"
    using pgexit_pend [OF pend family_parents [OF fam] g] by blast
  note f1 = grp_frame_fields [OF st1(3)]
  have fresh1: "ps_sess st1 sp = None" using rest_fieldsD(1) [OF grp_frameD(3) [OF st1(3)]] fresh by simp
  have v1: "pf p_sessp st1 p = Some s" "pf p_pidp st1 p = Some a" using s a f1 by simp_all
  obtain st2 st3 H3 where st2: "SESS_RELE s st1 = KRet st2" and
    st3: "proc_upd p (\<lambda>r. r\<lparr>p_sessp := Some sp\<rparr>) (st2\<lparr>ps_sess := (ps_sess st2)(sp \<mapsto> \<lparr>s_ref = 1, s_sidp = a\<rparr>)\<rparr>) = KRet st3"
    "pid_pend {#a#} D st3 H3 G1" "pf p_pgidp st3 = pf p_pgidp st1" "pf p_pidp st3 = pf p_pidp st1" "pf p_parent st3 = pf p_parent st1"
    "children st3 = children st1" "pf p_sessp st3 = (pf p_sessp st1)(p := Some sp)"
    using switch_session [OF st1(2) v1(1) p(2) v1(2) fresh1] by blast
  have fam3: "family st3" by (rule family_sess [OF fam]) (use st3 f1 children_grp_frame [OF st1(3)] s in auto)
  obtain fs3 L3 where c3: "core st3 fs3 L3" using pid_pendD(3) [OF st3(2)] by blast
  have p3: "pf p_pidp st3 p = Some a" using st3(4) v1(2) by simp
  have "pslot st3 a \<noteq> None" using slots_proc [OF coreD(1) [OF c3] p3] by auto
  then have a3: "a \<in># H3" using pend_live [OF st3(2)] by blast
  have na3: "pf p_sessp st3 q \<noteq> None" if "pf p_pidp st3 q = Some a" for q
    using slots_inj [OF coreD(1) [OF c3] p3 that] st3(7) by simp
  obtain st4 H4 where st4: "pgjoin p a st3 = KRet st4" "pid_pend {#a#} D st4 H4 (G1(a := p # G1 a))" "grp_frame st3 st4"
    "pf p_pgidp st4 = (pf p_pgidp st3)(p := Some a)"
    using pgjoin_pend [OF st3(2) family_parents [OF fam3] _ _ a3, of p] st3(3,7) st1(4) na3 by auto
  have "a \<in># H4" by (rule pend_live [OF st4(2)]) simp
  from hold_pending [OF st4(2) this] obtain st5 H5 where st5: "PID_HOLD st4 a = KRet st5" "pid_pend {#} D st5 H5 (G1(a := p # G1 a))"
    "grp_frame st4 st5" "pf p_pgidp st5 = pf p_pgidp st4" by blast
  have f5: "grp_frame st3 st5" by (rule grp_frame_trans [OF st4(3) st5(3)])
  have "family st5" by (rule family_sess [OF fam3]) (use grp_frame_fields [OF f5] children_grp_frame [OF f5] in auto)
  then have "pid_inv D st5" using st5(2) unfolding pid_inv_def by blast
  moreover have "sess_create p sp st = KRet st5"
  proof -
    obtain r where r: "proc_at st1 p = KRet r" "p_sessp r = Some s" using kret_live [OF v1(1)] by blast
    moreover have "p_pidp r = Some a" using kret_live [OF v1(2)] r(1) by auto
    ultimately show ?thesis using st1(1) st2 st3(1) st4(1) st5(1) by (simp add: sess_create_def deref_def)
  qed
  moreover have "pf p_sessp st5 = (pf p_sessp st)(p := Some sp)" using grp_frame_fields(4) [OF f5] st3(7) f1 by simp
  moreover have "pf p_pgidp st5 = (pf p_pgidp st)(p := pf p_pidp st p)" using st5(4) st4(4) st3(3) st1(4) a by simp
  moreover have "pf p_pidp st5 = pf p_pidp st" using grp_frame_fields(1) [OF f5] st3(4) f1(1) by simp
  ultimately show ?thesis by blast
qed

end
