(* ===== verification/Pid_Exit.thy ===== *)
theory Pid_Exit
  imports Pid_Sess
begin

text \<open>
  The end of a process: \<open>pid_exit\<close>, \<open>freeproc\<close> and the failures of \<open>fork\<close> of \<^verbatim>\<open>Pgrp\<close> give back the
  slot, the session and the holds of the process and keep the invariant of \<^verbatim>\<open>Pid_Inv\<close>.
\<close>

section \<open>Giving back the slot\<close>

lemma proc_entry_free_ok:
  assumes refs: "pid_refs st M" and a: "a \<in># M" and i: "pslot st a = Some i" "i < length (procdir st)"
  shows "\<exists>st'. proc_entry_free a st = KRet st' \<and> pid_refs st' M \<and> ps_procs st' = ps_procs st \<and>
    pid_val st' = (pid_val st)(a := map_option (\<lambda>x. x\<lparr>pid_prinactive := True\<rparr>) (pid_val st a)) \<and>
    rest_fields (st\<lparr>procdir := (procdir st)[i := Pe_next (procentfree st)], procentfree := Some i\<rparr>) st'"
proof -
  let ?f = "\<lambda>x. x\<lparr>pid_prinactive := True\<rparr>"
  have "pid_id (?f x) = pid_id x" "pid_ref (?f x) = pid_ref x" "?f (x\<lparr>pid_ref := 0\<rparr>) = (?f x)\<lparr>pid_ref := 0\<rparr>" for x :: pid by auto
  from pid_upd_view [OF refs a this] obtain st1 where st1: "pid_upd a ?f st = KRet st1" "pid_refs st1 M" "same_rest st st1"
    "pid_val st1 = (pid_val st)(a := map_option ?f (pid_val st a))" by blast
  obtain x where x: "pid_val st a = Some x" "pid_prslot x = i" using i(1) by (auto simp: pslot_def bind_eq_Some_conv split: if_splits)
  then have "pid_val st1 a = Some (?f x)" using st1(4) by simp
  then obtain y where y: "ps_pids st1 a = Some y" "?f x = y\<lparr>pid_ref := 0\<rparr>" using pid_val_SomeD by blast
  have "pid_prslot y = i" using arg_cong [OF y(2), of pid_prslot] x(2) by simp
  let ?st = "st1\<lparr>procdir := (procdir st1)[i := Pe_next (procentfree st1)], procentfree := Some i\<rparr>"
  have r: "procdir st1 = procdir st" "procentfree st1 = procentfree st" using rest_fieldsD [OF same_restD(2) [OF st1(3)]] by simp_all
  have "proc_entry_free a st = KRet ?st" using st1(1) y(1) \<open>pid_prslot y = i\<close> i(2) r by (simp add: proc_entry_free_def pid_at_def)
  moreover have "pid_refs ?st M" using st1(2) pid_refs_frame [of ?st st1] by simp
  moreover have "pid_val ?st = pid_val st1" by (simp add: pid_val_def fun_eq_iff)
  moreover have "rest_fields (st\<lparr>procdir := (procdir st)[i := Pe_next (procentfree st)], procentfree := Some i\<rparr>) ?st"
    using same_restD(2) [OF st1(3)] by (simp add: rest_fields_def)
  ultimately show ?thesis using st1(4) same_restD(1) [OF st1(3)] by auto
qed

lemma slots_free:
  assumes s: "slots st fs" and p: "pf p_pidp st p = Some a" and i: "pslot st a = Some i"
    and dir: "procdir st' = (procdir st)[i := Pe_next (procentfree st)]" "procentfree st' = Some i"
    and slot: "pslot st' = (pslot st)(a := None)" and pidp: "pf p_pidp st' = (pf p_pidp st)(p := None)"
    and procs: "\<And>q. ps_procs st' q = None \<longleftrightarrow> q = p \<or> ps_procs st q = None"
  shows "slots st' (i # fs)"
proof -
  have e: "i < length (procdir st)" "procdir st ! i = Pe_proc p" using slots_proc [OF s p] i by auto
  have nf: "i \<notin> set fs" using free_chain_next [OF slotsD(1) [OF s], of i] e(2) by auto
  have "free_chain (procdir st') (procentfree st') (i # fs)"
    using free_chain_update [OF nf] slotsD(1) [OF s] e(1) dir by simp
  moreover have "\<exists>q b. procdir st' ! j = Pe_proc q \<and> pf p_pidp st' q = Some b \<and> pslot st' b = Some j"
    if j: "j < length (procdir st')" "j \<notin> set (i # fs)" for j
  proof -
    obtain q b where q: "procdir st ! j = Pe_proc q" "pf p_pidp st q = Some b" "pslot st b = Some j"
      using slotsD(4) [OF s, of j] j dir by auto
    have "q \<noteq> p" "b \<noteq> a" using q p i j by auto
    then show ?thesis using q j dir slot pidp by auto
  qed
  moreover have "\<exists>b j. pf p_pidp st' q = Some b \<and> pslot st' b = Some j \<and> j < length (procdir st') \<and> procdir st' ! j = Pe_proc q"
    if q: "ps_procs st' q \<noteq> None" for q
  proof -
    have qp: "q \<noteq> p" "ps_procs st q \<noteq> None" using q procs [of q] by auto
    obtain b j where b: "pf p_pidp st q = Some b" "pslot st b = Some j" "j < length (procdir st)" "procdir st ! j = Pe_proc q"
      using slotsD(5) [OF s qp(2)] by blast
    have "j \<noteq> i" "b \<noteq> a" using b e qp(1) slots_inj [OF s b(1), of p] p by auto
    then show ?thesis using b qp(1) dir slot pidp by auto
  qed
  moreover have "\<exists>q. pf p_pidp st' q = Some b" if b: "pslot st' b = Some j" for b j
  proof -
    have ba: "b \<noteq> a" "pslot st b = Some j" using b slot by (auto split: if_splits)
    then obtain q where "pf p_pidp st q = Some b" using slotsD(6) [OF s] by blast
    moreover have "q \<noteq> p" using calculation p ba by auto
    ultimately show ?thesis using pidp by auto
  qed
  ultimately show ?thesis using slotsD(2,3) [OF s] nf dir unfolding slots_def by auto
qed

text \<open>What is left of the tables when a process without a group is gone.\<close>

lemma gone_pend:
  assumes inv: "pid_pend {#} D st H G" and c: "core st fs L" and p: "pf p_pgidp st p = None" "pf p_pidp st p = Some a" "pslot st a = Some i"
    and refs: "pid_refs st' H'"
    and val: "\<And>b. pid_val st' b =
      (if b \<in># H' then if b = a then map_option (\<lambda>x. x\<lparr>pid_prinactive := True\<rparr>) (pid_val st a) else pid_val st b else None)"
    and cnt: "\<And>b. count H' b = (if b = a \<or> pslot st b = None then 0 else 1) + (if G b = [] then 0 else 1) + card (sids st' b) + count D b"
    and views: "pf p_pgidp st' = (pf p_pgidp st)(p := None)" "pf p_pglink st' = (pf p_pglink st)(p := None)"
      "pf p_ppglink st' = (pf p_ppglink st)(p := None)" "pf p_pidp st' = (pf p_pidp st)(p := None)" "pf p_sessp st' = (pf p_sessp st)(p := None)"
    and procs: "\<And>q. ps_procs st' q = None \<longleftrightarrow> q = p \<or> ps_procs st q = None"
    and dir: "procdir st' = (procdir st)[i := Pe_next (procentfree st)]" "procentfree st' = Some i"
    and rest: "active st' L'" "sess_ok st'" "mpid_ok st' (mpid st')" and sid: "\<And>b. sids st' b \<subseteq> sids st b"
  shows "pid_pend {#} D st' H' G"
proof -
  have live: "b \<in># H'" if "b \<noteq> a \<and> pslot st b \<noteq> None \<or> G b \<noteq> []" for b
  proof -
    have "0 < count H' b" using cnt [of b] that by auto
    then show ?thesis by simp
  qed
  have slot: "pslot st' = (pslot st)(a := None)"
  proof
    fix b
    show "pslot st' b = ((pslot st)(a := None)) b"
    proof (cases "b = a")
      case True
      then show ?thesis using val [of a] by (cases "pid_val st a") (auto simp: pslot_def)
    next
      case False
      then have "pslot st b = None" if "b \<notin># H'" using live [of b] that by blast
      then show ?thesis using False val [of b] by (cases "b \<in># H'") (auto simp: pslot_def)
    qed
  qed
  have pg: "pf p_pgidp st' = pf p_pgidp st" using views(1) p(1) by (simp add: fun_upd_idem)
  have g: "groups st' G"
  proof (rule groups_views [OF pid_pendD(2) [OF inv] pg])
    show "pf p_pglink st' q = pf p_pglink st q \<and> pf p_ppglink st' q = pf p_ppglink st q" if "pf p_pgidp st q \<noteq> None" for q
      using that views p(1) by auto
    show "\<exists>x. pid_val st b = Some x \<and> pid_pglink x = pid_pglink x'" if "pid_val st' b = Some x'" for b x'
      using that val [of b] by (auto split: if_splits)
    show "pid_val st' b \<noteq> None" if q: "pf p_pgidp st q = Some b" for q b
      using groups_nonempty [OF pid_pendD(2) [OF inv] q] groupsD(3) [OF pid_pendD(2) [OF inv] q] live [of b] val [of b] by auto
  qed
  have sl: "slots st' (i # fs)" by (rule slots_free [OF coreD(1) [OF c] p(2,3) dir slot views(4) procs])
  have "pf p_sessp st' q \<noteq> None" if "pf p_pgidp st' q \<noteq> None" for q using that coreD(5) [OF c, of q] pg views(5) p(1) by auto
  moreover have "named_ok st'"
  proof -
    have "pf p_sessp st' q \<noteq> None" if q: "pf p_pidp st' q = Some b" "sids st' b \<noteq> {} \<or> (\<exists>x. pf p_pgidp st' x = Some b)" for q b
    proof -
      have "pf p_pidp st q = Some b" "q \<noteq> p" using q(1) views(4) by (auto split: if_splits)
      moreover have "sids st b \<noteq> {} \<or> (\<exists>x. pf p_pgidp st x = Some b)" using q(2) sid [of b] pg by auto
      ultimately show ?thesis using coreD(6) [OF c] views(5) unfolding named_ok_def by auto
    qed
    then show ?thesis unfolding named_ok_def by blast
  qed
  ultimately have "core st' (i # fs) L'" using sl rest unfolding core_def by blast
  then show ?thesis using pid_pendI [OF refs g, of "i # fs" L' "{#}" D] cnt slot pid_pendD(6) [OF inv] by (simp add: holders_def)
qed

section \<open>Leaving the list of active processes\<close>

lemma activeD:
  assumes "active st L"
  shows "dlist (pf p_next st) (pf p_prev st) (practive st) L" "p \<in> set L \<longleftrightarrow> pf p_sessp st p \<noteq> None"
    "pf p_sessp st p = None \<Longrightarrow> pf p_prev st p = None" "nproc st = of_nat (length L)"
  using assms unfolding active_def by blast+

lemma active_unlink:
  assumes act: "active st L" and p: "p \<in> set L"
    and nx: "pf p_next st' = (dl_set (pf p_prev st p) (pf p_next st p) (pf p_next st))(p := None)"
    and pv: "pf p_prev st' = (dl_set (pf p_next st p) (pf p_prev st p) (pf p_prev st))(p := None)"
    and hd: "practive st' = (if practive st = Some p then pf p_next st p else practive st)"
    and sess: "pf p_sessp st' = (pf p_sessp st)(p := None)" and n: "nproc st' = nproc st - 1"
  shows "active st' (remove1 p L)"
proof -
  note d = activeD(1) [OF act]
  have dist: "distinct L" using d by (simp add: dlist_def)
  have "dlist (pf p_next st') (pf p_prev st') (practive st') (remove1 p L) =
    dlist (dl_set (pf p_prev st p) (pf p_next st p) (pf p_next st)) (dl_set (pf p_next st p) (pf p_prev st p) (pf p_prev st)) (practive st') (remove1 p L)"
    unfolding nx pv using dist by (intro dlist_cong) auto
  then have "dlist (pf p_next st') (pf p_prev st') (practive st') (remove1 p L)" using dlist_unlink [OF d p] unfolding hd by simp
  moreover have "q \<in> set (remove1 p L) \<longleftrightarrow> pf p_sessp st' q \<noteq> None" for q
    using dist activeD(2) [OF act, of q] sess by (auto simp: set_remove1_eq)
  moreover have "pf p_prev st' q = None" if q: "pf p_sessp st' q = None" for q
  proof (cases "q = p")
    case False
    then have qs: "pf p_sessp st q = None" using q sess by simp
    then have "q \<notin> set L" using activeD(2) [OF act, of q] by simp
    then have "pf p_next st p \<noteq> Some q" using dlist_nx [OF d p, of q] by blast
    then show ?thesis using activeD(3) [OF act qs] pv False by (auto simp: dl_set_def split: option.splits)
  qed (simp add: pv)
  moreover have "nproc st' = of_nat (length (remove1 p L))"
  proof -
    obtain m where m: "length L = Suc m" using p by (cases L) auto
    then show ?thesis using n activeD(4) [OF act] p by (simp add: length_remove1)
  qed
  ultimately show ?thesis unfolding active_def by blast
qed

lemma children_frame: "ps_procs st' = ps_procs st \<Longrightarrow> children st' = children st"
  by (simp add: children_def fun_eq_iff)

lemma children_put_same:
  assumes "live_opt st h" "\<And>r. p_child (f r) = p_child r"
  shows "children (put_opt h f st) = children st"
  using assms by (auto simp: children_def put_opt_def fun_eq_iff split: option.splits)

text \<open>The part of \<open>pid_exit\<close> that takes the process off the list.\<close>

lemma exit_unlink:
  assumes act: "active st L" and p: "p \<in> set L" and r: "p_next r = pf p_next st p" "p_prev r = pf p_prev st p"
    and e: "ps_procs st3 = ps_procs st" "practive st3 = practive st"
  shows "\<exists>st4. kbind (proc_upd_opt (p_next r) (\<lambda>x. x\<lparr>p_prev := p_prev r\<rparr>) (if practive st3 = Some p then st3\<lparr>practive := p_next r\<rparr> else st3))
      (proc_upd_opt (p_prev r) (\<lambda>x. x\<lparr>p_next := p_next r\<rparr>)) = KRet st4 \<and>
    ps_pids st4 = ps_pids st3 \<and> pidhash st4 = pidhash st3 \<and>
    rest_fields (st3\<lparr>practive := if practive st = Some p then pf p_next st p else practive st\<rparr>) st4 \<and>
    pf p_next st4 = dl_set (pf p_prev st p) (pf p_next st p) (pf p_next st) \<and>
    pf p_prev st4 = dl_set (pf p_next st p) (pf p_prev st p) (pf p_prev st) \<and>
    pf p_pgidp st4 = pf p_pgidp st \<and> pf p_pglink st4 = pf p_pglink st \<and> pf p_ppglink st4 = pf p_ppglink st \<and>
    pf p_pidp st4 = pf p_pidp st \<and> pf p_sessp st4 = pf p_sessp st \<and> pf p_parent st4 = pf p_parent st \<and> children st4 = children st \<and>
    (\<forall>q. ps_procs st4 q = None \<longleftrightarrow> ps_procs st q = None)"
proof -
  note d = activeD(1) [OF act]
  let ?st = "if practive st3 = Some p then st3\<lparr>practive := p_next r\<rparr> else st3"
  have procs: "ps_procs ?st = ps_procs st" using e by simp
  have live: "ps_procs st q \<noteq> None" if "q \<in> set L" for q using activeD(2) [OF act, of q] that pf_live [of p_sessp st q] by blast
  have l1: "live_opt ?st (p_next r)" unfolding live_opt_def procs using dlist_nx [OF d p] live r by auto
  define st4a where "st4a = put_opt (p_next r) (\<lambda>x. x\<lparr>p_prev := p_prev r\<rparr>) ?st"
  have "live_opt ?st (p_prev r)" unfolding live_opt_def procs using dlist_pv [OF d p] live r by auto
  then have l2: "live_opt st4a (p_prev r)" unfolding st4a_def using l1 by simp
  define st4 where "st4 = put_opt (p_prev r) (\<lambda>x. x\<lparr>p_next := p_next r\<rparr>) st4a"
  have e1: "pf f ?st = pf f st" for f :: "proc_t \<Rightarrow> nat option" by (rule pf_frame [OF procs])
  note va = pf_put_same [OF l1, folded st4a_def] pf_put_const [OF l1, folded st4a_def]
  note vb = pf_put_same [OF l2, folded st4_def] pf_put_const [OF l2, folded st4_def]
  have run: "kbind (proc_upd_opt (p_next r) (\<lambda>x. x\<lparr>p_prev := p_prev r\<rparr>) ?st) (proc_upd_opt (p_prev r) (\<lambda>x. x\<lparr>p_next := p_next r\<rparr>)) = KRet st4"
    using put_opt_run [OF l1] put_opt_run [OF l2] by (simp add: st4_def st4a_def)
  have nx: "pf p_next st4 = dl_set (p_prev r) (p_next r) (pf p_next st)"
    unfolding st4_def by (subst pf_put_const [OF l2]) (simp, unfold st4a_def, subst pf_put_same [OF l1], simp, simp add: e1)
  have pv: "pf p_prev st4 = dl_set (p_next r) (p_prev r) (pf p_prev st)"
    unfolding st4_def by (subst pf_put_same [OF l2]) (simp, unfold st4a_def, subst pf_put_const [OF l1], simp, simp add: e1)
  have same: "pf f st4 = pf f st" if f: "\<And>x n. f (x\<lparr>p_prev := n\<rparr>) = f x" "\<And>x n. f (x\<lparr>p_next := n\<rparr>) = f x" for f :: "proc_t \<Rightarrow> nat option"
    unfolding st4_def by (subst pf_put_same [OF l2]) (rule f, unfold st4a_def, subst pf_put_same [OF l1], rule f, simp add: e1)
  have ch: "children st4 = children st"
    unfolding st4_def by (subst children_put_same [OF l2]) (simp, unfold st4a_def, subst children_put_same [OF l1], simp, rule children_frame [OF procs])
  have dom: "ps_procs st4 q = None \<longleftrightarrow> ps_procs st q = None" for q unfolding st4_def st4a_def using l1 l2 procs by (simp add: st4a_def)
  have "rest_fields (st3\<lparr>practive := if practive st = Some p then pf p_next st p else practive st\<rparr>) st4"
    using e(2) r(1) by (auto simp: st4_def st4a_def rest_fields_def)
  moreover have "ps_pids st4 = ps_pids st3" "pidhash st4 = pidhash st3" by (simp_all add: st4_def st4a_def)
  ultimately show ?thesis using run nx pv same ch dom r by (intro exI [of _ st4]) simp
qed

section \<open>The end of a process\<close>

lemma sess_left_ok:
  assumes ok: "sess_ok st" and left: "sess_left p st st'" and S: "ps_sess st'' = ps_sess st'" and sess: "pf p_sessp st'' = (pf p_sessp st)(p := None)"
    and p: "p \<noteq> p0"
  shows "sess_ok st''"
proof -
  have e: "sess_procs st'' t = sess_procs st t - {p}" for t unfolding sess_procs_def sess by auto
  have "ps_sess st'' t \<noteq> None" if "pf p_sessp st'' q = Some t" for q t
    using that sess_leftD(2) [OF left, of q t] unfolding sess S by (auto split: if_splits)
  moreover have "sess_procs st'' t \<noteq> {} \<and> unat (s_ref y) = card (sess_procs st'' t)" if "ps_sess st'' t = Some y" for t y
    using that sess_leftD(1) [OF left, of t y] unfolding e S by auto
  ultimately show ?thesis using sess_okD(4) [OF ok] p sess unfolding sess_ok_def by auto
qed

lemma pf_remove: "pf f (st\<lparr>ps_procs := (ps_procs st)(p := None), nproc := n\<rparr>) = (pf f st)(p := None)"
  by (auto simp: pf_def fun_eq_iff)

text \<open>From the state in which the process has left its group.\<close>

definition exit_tail :: "proc_ptr \<Rightarrow> proc_t \<Rightarrow> sess_ptr \<Rightarrow> pid_ptr \<Rightarrow> pidsys \<Rightarrow> pidsys kres" where
  "exit_tail p r s a st =
     kbind (SESS_RELE s st) (\<lambda>st.
     kbind (proc_entry_free a st) (\<lambda>st.
     kbind (kbind (proc_upd_opt (p_next r) (\<lambda>x. x\<lparr>p_prev := p_prev r\<rparr>) (if practive st = Some p then st\<lparr>practive := p_next r\<rparr> else st))
       (proc_upd_opt (p_prev r) (\<lambda>x. x\<lparr>p_next := p_next r\<rparr>))) (\<lambda>st.
     kbind (PID_RELE st a) (\<lambda>st. KRet (st\<lparr>ps_procs := (ps_procs st)(p := None), nproc := nproc st - 1\<rparr>)))))"

definition gone_views :: "proc_ptr \<Rightarrow> pidsys \<Rightarrow> pidsys \<Rightarrow> bool" where
  "gone_views p st st' \<longleftrightarrow> pf p_parent st' = (pf p_parent st)(p := None) \<and> children st' = (children st)(p := []) \<and>
     pf p_sessp st' = (pf p_sessp st)(p := None) \<and> pf p_pidp st' = (pf p_pidp st)(p := None) \<and> pf p_pgidp st' = (pf p_pgidp st)(p := None)"

lemma exit_tail_ok:
  assumes inv: "pid_pend {#} D st H G" and p: "pf p_sessp st p = Some s" "p \<noteq> p0" "pf p_pidp st p = Some a" "pf p_pgidp st p = None"
    and r: "p_next r = pf p_next st p" "p_prev r = pf p_prev st p"
  shows "\<exists>st' H'. exit_tail p r s a st = KRet st' \<and> pid_pend {#} D st' H' G \<and> gone_views p st st'"
proof -
  obtain fs L where c: "core st fs L" using pid_pendD(3) [OF inv] by blast
  obtain st2 M2 where run2: "SESS_RELE s st = KRet st2" and refs2: "pid_refs st2 M2" and rest2: "same_rest (st\<lparr>ps_sess := ps_sess st2\<rparr>) st2"
    and val2: "\<And>b. pid_val st2 b = (if b \<in># M2 then pid_val st b else None)" and left: "sess_left p st st2"
    and cnt2: "\<And>b. count M2 b = (if pslot st b = None then 0 else 1) + (if G b = [] then 0 else 1) + card (sids st2 b) + count D b"
    using leave_session [OF inv p(1,2)] by blast
  have r2: "procdir st2 = procdir st" "procentfree st2 = procentfree st" "minpid st2 = minpid st" "mpid st2 = mpid st" "maxpid st2 = maxpid st"
    "practive st2 = practive st" "nproc st2 = nproc st" "ps_procs st2 = ps_procs st"
    using rest2 by (simp_all add: same_rest_def rest_fields_def)
  obtain i where i: "pslot st a = Some i" "i < length (procdir st)" using slots_proc [OF coreD(1) [OF c] p(3)] by blast
  have "0 < count M2 a" using cnt2 [of a] i(1) by simp
  then have a2: "a \<in># M2" by simp
  have i2: "pslot st2 a = Some i" "i < length (procdir st2)" using i a2 val2 [of a] r2(1) by (simp_all add: pslot_def)
  obtain st3 where st3: "proc_entry_free a st2 = KRet st3" "pid_refs st3 M2" "ps_procs st3 = ps_procs st2"
    "pid_val st3 = (pid_val st2)(a := map_option (\<lambda>x. x\<lparr>pid_prinactive := True\<rparr>) (pid_val st2 a))"
    "rest_fields (st2\<lparr>procdir := (procdir st2)[i := Pe_next (procentfree st2)], procentfree := Some i\<rparr>) st3"
    using proc_entry_free_ok [OF refs2 a2 i2] by blast
  have pL: "p \<in> set L" using activeD(2) [OF coreD(2) [OF c]] p(1) by simp
  have e3: "ps_procs st3 = ps_procs st" "practive st3 = practive st" using st3(3,5) r2 by (simp_all add: rest_fields_def)
  obtain st4 where run4: "kbind (proc_upd_opt (p_next r) (\<lambda>x. x\<lparr>p_prev := p_prev r\<rparr>) (if practive st3 = Some p then st3\<lparr>practive := p_next r\<rparr> else st3))
      (proc_upd_opt (p_prev r) (\<lambda>x. x\<lparr>p_next := p_next r\<rparr>)) = KRet st4"
    and st4: "ps_pids st4 = ps_pids st3" "pidhash st4 = pidhash st3"
      "rest_fields (st3\<lparr>practive := if practive st = Some p then pf p_next st p else practive st\<rparr>) st4"
    and v4: "pf p_next st4 = dl_set (pf p_prev st p) (pf p_next st p) (pf p_next st)"
      "pf p_prev st4 = dl_set (pf p_next st p) (pf p_prev st p) (pf p_prev st)"
      "pf p_pgidp st4 = pf p_pgidp st" "pf p_pglink st4 = pf p_pglink st" "pf p_ppglink st4 = pf p_ppglink st"
      "pf p_pidp st4 = pf p_pidp st" "pf p_sessp st4 = pf p_sessp st" "pf p_parent st4 = pf p_parent st" "children st4 = children st"
      "\<forall>q. ps_procs st4 q = None \<longleftrightarrow> ps_procs st q = None"
    using exit_unlink [OF coreD(2) [OF c] pL r e3] by blast
  have refs4: "pid_refs st4 M2" using st3(2) pid_refs_frame [of st4 st3] st4 by (simp add: rest_fields_def)
  obtain st5 where st5: "PID_RELE st4 a = KRet st5" "pid_refs st5 (M2 - {#a#})" "same_rest st4 st5"
    "\<forall>b. pid_val st5 b = (if b \<in># M2 - {#a#} then pid_val st4 b else None)" using PID_RELE_cut [OF refs4 a2] by blast
  let ?st = "st5\<lparr>ps_procs := (ps_procs st5)(p := None), nproc := nproc st5 - 1\<rparr>"
  have v6: "pf f ?st = (pf f st4)(p := None)" for f :: "proc_t \<Rightarrow> nat option"
    unfolding pf_remove pf_frame [OF same_restD(1) [OF st5(3)]] by (rule refl)
  have r6: "procdir ?st = (procdir st)[i := Pe_next (procentfree st)]" "procentfree ?st = Some i" "minpid ?st = minpid st" "mpid ?st = mpid st"
    "maxpid ?st = maxpid st" "practive ?st = (if practive st = Some p then pf p_next st p else practive st)" "nproc ?st = nproc st - 1"
    "ps_sess ?st = ps_sess st2"
    using st5(3) st4(3) st3(5) r2 by (simp_all add: same_rest_def rest_fields_def)
  have val6: "pid_val ?st b = (if b \<in># M2 - {#a#} then if b = a then map_option (\<lambda>x. x\<lparr>pid_prinactive := True\<rparr>) (pid_val st a) else pid_val st b else None)" for b
  proof -
    have "pid_val ?st b = pid_val st5 b" "pid_val st4 b = pid_val st3 b" using st4(1) by (simp_all add: pid_val_def)
    then show ?thesis using st5(4) st3(4) val2 [of b] val2 [of a] a2 by (auto dest: in_diffD)
  qed
  have sid6: "sids ?st = sids st2" using r6(8) by (simp add: sids_def fun_eq_iff)
  have "pid_pend {#} D ?st (M2 - {#a#}) G"
  proof (rule gone_pend [OF inv c p(4,3) i(1) _ val6])
    show "pid_refs ?st (M2 - {#a#})" using st5(2) pid_refs_frame [of ?st st5] by simp
    show "count (M2 - {#a#}) b = (if b = a \<or> pslot st b = None then 0 else 1) + (if G b = [] then 0 else 1) + card (sids ?st b) + count D b" for b
      using cnt2 [of b] i(1) unfolding sid6 by auto
    show "ps_procs ?st q = None \<longleftrightarrow> q = p \<or> ps_procs st q = None" for q using v4(10) same_restD(1) [OF st5(3)] by simp
    show "active ?st (remove1 p L)"
      by (rule active_unlink [OF coreD(2) [OF c] pL _ _ r6(6) _ r6(7)]) (simp_all only: v6 v4)
    show "sess_ok ?st" by (rule sess_left_ok [OF coreD(3) [OF c] left r6(8) _ p(2)]) (simp only: v6 v4)
    show "mpid_ok ?st (mpid ?st)" using coreD(4) [OF c] r6(3-5) by (simp add: mpid_ok_def)
    show "sids ?st b \<subseteq> sids st b" for b unfolding sid6 by (rule sess_leftD(3) [OF left])
  qed (simp_all only: v6 v4 r6)
  moreover have "gone_views p st ?st"
  proof -
    have "children ?st = (children st4)(p := [])" using same_restD(1) [OF st5(3)] by (auto simp: children_def fun_eq_iff)
    then show ?thesis unfolding gone_views_def v6 v4 by simp
  qed
  moreover have "exit_tail p r s a st = KRet ?st"
    unfolding exit_tail_def run2 kbind.simps(1) st3(1) run4 st5(1) by (rule refl)
  ultimately show ?thesis by blast
qed

lemma pid_exit_pend:
  assumes inv: "pid_pend {#} D st H G" and par: "parents_ok st" and p: "pf p_sessp st p \<noteq> None" "p \<noteq> p0"
  shows "\<exists>st' H' G'. pid_exit p st = KRet st' \<and> pid_pend {#} D st' H' G' \<and> gone_views p st st'"
proof -
  obtain fs L where c: "core st fs L" using pid_pendD(3) [OF inv] by blast
  obtain s where s: "pf p_sessp st p = Some s" using p(1) by blast
  obtain r where r: "ps_procs st p = Some r" "p_sessp r = Some s" using pf_SomeD [OF s] by blast
  obtain a where a: "pf p_pidp st p = Some a" using slotsD(5) [OF coreD(1) [OF c]] r(1) by blast
  have rr: "pf f st p = f r" for f :: "proc_t \<Rightarrow> nat option" by (rule pf_Some [OF r(1)])
  have "\<exists>st1 H1 G1. (if p_pgidp r \<noteq> None then pgexit p st else KRet st) = KRet st1 \<and> pid_pend {#} D st1 H1 G1 \<and> grp_frame st st1 \<and>
    pf p_pgidp st1 = (pf p_pgidp st)(p := None)"
  proof (cases "p_pgidp r")
    case None
    then show ?thesis using inv rr [of p_pgidp] by (intro exI [of _ st] exI [of _ H] exI [of _ G]) (simp add: fun_upd_idem)
  next
    case (Some g)
    then show ?thesis using pgexit_pend [OF inv par, of p g] rr [of p_pgidp] by auto
  qed
  then obtain st1 H1 G1 where st1: "(if p_pgidp r \<noteq> None then pgexit p st else KRet st) = KRet st1" "pid_pend {#} D st1 H1 G1" "grp_frame st st1"
    "pf p_pgidp st1 = (pf p_pgidp st)(p := None)" by blast
  note f1 = grp_frame_fields [OF st1(3)]
  have "pf p_sessp st1 p = Some s" "pf p_pidp st1 p = Some a" "pf p_pgidp st1 p = None" "p_next r = pf p_next st1 p" "p_prev r = pf p_prev st1 p"
    using s a rr st1(4) by (simp_all add: f1)
  then obtain st' H' where st': "exit_tail p r s a st1 = KRet st'" "pid_pend {#} D st' H' G1" "gone_views p st1 st'"
    using exit_tail_ok [OF st1(2) _ p(2)] by blast
  have "pid_exit p st = exit_tail p r s a st1"
    using r a rr [of p_pidp] st1(1) by (simp add: pid_exit_def proc_at_def deref_def exit_tail_def kbind_assoc Let_def)
  moreover have "gone_views p st st'" using st'(3) f1 children_grp_frame [OF st1(3)] st1(4) by (simp add: gone_views_def)
  ultimately show ?thesis using st'(1,2) by auto
qed

section \<open>Changes outside of the tables\<close>

definition proc_core :: "proc_t \<Rightarrow> proc_t" where
  "proc_core r = r\<lparr>p_stat := SSLEEP, p_flag := 0, p_parent := None, p_child := []\<rparr>"

text \<open>Two states that differ in signals, families, status and flags of processes.\<close>

definition plain :: "pidsys \<Rightarrow> pidsys \<Rightarrow> bool" where
  "plain st st' \<longleftrightarrow> (\<forall>p. map_option proc_core (ps_procs st' p) = map_option proc_core (ps_procs st p)) \<and>
     ps_pids st' = ps_pids st \<and> pidhash st' = pidhash st \<and> rest_fields (st\<lparr>ps_sigs := ps_sigs st'\<rparr>) st'"

lemma plain_refl [simp]: "plain st st"
  by (simp add: plain_def rest_fields_def)

lemma plain_trans: "plain st1 st2 \<Longrightarrow> plain st2 st3 \<Longrightarrow> plain st1 st3"
  by (simp add: plain_def rest_fields_def)

lemma plain_put: "live_opt st h \<Longrightarrow> (\<And>r. proc_core (f r) = proc_core r) \<Longrightarrow> plain st (put_opt h f st)"
  by (auto simp: plain_def rest_fields_def put_opt_def split: option.splits)

lemma plain_sigs: "plain st (st\<lparr>ps_sigs := l\<rparr>)"
  by (simp add: plain_def rest_fields_def)

lemma plain_dom: "plain st st' \<Longrightarrow> ps_procs st' p = None \<longleftrightarrow> ps_procs st p = None"
  unfolding plain_def by (metis map_option_is_None)

lemma plain_pf:
  assumes "plain st st'" "\<And>r. f (proc_core r) = f r"
  shows "pf f st' = pf f st"
proof
  fix p
  have "map_option proc_core (ps_procs st' p) = map_option proc_core (ps_procs st p)" using assms(1) by (simp add: plain_def)
  then show "pf f st' p = pf f st p"
    using assms(2) by (cases "ps_procs st p"; cases "ps_procs st' p") (auto simp: pf_def, metis)
qed

lemma plain_fields:
  assumes "plain st st'"
  shows "pf p_pidp st' = pf p_pidp st" "pf p_next st' = pf p_next st" "pf p_prev st' = pf p_prev st" "pf p_sessp st' = pf p_sessp st"
    "pf p_pgidp st' = pf p_pgidp st" "pf p_pglink st' = pf p_pglink st" "pf p_ppglink st' = pf p_ppglink st"
  by (rule plain_pf [OF assms], simp add: proc_core_def)+

lemma plain_pend:
  assumes pl: "plain st st'" and inv: "pid_pend N D st H G"
  shows "pid_pend N D st' H G"
proof -
  obtain fs L where c: "core st fs L" using pid_pendD(3) [OF inv] by blast
  note e = plain_fields [OF pl]
  have v: "pid_val st' = pid_val st" using pl by (simp add: plain_def pid_val_def fun_eq_iff)
  have ps: "pslot st' = pslot st" by (simp add: pslot_def v fun_eq_iff)
  have r: "ps_sess st' = ps_sess st" "procdir st' = procdir st" "procentfree st' = procentfree st" "minpid st' = minpid st" "mpid st' = mpid st"
    "maxpid st' = maxpid st" "practive st' = practive st" "nproc st' = nproc st" "pid_hashsz st' = pid_hashsz st"
    using pl by (simp_all add: plain_def rest_fields_def)
  have sid: "sids st' = sids st" using r(1) by (simp add: sids_def fun_eq_iff)
  have "dom (ps_procs st') = dom (ps_procs st)" using plain_dom [OF pl] by (simp add: dom_def)
  then have "slots st' fs" using slots_views [OF coreD(1) [OF c]] r e ps by simp
  moreover have "active st' L" by (rule active_views [OF coreD(2) [OF c]]) (simp_all add: r e)
  moreover have "sess_ok st'" by (rule sess_views [OF coreD(3) [OF c]]) (simp_all add: r e)
  moreover have "mpid_ok st' (mpid st')" using coreD(4) [OF c] r by (simp add: mpid_ok_def)
  moreover have "pf p_sessp st' q \<noteq> None" if "pf p_pgidp st' q \<noteq> None" for q using that coreD(5) [OF c, of q] e by simp
  moreover have "named_ok st'" using coreD(6) [OF c] unfolding named_ok_def sid e .
  ultimately have c': "core st' fs L" unfolding core_def by blast
  have g: "groups st' G" by (rule groups_views [OF pid_pendD(2) [OF inv]]) (simp_all add: e v groupsD(3) [OF pid_pendD(2) [OF inv]])
  have refs: "pid_refs st' H" using pid_pendD(1) [OF inv] pid_refs_frame [of st' st] pl r(9) by (simp add: plain_def)
  show ?thesis by (rule pid_pendI [OF refs g c']) (use pid_pendD(4,5,6) [OF inv] in \<open>simp_all add: holders_def ps sid\<close>)
qed

section \<open>Families\<close>

lemma familyD:
  assumes "family st"
  shows "c \<in> set (children st p) \<longleftrightarrow> pf p_parent st c = Some p" "distinct (children st p)"
    "pf p_sessp st p \<noteq> None \<Longrightarrow> p \<noteq> p0 \<Longrightarrow> pf p_parent st p \<noteq> None" "pf p_sessp st p = None \<Longrightarrow> pf p_parent st p = None \<and> children st p = []"
  using assms unfolding family_def by blast+

lemma family_gone:
  assumes fam: "family st" and p: "children st p = []" "pf p_parent st p = Some q"
    and ch: "children st' = (children st)(q := remove1 p (children st q), p := [])"
    and par: "pf p_parent st' = (pf p_parent st)(p := None)" and sess: "pf p_sessp st' = (pf p_sessp st)(p := None)"
  shows "family st'"
proof -
  have qp: "q \<noteq> p" using familyD(1) [OF fam, of p p] p by auto
  have "c \<in> set (children st' x) \<longleftrightarrow> pf p_parent st' c = Some x" for c x
    using familyD(1) [OF fam, of c x] familyD(1) [OF fam, of c p] familyD(2) [OF fam, of q] p qp unfolding ch par
    by (auto simp: set_remove1_eq)
  moreover have "distinct (children st' x)" for x using familyD(2) [OF fam] unfolding ch by simp
  moreover have "pf p_parent st' x \<noteq> None" if "pf p_sessp st' x \<noteq> None" "x \<noteq> p0" for x
    using familyD(3) [OF fam, of x] that unfolding par sess by (auto split: if_splits)
  moreover have "pf p_parent st' x = None \<and> children st' x = []" if "pf p_sessp st' x = None" for x
    using familyD(4) [OF fam, of x] that unfolding par sess ch by (auto split: if_splits)
  ultimately show ?thesis unfolding family_def by blast
qed

lemma children_put_child:
  assumes "ps_procs st q \<noteq> None"
  shows "children (put_opt (Some q) (\<lambda>r. r\<lparr>p_child := g (p_child r)\<rparr>) st) = (children st)(q := g (children st q))"
  using assms by (auto simp: children_def put_opt_def fun_eq_iff)

text \<open>A process without children that is taken from its parent is given up for good.\<close>

lemma unparent_exit:
  assumes inv: "pid_inv D st" and p: "pf p_sessp st p \<noteq> None" "p \<noteq> p0" "children st p = []" and q: "pf p_parent st p = Some q"
    and f: "f (children st q) = remove1 p (children st q)"
  shows "\<exists>st'. kbind (proc_upd q (\<lambda>x. x\<lparr>p_child := f (p_child x)\<rparr>) st) (pid_exit p) = KRet st' \<and> pid_inv D st' \<and>
    pf p_sessp st' = (pf p_sessp st)(p := None) \<and> pf p_pidp st' = (pf p_pidp st)(p := None) \<and> pf p_pgidp st' = (pf p_pgidp st)(p := None)"
proof -
  obtain H G where pend: "pid_pend {#} D st H G" and fam: "family st" using inv unfolding pid_inv_def by blast
  have live: "ps_procs st q \<noteq> None" using children_live [of p st q] familyD(1) [OF fam] q by simp
  let ?st = "put_opt (Some q) (\<lambda>x. x\<lparr>p_child := f (p_child x)\<rparr>) st"
  have lo: "live_opt st (Some q)" using live by simp
  have pl: "plain st ?st" by (rule plain_put [OF lo]) (simp add: proc_core_def)
  have par: "pf p_parent ?st = pf p_parent st" by (rule pf_put_same [OF lo]) simp
  have ch: "children ?st = (children st)(q := remove1 p (children st q))" using children_put_child [OF live, of f] f by simp
  have "parents_ok ?st" using family_parents [OF fam] plain_dom [OF pl] unfolding parents_ok_def par by simp
  moreover have "pf p_sessp ?st p \<noteq> None" using p(1) plain_fields(4) [OF pl] by simp
  ultimately obtain st' H' G' where st': "pid_exit p ?st = KRet st'" "pid_pend {#} D st' H' G'" "gone_views p ?st st'"
    using pid_exit_pend [OF plain_pend [OF pl pend] _ _ p(2)] by blast
  note v = st'(3) [unfolded gone_views_def par ch plain_fields [OF pl]]
  have "family st'" by (rule family_gone [OF fam p(3) q]) (use v in simp_all)
  then have "pid_inv D st'" using st'(2) unfolding pid_inv_def by blast
  moreover have "kbind (proc_upd q (\<lambda>x. x\<lparr>p_child := f (p_child x)\<rparr>) st) (pid_exit p) = KRet st'" using put_some_run [OF live] st'(1) by simp
  ultimately show ?thesis using v by blast
qed

lemma freeproc_inv:
  assumes inv: "pid_inv D st" and p: "pf p_sessp st p \<noteq> None" "p \<noteq> p0" "children st p = []"
  shows "\<exists>st'. freeproc p st = KRet st' \<and> pid_inv D st' \<and> pf p_sessp st' = (pf p_sessp st)(p := None) \<and>
    pf p_pidp st' = (pf p_pidp st)(p := None) \<and> pf p_pgidp st' = (pf p_pgidp st)(p := None)"
proof -
  have fam: "family st" using inv by (simp add: pid_inv_def)
  obtain q where q: "pf p_parent st p = Some q" using familyD(3) [OF fam p(1,2)] by blast
  obtain r where "proc_at st p = KRet r" "p_parent r = Some q" using kret_live [OF q] by blast
  then have "freeproc p st = kbind (proc_upd q (\<lambda>x. x\<lparr>p_child := remove1 p (p_child x)\<rparr>) st) (pid_exit p)"
    by (simp add: freeproc_def deref_def)
  then show ?thesis using unparent_exit [OF inv p q, of "remove1 p"] by simp
qed

lemma fork_abort_inv:
  assumes inv: "pid_inv D st" and p: "pf p_sessp st cp \<noteq> None" "cp \<noteq> p0" "children st cp = []" and q: "children st q = cp # cs"
  shows "\<exists>st'. fork_abort q cp st = KRet st' \<and> pid_inv D st' \<and> pf p_sessp st' = (pf p_sessp st)(cp := None) \<and>
    pf p_pidp st' = (pf p_pidp st)(cp := None) \<and> pf p_pgidp st' = (pf p_pgidp st)(cp := None)"
proof -
  have "pf p_parent st cp = Some q" using familyD(1) [of st cp q] inv q by (simp add: pid_inv_def)
  from unparent_exit [OF inv p this, of "siblings_after cp"] q show ?thesis by (simp add: fork_abort_def siblings_after_def)
qed

text \<open>An attempt that is refused before the process is linked anywhere.\<close>

lemma pid_rele_cut:
  assumes refs: "pid_refs st M" and one: "count M a = 1"
  shows "\<exists>st'. pid_rele a st = KRet st' \<and> pid_refs st' (M - {#a#}) \<and> same_rest st st' \<and>
    (\<forall>b. pid_val st' b = (if b \<in># M - {#a#} then pid_val st b else None))"
proof -
  have a: "a \<in># M" using one by (metis count_eq_zero_iff zero_neq_one)
  obtain x where x: "ps_pids st a = Some x" using pid_refsD(3) [OF refs a] by blast
  then have "unat (pid_ref x) = 1" using pid_refsD(2) [OF refs x] one by simp
  then have "\<not> 1 < pid_ref x" by (simp add: word_less_nat_alt)
  then have "PID_RELE st a = pid_rele a st" using x by (simp add: PID_RELE_def pid_at_def)
  then show ?thesis using PID_RELE_cut [OF refs a] by simp
qed

lemma getproc_bad_inv:
  assumes inv: "pid_inv D st" and p: "ps_procs st p \<noteq> None" "pf p_sessp st p = None" and a: "pf p_pidp st p = Some a" "a \<notin># D"
  shows "\<exists>st'. getproc_bad p st = KRet st' \<and> pid_inv D st' \<and> pf p_pidp st' = (pf p_pidp st)(p := None) \<and> pf p_sessp st' = pf p_sessp st \<and>
    pf p_pgidp st' = pf p_pgidp st"
proof -
  obtain H G where pend: "pid_pend {#} D st H G" and fam: "family st" using inv unfolding pid_inv_def by blast
  obtain fs L where c: "core st fs L" using pid_pendD(3) [OF pend] by blast
  obtain i where i: "pslot st a = Some i" "i < length (procdir st)" using slots_proc [OF coreD(1) [OF c] a(1)] by blast
  have ns: "sids st a = {}" "\<forall>q. pf p_pgidp st q \<noteq> Some a" using coreD(6) [OF c] a(1) p(2) unfolding named_ok_def by blast+
  have G: "G a = []" using groupsD(2) [OF pid_pendD(2) [OF pend], of _ a] ns(2) by (metis last_in_set)
  have cnt: "count H b = holders st G D b" for b using pid_pendD(4) [OF pend, of b] by simp
  have one: "count H a = 1" using cnt [of a] i(1) G ns(1) a(2) by (simp add: holders_def count_eq_zero_iff)
  then have aH: "a \<in># H" by (metis count_eq_zero_iff zero_neq_one)
  obtain st1 where st1: "proc_entry_free a st = KRet st1" "pid_refs st1 H" "ps_procs st1 = ps_procs st"
    "pid_val st1 = (pid_val st)(a := map_option (\<lambda>x. x\<lparr>pid_prinactive := True\<rparr>) (pid_val st a))"
    "rest_fields (st\<lparr>procdir := (procdir st)[i := Pe_next (procentfree st)], procentfree := Some i\<rparr>) st1"
    using proc_entry_free_ok [OF pid_pendD(1) [OF pend] aH i] by blast
  obtain st2 where st2: "pid_rele a st1 = KRet st2" "pid_refs st2 (H - {#a#})" "same_rest st1 st2"
    "\<forall>b. pid_val st2 b = (if b \<in># H - {#a#} then pid_val st1 b else None)" using pid_rele_cut [OF st1(2) one] by blast
  let ?st = "st2\<lparr>ps_procs := (ps_procs st2)(p := None)\<rparr>"
  have procs: "ps_procs ?st = (ps_procs st)(p := None)" using same_restD(1) [OF st2(3)] st1(3) by simp
  have v: "pf f ?st = (pf f st)(p := None)" for f :: "proc_t \<Rightarrow> nat option" unfolding pf_def procs by (auto simp: fun_eq_iff)
  have r: "procdir ?st = (procdir st)[i := Pe_next (procentfree st)]" "procentfree ?st = Some i" "minpid ?st = minpid st" "mpid ?st = mpid st"
    "maxpid ?st = maxpid st" "practive ?st = practive st" "nproc ?st = nproc st" "ps_sess ?st = ps_sess st"
    using st2(3) st1(5) by (simp_all add: same_rest_def rest_fields_def)
  have keep: "pf f st p = None \<Longrightarrow> pf f ?st = pf f st" for f :: "proc_t \<Rightarrow> nat option" by (simp add: v fun_upd_idem)
  have pg: "pf p_pgidp st p = None" using coreD(5) [OF c, of p] p(2) by blast
  have val: "pid_val ?st b = (if b \<in># H - {#a#} then if b = a then map_option (\<lambda>x. x\<lparr>pid_prinactive := True\<rparr>) (pid_val st a) else pid_val st b else None)" for b
  proof -
    have "pid_val ?st b = pid_val st2 b" by (simp add: pid_val_def)
    then show ?thesis using st2(4) st1(4) by simp
  qed
  have sid: "sids ?st = sids st" using r(8) by (simp add: sids_def fun_eq_iff)
  have act: "active ?st L"
  proof -
    have pL: "p \<notin> set L" using activeD(2) [OF coreD(2) [OF c], of p] p(2) by simp
    have "dlist (pf p_next ?st) (pf p_prev ?st) (practive ?st) L = dlist (pf p_next st) (pf p_prev st) (practive st) L"
      unfolding r(6) v using pL by (intro dlist_cong) auto
    then show ?thesis using activeD [OF coreD(2) [OF c]] p(2) unfolding active_def keep [OF p(2)] r v by auto
  qed
  have "pid_pend {#} D ?st (H - {#a#}) G"
  proof (rule gone_pend [OF pend c pg a(1) i(1) _ val _ v v v v v _ r(1,2) act])
    show "pid_refs ?st (H - {#a#})" using st2(2) pid_refs_frame [of ?st st2] by simp
    show "count (H - {#a#}) b = (if b = a \<or> pslot st b = None then 0 else 1) + (if G b = [] then 0 else 1) + card (sids ?st b) + count D b" for b
      using cnt [of b] i(1) unfolding sid by (auto simp: holders_def)
    show "ps_procs ?st q = None \<longleftrightarrow> q = p \<or> ps_procs st q = None" for q unfolding procs by simp
    show "sess_ok ?st" by (rule sess_views [OF coreD(3) [OF c] r(8) keep [OF p(2)]])
    show "mpid_ok ?st (mpid ?st)" using coreD(4) [OF c] r(3-5) by (simp add: mpid_ok_def)
    show "sids ?st b \<subseteq> sids st b" for b by (simp add: sid)
  qed
  moreover have "family ?st"
  proof -
    note fp = familyD(4) [OF fam p(2)]
    have "children ?st = children st" using fp unfolding children_def procs by (auto simp: fun_eq_iff)
    then show ?thesis using family_views [OF fam] keep [OF p(2)] keep [of p_parent] fp by simp
  qed
  ultimately have "pid_inv D ?st" unfolding pid_inv_def by blast
  moreover obtain r where "proc_at st p = KRet r" "p_pidp r = Some a" using kret_live [OF a(1)] by blast
  then have "getproc_bad p st = KRet ?st" using st1(1) st2(1) by (simp add: getproc_bad_def deref_def)
  ultimately show ?thesis using keep [OF p(2)] keep [OF pg] v by blast
qed

end
