(* ===== verification/Spec2Isabelle.thy ===== *)
theory Spec2Isabelle
  imports Rmap Procset Xdr_Filters Bitmap Uid_Runs Sem_Props Pid_Exit
begin

text \<open>
  Verification of kernel components of the Solaris 7 sources.
\<close>

end
